(* ===== verification/Prelude.thy ===== *)
theory Prelude
  imports Main "HOL-Library.Multiset" "HOL-Library.AList"
begin

text \<open>
  What the components share: the exceptions a Python function can raise as a datatype, the
  result type of a fallible operation and its sequencing, loops that may raise, Python's list
  indexing with negative indices, dictionaries in insertion order, the first index of a maximum,
  and generic facts on lists, multisets and division.
\<close>

named_theorems res_simps \<open>unfolding and inversion of fallible computations\<close>
named_theorems list_facts \<open>generic facts on lists used across components\<close>

section \<open>Exceptions and results\<close>

datatype py_error =
    AssertionError
  | IndexError
  | KeyError
  | ValueError
  | RuntimeError
  | TypeError
  | AttributeError
  | NotImplementedError
  | ZeroDivisionError
  | StructError
  | UnboundLocalError

type_synonym 'a res = "py_error + 'a"

abbreviation Ok :: "'a \<Rightarrow> 'a res" where "Ok \<equiv> Inr"
abbreviation Raise :: "py_error \<Rightarrow> 'a res" where "Raise \<equiv> Inl"

definition rbind :: "'a res \<Rightarrow> ('a \<Rightarrow> 'b res) \<Rightarrow> 'b res" where
  "rbind r f = (case r of Inl e \<Rightarrow> Inl e | Inr x \<Rightarrow> f x)"

lemma rbind_Ok [simp]: "rbind (Ok x) f = f x"
  by (simp add: rbind_def)

lemma rbind_Raise [simp]: "rbind (Raise e) f = Raise e"
  by (simp add: rbind_def)

lemma rbind_eq_Ok [res_simps]: "rbind r f = Ok y \<longleftrightarrow> (\<exists>x. r = Ok x \<and> f x = Ok y)"
  by (cases r) auto

lemma rbind_eq_Raise [res_simps]:
  "rbind r f = Raise e \<longleftrightarrow> r = Raise e \<or> (\<exists>x. r = Ok x \<and> f x = Raise e)"
  by (cases r) auto

lemma rbind_assoc: "rbind (rbind r f) g = rbind r (\<lambda>x. rbind (f x) g)"
  by (cases r) simp_all

lemma Ok_projr: "\<not> isl r \<Longrightarrow> r = Ok (projr r)"
  by (cases r) auto

definition py_assert :: "bool \<Rightarrow> unit res" where
  "py_assert b = (if b then Ok () else Raise AssertionError)"

lemma py_assert_eq_Ok [res_simps]: "py_assert b = Ok u \<longleftrightarrow> b"
  by (simp add: py_assert_def)

lemma py_assert_eq_Raise [res_simps]: "py_assert b = Raise e \<longleftrightarrow> \<not> b \<and> e = AssertionError"
  by (auto simp: py_assert_def)

lemma py_assert_True [simp]: "py_assert True = Ok ()"
  by (simp add: py_assert_def)

text \<open>A \<open>for\<close> loop whose body may raise: it stops at the first exception.\<close>

fun foldM :: "('s \<Rightarrow> 'a \<Rightarrow> 's res) \<Rightarrow> 's \<Rightarrow> 'a list \<Rightarrow> 's res" where
  "foldM f s [] = Ok s"
| "foldM f s (x # xs) = rbind (f s x) (\<lambda>s'. foldM f s' xs)"

lemma foldM_append [simp]: "foldM f s (xs @ ys) = rbind (foldM f s xs) (\<lambda>s'. foldM f s' ys)"
  by (induction xs arbitrary: s) (auto simp: rbind_def split: sum.splits)

lemma foldM_invariant:
  assumes "P s" and "foldM f s xs = Ok s'"
    and "\<And>s x s'. x \<in> set xs \<Longrightarrow> P s \<Longrightarrow> f s x = Ok s' \<Longrightarrow> P s'"
  shows "P s'"
  using assms
proof (induction xs arbitrary: s)
  case Nil
  then show ?case by simp
next
  case (Cons x xs)
  from Cons.prems(2) obtain t where t: "f s x = Ok t" and r: "foldM f t xs = Ok s'"
    by (auto simp: res_simps)
  have "P t" by (rule Cons.prems(3)[OF _ Cons.prems(1) t]) simp
  then show ?case
    by (rule Cons.IH[OF _ r]) (auto intro: Cons.prems(3))
qed

lemma foldM_total:
  assumes "P s" and "\<And>s x. x \<in> set xs \<Longrightarrow> P s \<Longrightarrow> \<exists>s'. f s x = Ok s' \<and> P s'"
  shows "\<exists>s'. foldM f s xs = Ok s' \<and> P s'"
  using assms
proof (induction xs arbitrary: s)
  case Nil
  then show ?case by simp
next
  case (Cons x xs)
  then obtain t where "f s x = Ok t" and "P t"
    by (meson list.set_intros(1))
  with Cons.IH[of t] Cons.prems(2) show ?case by simp
qed

text \<open>A list comprehension whose element expression may raise.\<close>

fun mapM :: "('a \<Rightarrow> 'b res) \<Rightarrow> 'a list \<Rightarrow> 'b list res" where
  "mapM f [] = Ok []"
| "mapM f (x # xs) = rbind (f x) (\<lambda>y. rbind (mapM f xs) (\<lambda>ys. Ok (y # ys)))"

lemma mapM_eq_Ok: "mapM f xs = Ok ys \<longleftrightarrow> list_all2 (\<lambda>x y. f x = Ok y) xs ys"
proof (induction xs arbitrary: ys)
  case Nil
  then show ?case by (cases ys) auto
next
  case (Cons x xs)
  then show ?case by (cases ys) (auto simp: res_simps)
qed

lemma mapM_length: "mapM f xs = Ok ys \<Longrightarrow> length ys = length xs"
  by (auto simp: mapM_eq_Ok dest: list_all2_lengthD)

lemma mapM_nth: "mapM f xs = Ok ys \<Longrightarrow> i < length xs \<Longrightarrow> f (xs ! i) = Ok (ys ! i)"
  by (auto simp: mapM_eq_Ok dest: list_all2_nthD)

lemma mapM_Ok_map: "(\<And>x. x \<in> set xs \<Longrightarrow> f x = Ok (g x)) \<Longrightarrow> mapM f xs = Ok (map g xs)"
  by (induction xs) auto

text \<open>
  Partial correctness of a fallible computation: if it returns, the result satisfies \<open>P\<close>. The
  equations push it through the sequencing, so that a proof over a long handler is one
  simplification and then one rule per call.
\<close>

definition ensures :: "'a res \<Rightarrow> ('a \<Rightarrow> bool) \<Rightarrow> bool" where
  "ensures r P \<longleftrightarrow> (\<forall>x. r = Ok x \<longrightarrow> P x)"

lemma ensuresD: "ensures r P \<Longrightarrow> r = Ok x \<Longrightarrow> P x"
  by (simp add: ensures_def)

lemma ensuresI: "(\<And>x. r = Ok x \<Longrightarrow> P x) \<Longrightarrow> ensures r P"
  by (simp add: ensures_def)

lemma ensures_rbind [simp]: "ensures (rbind r f) P \<longleftrightarrow> ensures r (\<lambda>x. ensures (f x) P)"
  by (cases r) (auto simp: ensures_def)

lemma ensures_Ok [simp]: "ensures (Ok x) P \<longleftrightarrow> P x"
  by (simp add: ensures_def)

lemma ensures_Raise [simp]: "ensures (Raise e) P"
  by (simp add: ensures_def)

lemma ensures_if [simp]: "ensures (if b then r else r') P \<longleftrightarrow> (b \<longrightarrow> ensures r P) \<and> (\<not> b \<longrightarrow> ensures r' P)"
  by simp

lemma ensures_assert [simp]: "ensures (py_assert b) P \<longleftrightarrow> (b \<longrightarrow> P ())"
  by (simp add: py_assert_def)

lemma ensures_mono: "ensures r P \<Longrightarrow> (\<And>x. P x \<Longrightarrow> Q x) \<Longrightarrow> ensures r Q"
  by (simp add: ensures_def)

lemma ensures_any: "(\<And>x. P x) \<Longrightarrow> ensures r P"
  by (simp add: ensures_def)

lemma ensures_foldM:
  assumes "P s" and "\<And>s x. x \<in> set xs \<Longrightarrow> P s \<Longrightarrow> ensures (f s x) P"
  shows "ensures (foldM f s xs) P"
  by (rule ensuresI, rule foldM_invariant[where P = P, OF assms(1)]) (use assms(2) in \<open>auto dest: ensuresD\<close>)

section \<open>Python lists and dictionaries\<close>

text \<open>Indexing: a negative index counts from the end, anything else out of range raises.\<close>

definition py_get :: "'a list \<Rightarrow> int \<Rightarrow> 'a res" where
  "py_get xs i =
     (let n = int (length xs); j = (if i < 0 then n + i else i)
      in if 0 \<le> j \<and> j < n then Ok (xs ! nat j) else Raise IndexError)"

definition py_set :: "'a list \<Rightarrow> int \<Rightarrow> 'a \<Rightarrow> 'a list res" where
  "py_set xs i v =
     (let n = int (length xs); j = (if i < 0 then n + i else i)
      in if 0 \<le> j \<and> j < n then Ok (xs[nat j := v]) else Raise IndexError)"

lemma py_get_nonneg: "0 \<le> i \<Longrightarrow> i < int (length xs) \<Longrightarrow> py_get xs i = Ok (xs ! nat i)"
  by (simp add: py_get_def)

lemma py_get_nat: "i < length xs \<Longrightarrow> py_get xs (int i) = Ok (xs ! i)"
  by (simp add: py_get_def)

lemma py_set_nonneg: "0 \<le> i \<Longrightarrow> i < int (length xs) \<Longrightarrow> py_set xs i v = Ok (xs[nat i := v])"
  by (simp add: py_set_def)

lemma py_set_length: "py_set xs i v = Ok ys \<Longrightarrow> length ys = length xs"
  by (auto simp: py_set_def Let_def split: if_splits)

text \<open>\<open>xs[-n:]\<close> and \<open>xs[:-n]\<close>; \<open>-0\<close> is 0.\<close>

definition last_n :: "nat \<Rightarrow> 'a list \<Rightarrow> 'a list" where
  "last_n n xs = (if n = 0 then xs else drop (length xs - n) xs)"

definition but_last_n :: "nat \<Rightarrow> 'a list \<Rightarrow> 'a list" where
  "but_last_n n xs = (if n = 0 then [] else take (length xs - n) xs)"

text \<open>\<open>d[k]\<close> on a dictionary: a missing key raises.\<close>

definition dict_get :: "('k \<rightharpoonup> 'v) \<Rightarrow> 'k \<Rightarrow> 'v res" where
  "dict_get d k = (case d k of None \<Rightarrow> Raise KeyError | Some v \<Rightarrow> Ok v)"

lemma dict_get_eq_Ok [res_simps]: "dict_get d k = Ok v \<longleftrightarrow> d k = Some v"
  by (auto simp: dict_get_def split: option.splits)

lemma dict_get_hit: "d k = Some v \<Longrightarrow> dict_get d k = Ok v"
  by (simp add: dict_get_def)

lemma dict_get_eq_Raise [res_simps]: "dict_get d k = Raise e \<longleftrightarrow> d k = None \<and> e = KeyError"
  by (auto simp: dict_get_def split: option.splits)

text \<open>\<open>range(a, b)\<close> over the integers.\<close>

lemma set_upto_int: "set [a..b - 1] = {a..<b}" for a b :: int
  by auto

section \<open>Multisets and lists\<close>

lemma mset_take_drop: "mset (take n xs) + mset (drop n xs) = mset xs"
  by (metis append_take_drop_id mset_append)

lemma distinct_iff_count: "distinct xs \<longleftrightarrow> (\<forall>x. count (mset xs) x \<le> 1)"
proof
  assume "distinct xs"
  then show "\<forall>x. count (mset xs) x \<le> 1" by (simp add: distinct_count_atmost_1)
next
  assume a: "\<forall>x. count (mset xs) x \<le> 1"
  have "count (mset xs) x = (if x \<in> set xs then 1 else 0)" for x
    using a[rule_format, of x] by (metis count_mset_0_iff le_antisym less_one not_less)
  then show "distinct xs" by (simp add: distinct_count_atmost_1)
qed

lemma distinct_of_mset_add: "mset xs + M = mset u \<Longrightarrow> distinct u \<Longrightarrow> distinct xs"
  by (metis distinct_iff_count add_leE count_union)

lemma disjoint_of_mset_add:
  "mset xs + M = mset u \<Longrightarrow> distinct u \<Longrightarrow> x \<in> set xs \<Longrightarrow> x \<notin># M"
proof
  assume a: "mset xs + M = mset u" "distinct u" "x \<in> set xs" "x \<in># M"
  then have "count (mset xs) x \<ge> 1" and "count M x \<ge> 1"
    by (simp_all add: Suc_le_eq)
  moreover have "count (mset xs) x + count M x \<le> 1"
    using a(1,2) by (metis count_union distinct_iff_count)
  ultimately show False by linarith
qed

end
