(* ===== verification/Mem_Pool.thy ===== *)
theory Mem_Pool
  imports Prelude
begin

text \<open>
  \<^verbatim>\<open>disagmoe/block_manager/mem_pool.py\<close>: the pool of request rows, the token and page allocators of
  the KV cache, and the Triton kernel that assigns the slot of each decoded token. Tensors are
  lists; a slot number is an \<open>int\<close> (the allocators keep them in int64 tensors and never compute
  a value above \<open>size + page_size\<close>, so their width plays no role). Counts the callers pass
  (\<open>need_size\<close>) are natural numbers. An allocation returns \<open>None\<close> where the code returns
  \<open>None\<close>, together with the state it leaves behind.
\<close>

section \<open>Tensor indexing\<close>

text \<open>
  Advanced indexing \<open>t[rows, cols]\<close> broadcasts two index vectors of equal length, or one of
  length 1 against the other; an index out of range raises.
\<close>

definition bcast :: "nat \<Rightarrow> 'a list \<Rightarrow> 'a list res" where
  "bcast n xs =
     (if length xs = n then Ok xs
      else if length xs = 1 then Ok (replicate n (hd xs))
      else Raise RuntimeError)"

definition bcast_len :: "'a list \<Rightarrow> 'b list \<Rightarrow> nat" where
  "bcast_len xs ys = (if length xs = 1 then length ys else length xs)"

definition tensor_get2 :: "'a list list \<Rightarrow> int \<Rightarrow> int \<Rightarrow> 'a res" where
  "tensor_get2 t i j = rbind (py_get t i) (\<lambda>row. py_get row j)"

definition tensor_set2 :: "'a list list \<Rightarrow> int \<Rightarrow> int \<Rightarrow> 'a \<Rightarrow> 'a list list res" where
  "tensor_set2 t i j v =
     rbind (py_get t i) (\<lambda>row. rbind (py_set row j v) (\<lambda>row'. py_set t i row'))"

definition tensor_gather2 :: "'a list list \<Rightarrow> int list \<Rightarrow> int list \<Rightarrow> 'a list res" where
  "tensor_gather2 t is js =
     (let n = bcast_len is js in
      rbind (bcast n is) (\<lambda>is'. rbind (bcast n js) (\<lambda>js'.
        mapM (\<lambda>(i, j). tensor_get2 t i j) (zip is' js'))))"

definition tensor_scatter2 :: "'a list list \<Rightarrow> int list \<Rightarrow> int list \<Rightarrow> 'a list \<Rightarrow> 'a list list res" where
  "tensor_scatter2 t is js vs =
     (let n = bcast_len is js in
      rbind (bcast n is) (\<lambda>is'. rbind (bcast n js) (\<lambda>js'. rbind (bcast n vs) (\<lambda>vs'.
        foldM (\<lambda>u (i, j, v). tensor_set2 u i j v) t (zip is' (zip js' vs'))))))"

section \<open>ReqToTokenPool\<close>

record req_to_token_pool =
  rt_size :: nat
  max_context_len :: nat
  req_to_token :: "int list list"
  free_slots :: "int list"

definition rt_init :: "nat \<Rightarrow> nat \<Rightarrow> req_to_token_pool" where
  "rt_init sz mcl =
     \<lparr> rt_size = sz, max_context_len = mcl,
       req_to_token = replicate sz (replicate mcl 0),
       free_slots = map int [0..<sz] \<rparr>"

text \<open>\<open>write((row, slice(0, n)), values)\<close>: the slice is cut at the row's end.\<close>

definition rt_write :: "req_to_token_pool \<Rightarrow> int \<Rightarrow> nat \<Rightarrow> int list \<Rightarrow> req_to_token_pool res" where
  "rt_write p r n vs =
     rbind (py_get (req_to_token p) r) (\<lambda>row.
     rbind (bcast (min n (length row)) vs) (\<lambda>vs'.
     rbind (py_set (req_to_token p) r (vs' @ drop n row)) (\<lambda>t.
     Ok (p\<lparr>req_to_token := t\<rparr>))))"

definition rt_write_loc ::
    "req_to_token_pool \<Rightarrow> int list \<Rightarrow> int list \<Rightarrow> int list \<Rightarrow> req_to_token_pool res" where
  "rt_write_loc p req_ids seq_lens vs =
     rbind (tensor_scatter2 (req_to_token p) req_ids seq_lens vs) (\<lambda>t. Ok (p\<lparr>req_to_token := t\<rparr>))"

definition rt_get_last_loc :: "req_to_token_pool \<Rightarrow> int list \<Rightarrow> int list \<Rightarrow> int list res" where
  "rt_get_last_loc p req_ids seq_lens =
     tensor_gather2 (req_to_token p) req_ids (map (\<lambda>l. l - 2) seq_lens)"

definition rt_get_latest_loc :: "req_to_token_pool \<Rightarrow> int list \<Rightarrow> int list \<Rightarrow> int list res" where
  "rt_get_latest_loc p req_ids seq_lens =
     tensor_gather2 (req_to_token p) req_ids (map (\<lambda>l. l - 1) seq_lens)"

definition rt_available_size :: "req_to_token_pool \<Rightarrow> nat" where
  "rt_available_size p = length (free_slots p)"

definition rt_get_block_table :: "req_to_token_pool \<Rightarrow> int list \<Rightarrow> nat \<Rightarrow> int list list res" where
  "rt_get_block_table p req_ids max_seq_len =
     rbind (mapM (py_get (req_to_token p)) req_ids) (\<lambda>rows. Ok (map (take max_seq_len) rows))"

definition rt_alloc :: "req_to_token_pool \<Rightarrow> nat \<Rightarrow> int list option \<times> req_to_token_pool" where
  "rt_alloc p need_size =
     (if need_size > length (free_slots p) then (None, p)
      else (Some (take need_size (free_slots p)),
            p\<lparr>free_slots := drop need_size (free_slots p)\<rparr>))"

text \<open>\<open>free\<close> takes one slot (appended) or a list of slots (extended).\<close>

definition rt_free_one :: "req_to_token_pool \<Rightarrow> int \<Rightarrow> req_to_token_pool" where
  "rt_free_one p i = p\<lparr>free_slots := free_slots p @ [i]\<rparr>"

definition rt_free :: "req_to_token_pool \<Rightarrow> int list \<Rightarrow> req_to_token_pool" where
  "rt_free p is = p\<lparr>free_slots := free_slots p @ is\<rparr>"

definition rt_clear :: "req_to_token_pool \<Rightarrow> req_to_token_pool" where
  "rt_clear p = p\<lparr>free_slots := map int [0..<rt_size p]\<rparr>"

section \<open>KVCache and MHATokenToKVPool\<close>

text \<open>
  The buffers themselves are device tensors whose contents only kernels read; what the Python
  decides is their shape and the layer range. \<open>start_layer or 0\<close> and \<open>end_layer or n - 1\<close> treat
  an explicit 0 like a missing value.
\<close>

datatype torch_dtype = Float8_e5m2 | Float8_e4m3fn | Uint8 | Bfloat16 | Float16 | Float32

record kv_cache =
  kv_size :: nat
  kv_page_size :: nat
  store_dtype :: torch_dtype
  layer_num :: int
  start_layer :: int
  end_layer :: int
  kv_cache_buffer :: "nat list list"   \<comment> \<open>the shape of each layer's buffer\<close>

definition py_or_int :: "int option \<Rightarrow> int \<Rightarrow> int" where
  "py_or_int x d = (case x of None \<Rightarrow> d | Some v \<Rightarrow> if v = 0 then d else v)"

definition kv_cache_init ::
    "nat \<Rightarrow> nat \<Rightarrow> torch_dtype \<Rightarrow> int \<Rightarrow> int option \<Rightarrow> int option \<Rightarrow> kv_cache" where
  "kv_cache_init sz ps dt ln sl el =
     \<lparr> kv_size = sz, kv_page_size = ps,
       store_dtype = (if dt \<in> {Float8_e5m2, Float8_e4m3fn} then Uint8 else dt),
       layer_num = ln, start_layer = py_or_int sl 0, end_layer = py_or_int el (ln - 1),
       kv_cache_buffer = [] \<rparr>"

definition mha_create_buffers :: "nat \<Rightarrow> nat \<Rightarrow> kv_cache \<Rightarrow> kv_cache" where
  "mha_create_buffers head_num head_dim c =
     c\<lparr>kv_cache_buffer :=
        replicate (nat (layer_num c)) [2, kv_size c + 1, kv_page_size c, head_num, head_dim]\<rparr>"

definition mha_init ::
    "nat \<Rightarrow> nat \<Rightarrow> torch_dtype \<Rightarrow> nat \<Rightarrow> nat \<Rightarrow> int \<Rightarrow> int option \<Rightarrow> int option \<Rightarrow> kv_cache" where
  "mha_init sz ps dt head_num head_dim ln sl el =
     mha_create_buffers head_num head_dim (kv_cache_init sz ps dt ln sl el)"

definition mha_get_kv_buffer :: "kv_cache \<Rightarrow> int \<Rightarrow> nat list res" where
  "mha_get_kv_buffer c layer_id = py_get (kv_cache_buffer c) layer_id"

section \<open>The allocators of KV slots\<close>

record kv_allocator =
  al_size :: nat
  page_size :: nat
  need_sort :: bool
  free_pages :: "int list"
  release_pages :: "int list"
  is_not_in_free_group :: bool
  free_group :: "int list list"
  ret_values :: int   \<comment> \<open>the kernel's result cell of the paged allocator\<close>

text \<open>\<open>free_pages\<close> and \<open>release_pages\<close> are \<open>None\<close> until the subclass calls \<open>clear\<close>.\<close>

definition base_init :: "nat \<Rightarrow> nat \<Rightarrow> bool \<Rightarrow> kv_allocator" where
  "base_init sz ps ns =
     \<lparr> al_size = sz, page_size = ps, need_sort = ns, free_pages = [], release_pages = [],
       is_not_in_free_group = True, free_group = [], ret_values = 0 \<rparr>"

definition base_available_size :: "kv_allocator \<Rightarrow> nat" where
  "base_available_size a = (length (free_pages a) + length (release_pages a)) * page_size a"

definition free_group_begin :: "kv_allocator \<Rightarrow> kv_allocator" where
  "free_group_begin a = a\<lparr>is_not_in_free_group := False, free_group := []\<rparr>"

text \<open>\<open>self.free\<close> is the subclass's method; the group list is left as it is.\<close>

definition free_group_end :: "(kv_allocator \<Rightarrow> int list \<Rightarrow> kv_allocator) \<Rightarrow> kv_allocator \<Rightarrow> kv_allocator" where
  "free_group_end self_free a =
     (let a' = a\<lparr>is_not_in_free_group := True\<rparr> in
      if free_group a' \<noteq> [] then self_free a' (concat (free_group a')) else a')"

definition merge_and_sort_free :: "kv_allocator \<Rightarrow> kv_allocator" where
  "merge_and_sort_free a =
     (if length (release_pages a) > 0
      then a\<lparr>free_pages := sort (free_pages a @ release_pages a), release_pages := []\<rparr>
      else a)"

subsection \<open>TokenToKVPoolAllocator\<close>

definition tok_clear :: "kv_allocator \<Rightarrow> kv_allocator" where
  "tok_clear a =
     a\<lparr>free_pages := map int [1..<al_size a + 1], is_not_in_free_group := True,
       free_group := [], release_pages := []\<rparr>"

definition tok_init :: "nat \<Rightarrow> bool \<Rightarrow> kv_allocator" where
  "tok_init sz ns = tok_clear (base_init sz 1 ns)"

definition tok_available_size :: "kv_allocator \<Rightarrow> nat" where
  "tok_available_size a = length (free_pages a) + length (release_pages a)"

definition tok_alloc :: "kv_allocator \<Rightarrow> nat \<Rightarrow> int list option \<times> kv_allocator" where
  "tok_alloc a need_size =
     (let a' = (if need_sort a \<and> need_size > length (free_pages a) then merge_and_sort_free a else a)
      in if need_size > length (free_pages a') then (None, a')
         else (Some (take need_size (free_pages a')),
               a'\<lparr>free_pages := drop need_size (free_pages a')\<rparr>))"

definition tok_free :: "kv_allocator \<Rightarrow> int list \<Rightarrow> kv_allocator" where
  "tok_free a free_index =
     (if free_index = [] then a
      else if is_not_in_free_group a then
        (if need_sort a then a\<lparr>release_pages := release_pages a @ free_index\<rparr>
         else a\<lparr>free_pages := free_pages a @ free_index\<rparr>)
      else a\<lparr>free_group := free_group a @ [free_index]\<rparr>)"

subsection \<open>The decode kernel\<close>

text \<open>
  Program \<open>pid\<close> of \<open>alloc_decode_kernel\<close>. The block load is masked by \<open>load_offset \<le> pid\<close>: the
  lanes above hold an unspecified value, \<open>junk\<close>. A load of \<open>free_page_ptr\<close> past the end of the
  tensor is unspecified as well. The result is the slot stored in \<open>out_indices[pid]\<close> and the
  number of new pages, which the last program stores in \<open>ret_values\<close>.
\<close>

definition num_pages_for :: "int \<Rightarrow> int \<Rightarrow> int" where
  "num_pages_for ps n = (n + ps - 1) div ps"

definition kernel_new_pages ::
    "(nat \<Rightarrow> int) \<Rightarrow> int \<Rightarrow> nat \<Rightarrow> int list \<Rightarrow> nat \<Rightarrow> int" where
  "kernel_new_pages junk ps bs_upper seq_lens pid =
     (\<Sum>off \<leftarrow> [0..<bs_upper].
        let sl = (if off \<le> pid then seq_lens ! off else junk off);
            pre = (if off \<le> pid then sl - 1 else sl)
        in num_pages_for ps sl - num_pages_for ps pre)"

definition alloc_decode_kernel ::
    "(nat \<Rightarrow> int) \<Rightarrow> int \<Rightarrow> nat \<Rightarrow> int list \<Rightarrow> int list \<Rightarrow> int list \<Rightarrow> nat \<Rightarrow> int" where
  "alloc_decode_kernel junk ps bs_upper seq_lens last_loc free_page pid =
     (let seq_len = seq_lens ! pid;
          pre_len = seq_len - 1;
          own = num_pages_for ps seq_len - num_pages_for ps pre_len;
          total = kernel_new_pages junk ps bs_upper seq_lens pid;
          start = total - own
      in if own = 0 then last_loc ! pid + 1
         else (if 0 \<le> start \<and> start < int (length free_page) then free_page ! nat start
               else junk (nat start)) * ps)"

subsection \<open>PagedTokenToKVPoolAllocator\<close>

definition paged_clear :: "kv_allocator \<Rightarrow> kv_allocator" where
  "paged_clear a =
     a\<lparr>free_pages := map int [1..<al_size a div page_size a + 1], is_not_in_free_group := True,
       free_group := [], release_pages := []\<rparr>"

definition paged_init :: "nat \<Rightarrow> nat \<Rightarrow> bool \<Rightarrow> kv_allocator" where
  "paged_init sz ps ns = paged_clear (base_init sz ps ns)"

text \<open>\<open>(pages[:, None] * page_size + arange(page_size)).reshape(-1)\<close>\<close>

definition expand_pages :: "nat \<Rightarrow> int list \<Rightarrow> int list" where
  "expand_pages ps pages = concat (map (\<lambda>p. map (\<lambda>j. p * int ps + int j) [0..<ps]) pages)"

definition paged_alloc :: "kv_allocator \<Rightarrow> nat \<Rightarrow> int list option \<times> kv_allocator" where
  "paged_alloc a need_size =
     (let num_pages = need_size div page_size a;
          a' = (if need_sort a \<and> num_pages > length (free_pages a) then merge_and_sort_free a else a)
      in if num_pages > length (free_pages a') then (None, a')
         else (Some (expand_pages (page_size a) (take num_pages (free_pages a'))),
               a'\<lparr>free_pages := drop num_pages (free_pages a')\<rparr>))"

text \<open>\<open>1 << (n - 1).bit_length()\<close>, 1 for \<open>n \<le> 0\<close>: the least power of two that is at least \<open>n\<close>.\<close>

fun bit_length :: "nat \<Rightarrow> nat" where
  "bit_length n = (if n = 0 then 0 else Suc (bit_length (n div 2)))"

declare bit_length.simps [simp del]

definition next_power_of_2 :: "int \<Rightarrow> int" where
  "next_power_of_2 n = (if n > 0 then 2 ^ bit_length (nat (n - 1)) else 1)"

text \<open>An empty batch launches no program, so the result cell keeps its old value.\<close>

definition paged_alloc_decode ::
    "(nat \<Rightarrow> int) \<Rightarrow> kv_allocator \<Rightarrow> int list \<Rightarrow> int list \<Rightarrow> int list option \<times> kv_allocator" where
  "paged_alloc_decode junk a seq_lens last_loc =
     (let bs = length seq_lens;
          a' = (if need_sort a \<and> bs > length (free_pages a) then merge_and_sort_free a else a);
          ps = int (page_size a);
          up = nat (next_power_of_2 (int bs));
          out_indices = map (alloc_decode_kernel junk ps up seq_lens last_loc (free_pages a')) [0..<bs];
          num_new_pages = (if bs = 0 then ret_values a'
                           else kernel_new_pages junk ps up seq_lens (bs - 1));
          a'' = a'\<lparr>ret_values := num_new_pages\<rparr>
      in if num_new_pages > int (length (free_pages a')) then (None, a'')
         else (Some out_indices, a''\<lparr>free_pages := drop (nat num_new_pages) (free_pages a')\<rparr>))"

text \<open>\<open>torch.unique\<close> returns the sorted distinct values.\<close>

definition torch_unique :: "int list \<Rightarrow> int list" where
  "torch_unique xs = remdups (sort xs)"

definition paged_free :: "kv_allocator \<Rightarrow> int list \<Rightarrow> kv_allocator" where
  "paged_free a free_index =
     (if free_index = [] then a
      else if is_not_in_free_group a then
        (let pages = torch_unique (map (\<lambda>i. i div int (page_size a)) free_index) in
         if need_sort a then a\<lparr>release_pages := pages @ release_pages a\<rparr>
         else a\<lparr>free_pages := pages @ free_pages a\<rparr>)
      else a\<lparr>free_group := free_group a @ [free_index]\<rparr>)"

section \<open>A client of a pool\<close>

text \<open>
  A client allocates blocks and gives back blocks it holds. Its state is the pool's state and the
  list of the blocks held; \<open>Give i\<close> returns the \<open>i\<close>-th held block.
\<close>

datatype pool_op = Take nat | Give nat

fun pool_step ::
    "('s \<Rightarrow> nat \<Rightarrow> 'a list option \<times> 's) \<Rightarrow> ('s \<Rightarrow> 'a list \<Rightarrow> 's) \<Rightarrow> 's \<times> 'a list list \<Rightarrow> pool_op \<Rightarrow>
     's \<times> 'a list list" where
  "pool_step alloc free (s, held) (Take n) =
     (case alloc s n of (Some xs, s') \<Rightarrow> (s', xs # held) | (None, s') \<Rightarrow> (s', held))"
| "pool_step alloc free (s, held) (Give i) =
     (if i < length held then (free s (held ! i), take i held @ drop (Suc i) held) else (s, held))"

definition pool_run ::
    "('s \<Rightarrow> nat \<Rightarrow> 'a list option \<times> 's) \<Rightarrow> ('s \<Rightarrow> 'a list \<Rightarrow> 's) \<Rightarrow> 's \<Rightarrow> pool_op list \<Rightarrow>
     's \<times> 'a list list" where
  "pool_run alloc free s ops = foldl (pool_step alloc free) (s, []) ops"

lemma mset_concat_remove_nth:
  "i < length held \<Longrightarrow>
   mset (concat (take i held @ drop (Suc i) held)) + mset (held ! i) = mset (concat held)"
proof -
  assume "i < length held"
  then have "held = take i held @ held ! i # drop (Suc i) held"
    by (rule id_take_nth_drop)
  then have "mset (concat held) = mset (concat (take i held @ held ! i # drop (Suc i) held))"
    by simp
  then show ?thesis by simp
qed

lemma set_remove_nth_subset: "set (take i xs @ drop (Suc i) xs) \<subseteq> set xs"
  by (auto dest: in_set_takeD in_set_dropD)

text \<open>
  What a pool promises: an allocation moves a block out of what is available, a refused one
  changes nothing that is available, and giving back a block whose slots are not available makes
  them available again.
\<close>

locale slot_pool =
  fixes alloc :: "'s \<Rightarrow> nat \<Rightarrow> 'a list option \<times> 's"
    and free :: "'s \<Rightarrow> 'a list \<Rightarrow> 's"
    and avail :: "'s \<Rightarrow> 'a multiset"
    and is_block :: "'s \<Rightarrow> 'a list \<Rightarrow> bool"
    and inv :: "'s \<Rightarrow> bool"
  assumes alloc_Some: "inv s \<Longrightarrow> alloc s n = (Some xs, s') \<Longrightarrow>
      avail s = mset xs + avail s' \<and> is_block s' xs \<and> inv s'"
    and alloc_None: "inv s \<Longrightarrow> alloc s n = (None, s') \<Longrightarrow> avail s' = avail s \<and> inv s'"
    and free_block: "inv s \<Longrightarrow> is_block s xs \<Longrightarrow> set xs \<inter> set_mset (avail s) = {} \<Longrightarrow>
      avail (free s xs) = mset xs + avail s \<and> inv (free s xs)"
    and block_alloc: "is_block s xs \<Longrightarrow> is_block (snd (alloc s n)) xs"
    and block_free: "is_block s xs \<Longrightarrow> is_block (free s ys) xs"
begin

definition client_inv :: "'a list \<Rightarrow> 's \<times> 'a list list \<Rightarrow> bool" where
  "client_inv u c = (case c of (s, held) \<Rightarrow>
     inv s \<and> (\<forall>xs \<in> set held. is_block s xs) \<and> mset (concat held) + avail s = mset u)"

lemma client_inv_disjoint:
  assumes "client_inv u (s, held)" and "distinct u" and "xs \<in> set held"
  shows "set xs \<inter> set_mset (avail s) = {}"
proof -
  have "mset (concat held) + avail s = mset u"
    using assms(1) by (simp add: client_inv_def)
  from disjoint_of_mset_add[OF this assms(2)] assms(3) show ?thesis by auto
qed

lemma client_step:
  assumes "client_inv u (s, held)" and "distinct u"
  shows "client_inv u (pool_step alloc free (s, held) opn)"
proof (cases opn)
  case (Take n)
  show ?thesis
  proof (cases "alloc s n")
    case (Pair r s')
    have blk: "is_block s' xs" if "xs \<in> set held" for xs
      using that assms(1) block_alloc[of s xs n] Pair by (auto simp: client_inv_def)
    show ?thesis
    proof (cases r)
      case None
      with Pair have "alloc s n = (None, s')" by simp
      with alloc_None[OF _ this] assms(1) blk show ?thesis
        by (simp add: client_inv_def Take)
    next
      case (Some xs)
      with Pair have a: "alloc s n = (Some xs, s')" by simp
      have "avail s = mset xs + avail s' \<and> is_block s' xs \<and> inv s'"
        using alloc_Some[OF _ a] assms(1) by (simp add: client_inv_def)
      with assms(1) blk show ?thesis
        by (simp add: client_inv_def Take a ac_simps)
    qed
  qed
next
  case (Give i)
  show ?thesis
  proof (cases "i < length held")
    case True
    then have mem: "held ! i \<in> set held" by simp
    have "avail (free s (held ! i)) = mset (held ! i) + avail s \<and> inv (free s (held ! i))"
      using client_inv_disjoint[OF assms mem] assms(1) mem
      by (intro free_block) (auto simp: client_inv_def)
    moreover have "is_block (free s (held ! i)) xs" if "xs \<in> set (take i held @ drop (Suc i) held)" for xs
      using that set_remove_nth_subset[of i held] assms(1) block_free
      by (auto simp: client_inv_def)
    ultimately show ?thesis
      using mset_concat_remove_nth[OF True] assms(1) True
      by (simp add: client_inv_def Give ac_simps)
  next
    case False
    with assms(1) show ?thesis by (simp add: Give)
  qed
qed

lemma client_run:
  assumes "client_inv u c" and "distinct u"
  shows "client_inv u (foldl (pool_step alloc free) c ops)"
  using assms(1)
proof (induction ops arbitrary: c)
  case Nil
  then show ?case by simp
next
  case (Cons x ops)
  have "client_inv u (pool_step alloc free c x)"
    by (metis Cons.prems assms(2) client_step surj_pair)
  then show ?case using Cons.IH by simp
qed

theorem conservation:
  assumes "inv s" and "avail s = mset u" and "distinct u"
    and "pool_run alloc free s ops = (s', held)"
  shows "mset (concat held) + avail s' = mset u \<and> distinct (concat held)
    \<and> set (concat held) \<inter> set_mset (avail s') = {} \<and> inv s'"
proof -
  have "client_inv u (s, [])"
    using assms(1,2) by (simp add: client_inv_def)
  then have c: "client_inv u (s', held)"
    using client_run[OF _ assms(3), of "(s, [])" ops] assms(4) by (simp add: pool_run_def)
  then have eq: "mset (concat held) + avail s' = mset u" and "inv s'"
    by (simp_all add: client_inv_def)
  moreover have "distinct (concat held)"
    by (rule distinct_of_mset_add[OF eq assms(3)])
  moreover have "set (concat held) \<inter> set_mset (avail s') = {}"
    using client_inv_disjoint[OF c assms(3)] by fastforce
  ultimately show ?thesis by simp
qed

end

section \<open>The three pools keep the contract\<close>

interpretation rt: slot_pool rt_alloc rt_free "\<lambda>p. mset (free_slots p)" "\<lambda>_ _. True" "\<lambda>_. True"
  by unfold_locales (auto simp: rt_alloc_def rt_free_def mset_take_drop split: if_splits)

definition tok_wf :: "kv_allocator \<Rightarrow> bool" where
  "tok_wf a \<longleftrightarrow> is_not_in_free_group a \<and> (\<not> need_sort a \<longrightarrow> release_pages a = [])"

definition tok_avail :: "kv_allocator \<Rightarrow> int multiset" where
  "tok_avail a = mset (free_pages a) + mset (release_pages a)"

lemma merge_and_sort_free_simps [simp]:
  "mset (free_pages (merge_and_sort_free a)) = mset (free_pages a) + mset (release_pages a)"
  "release_pages (merge_and_sort_free a) = []"
  "need_sort (merge_and_sort_free a) = need_sort a"
  "page_size (merge_and_sort_free a) = page_size a"
  "al_size (merge_and_sort_free a) = al_size a"
  "is_not_in_free_group (merge_and_sort_free a) = is_not_in_free_group a"
  "length (free_pages (merge_and_sort_free a)) = length (free_pages a) + length (release_pages a)"
  by (auto simp: merge_and_sort_free_def)

interpretation tok: slot_pool tok_alloc tok_free tok_avail "\<lambda>_ _. True" tok_wf
proof unfold_locales
  fix s n xs s'
  assume "tok_wf s" and "tok_alloc s n = (Some xs, s')"
  then show "tok_avail s = mset xs + tok_avail s' \<and> True \<and> tok_wf s'"
    by (auto simp: tok_alloc_def tok_wf_def tok_avail_def Let_def mset_take_drop
        add.assoc[symmetric] split: if_splits)
next
  fix s n s'
  assume "tok_wf s" and "tok_alloc s n = (None, s')"
  then show "tok_avail s' = tok_avail s \<and> tok_wf s'"
    by (auto simp: tok_alloc_def tok_wf_def tok_avail_def Let_def split: if_splits)
next
  fix s xs
  assume "tok_wf s"
  then show "tok_avail (tok_free s xs) = mset xs + tok_avail s \<and> tok_wf (tok_free s xs)"
    by (auto simp: tok_free_def tok_wf_def tok_avail_def)
qed auto

subsection \<open>Pages\<close>

lemma expand_pages_append [simp]: "expand_pages ps (xs @ ys) = expand_pages ps xs @ expand_pages ps ys"
  by (simp add: expand_pages_def)

lemma length_expand_pages [simp]: "length (expand_pages ps xs) = ps * length xs"
  by (induction xs) (auto simp: expand_pages_def)

lemma mset_expand_pages:
  "mset (expand_pages ps xs) = (\<Sum>p \<in># mset xs. mset (expand_pages ps [p]))"
  by (induction xs) (auto simp: expand_pages_def)

lemma expand_pages_cong_mset: "mset xs = mset ys \<Longrightarrow> mset (expand_pages ps xs) = mset (expand_pages ps ys)"
  by (simp add: mset_expand_pages[of ps xs] mset_expand_pages[of ps ys])

lemma in_expand_pages: "0 < ps \<Longrightarrow> x \<in> set (expand_pages ps xs) \<longleftrightarrow> x div int ps \<in> set xs"
proof
  assume "0 < ps" and "x \<in> set (expand_pages ps xs)"
  then show "x div int ps \<in> set xs" by (auto simp: expand_pages_def)
next
  assume ps: "0 < ps" and "x div int ps \<in> set xs"
  moreover have "nat (x mod int ps) < ps"
    using ps by (metis nat_less_iff of_nat_0_less_iff pos_mod_bound pos_mod_sign)
  moreover have "x = x div int ps * int ps + int (nat (x mod int ps))"
    using ps by simp
  ultimately show "x \<in> set (expand_pages ps xs)"
    by (auto simp: expand_pages_def intro!: bexI[of _ "x div int ps"] image_eqI[of _ _ "nat (x mod int ps)"])
qed

lemma expand_pages_Nil_iff: "0 < ps \<Longrightarrow> expand_pages ps xs = [] \<longleftrightarrow> xs = []"
  by (metis length_0_conv length_expand_pages mult_is_0 neq0_conv)

lemma distinct_expand_pages: "distinct xs \<Longrightarrow> distinct (expand_pages ps xs)"
proof (cases "ps = 0")
  case True
  then have "expand_pages ps xs = []"
    by (metis length_0_conv length_expand_pages mult_0)
  then show ?thesis by simp
next
  case False
  assume "distinct xs"
  then show ?thesis
  proof (induction xs)
    case (Cons p xs)
    have "distinct (expand_pages ps [p])"
      by (auto simp: expand_pages_def distinct_map inj_on_def)
    moreover have "set (expand_pages ps [p]) \<inter> set (expand_pages ps xs) = {}"
      using Cons.prems False by (auto simp: in_expand_pages)
    ultimately show ?case
      using Cons expand_pages_append[of ps "[p]" xs] by auto
  qed (simp add: expand_pages_def)
qed

lemma torch_unique_spec: "distinct (torch_unique xs)" "sorted (torch_unique xs)" "set (torch_unique xs) = set xs"
  by (simp_all add: torch_unique_def sorted_remdups)

lemma torch_unique_expand:
  assumes "0 < ps" and "distinct pages"
  shows "mset (torch_unique (map (\<lambda>i. i div int ps) (expand_pages ps pages))) = mset pages"
proof -
  have "set (map (\<lambda>i. i div int ps) (expand_pages ps pages)) = set pages"
    using assms(1) by (force simp: in_expand_pages expand_pages_def)
  then show ?thesis
    using torch_unique_spec assms(2) by (metis set_eq_iff_mset_eq_distinct)
qed

definition paged_wf :: "kv_allocator \<Rightarrow> bool" where
  "paged_wf a \<longleftrightarrow> 0 < page_size a \<and> is_not_in_free_group a
     \<and> (\<not> need_sort a \<longrightarrow> release_pages a = []) \<and> distinct (free_pages a @ release_pages a)"

definition paged_avail :: "kv_allocator \<Rightarrow> int multiset" where
  "paged_avail a = mset (expand_pages (page_size a) (free_pages a @ release_pages a))"

definition paged_block :: "kv_allocator \<Rightarrow> int list \<Rightarrow> bool" where
  "paged_block a xs \<longleftrightarrow> (\<exists>pages. distinct pages \<and> xs = expand_pages (page_size a) pages)"

lemma paged_merge: 
  assumes "paged_wf a"
  shows "paged_wf (merge_and_sort_free a)" and "paged_avail (merge_and_sort_free a) = paged_avail a"
proof -
  have "mset (free_pages (merge_and_sort_free a)) = mset (free_pages a @ release_pages a)" by simp
  then show "paged_wf (merge_and_sort_free a)"
    using assms mset_eq_imp_distinct_iff by (fastforce simp: paged_wf_def)
  show "paged_avail (merge_and_sort_free a) = paged_avail a"
    unfolding paged_avail_def by (subst expand_pages_cong_mset) simp_all
qed

lemma paged_alloc_core:
  assumes "paged_wf a" and "n \<le> length (free_pages a)"
  defines "a' \<equiv> a\<lparr>free_pages := drop n (free_pages a)\<rparr>"
  shows "paged_avail a = mset (expand_pages (page_size a) (take n (free_pages a))) + paged_avail a'"
    and "paged_block a' (expand_pages (page_size a) (take n (free_pages a)))" and "paged_wf a'"
proof -
  have "free_pages a = take n (free_pages a) @ drop n (free_pages a)" by simp
  then have "expand_pages (page_size a) (free_pages a)
      = expand_pages (page_size a) (take n (free_pages a)) @ expand_pages (page_size a) (drop n (free_pages a))"
    by (metis expand_pages_append)
  then show "paged_avail a = mset (expand_pages (page_size a) (take n (free_pages a))) + paged_avail a'"
    by (simp add: paged_avail_def a'_def)
  have "distinct (take n (free_pages a))"
    using assms(1) by (simp add: paged_wf_def)
  then show "paged_block a' (expand_pages (page_size a) (take n (free_pages a)))"
    by (auto simp: paged_block_def a'_def)
  show "paged_wf a'"
    using assms(1) by (auto simp: paged_wf_def a'_def dest: in_set_dropD)
qed

interpretation paged: slot_pool paged_alloc paged_free paged_avail paged_block paged_wf
proof unfold_locales
  fix s n xs s'
  assume wf: "paged_wf s" and al: "paged_alloc s n = (Some xs, s')"
  let ?n = "n div page_size s"
  define t where "t = (if need_sort s \<and> ?n > length (free_pages s) then merge_and_sort_free s else s)"
  have t: "paged_wf t" "paged_avail t = paged_avail s" "page_size t = page_size s"
    using wf paged_merge by (auto simp: t_def)
  have "?n \<le> length (free_pages t)" and "xs = expand_pages (page_size t) (take ?n (free_pages t))"
    and "s' = t\<lparr>free_pages := drop ?n (free_pages t)\<rparr>"
    using al t(3) by (auto simp: paged_alloc_def Let_def t_def split: if_splits)
  with paged_alloc_core[OF t(1)] t(2)
  show "paged_avail s = mset xs + paged_avail s' \<and> paged_block s' xs \<and> paged_wf s'"
    by metis
next
  fix s n s'
  assume "paged_wf s" and "paged_alloc s n = (None, s')"
  then show "paged_avail s' = paged_avail s \<and> paged_wf s'"
    using paged_merge by (auto simp: paged_alloc_def Let_def split: if_splits)
next
  fix s xs
  assume wf: "paged_wf s" and blk: "paged_block s xs" and dis: "set xs \<inter> set_mset (paged_avail s) = {}"
  from blk obtain pages where d: "distinct pages" and xs: "xs = expand_pages (page_size s) pages"
    by (auto simp: paged_block_def)
  let ?u = "torch_unique (map (\<lambda>i. i div int (page_size s)) xs)"
  have ps: "0 < page_size s" using wf by (simp add: paged_wf_def)
  have u: "mset ?u = mset pages" unfolding xs by (rule torch_unique_expand[OF ps d])
  have "set pages \<inter> set (free_pages s @ release_pages s) = {}"
  proof -
    have "p * int (page_size s) \<in> set (expand_pages (page_size s) qs)" if "p \<in> set qs" for p qs
      using that ps by (simp add: in_expand_pages)
    then have "p * int (page_size s) \<in> set xs \<inter> set_mset (paged_avail s)"
      if "p \<in> set pages" and "p \<in> set (free_pages s @ release_pages s)" for p
      using that unfolding xs paged_avail_def by (metis IntI set_mset_mset)
    then show ?thesis using dis by blast
  qed
  moreover have "set ?u = set pages" using u by (metis set_mset_mset)
  ultimately have "set ?u \<inter> set (free_pages s @ release_pages s) = {}" by simp
  moreover have "mset (expand_pages (page_size s) ?u) = mset xs"
    using expand_pages_cong_mset[OF u] xs by simp
  ultimately show "paged_avail (paged_free s xs) = mset xs + paged_avail s \<and> paged_wf (paged_free s xs)"
    using wf torch_unique_spec(1)
    by (auto simp: paged_free_def paged_avail_def paged_wf_def Let_def)
qed (auto simp: paged_block_def paged_alloc_def paged_free_def Let_def)

section \<open>The decode kernel against a sequential reference\<close>

text \<open>
  The reference serves the requests one after the other: a request whose previous token filled
  its page takes the next free page, any other continues in its page. \<open>None\<close> when the free pages
  run out.
\<close>

fun decode_ref :: "int \<Rightarrow> int list \<Rightarrow> (int \<times> int) list \<Rightarrow> (int list \<times> int list) option" where
  "decode_ref ps free [] = Some ([], free)"
| "decode_ref ps free ((sl, ll) # rest) =
     (if (sl - 1) mod ps = 0
      then (case free of [] \<Rightarrow> None
            | p # fr \<Rightarrow> map_option (\<lambda>(out, fr'). (p * ps # out, fr')) (decode_ref ps fr rest))
      else map_option (\<lambda>(out, fr'). ((ll + 1) # out, fr')) (decode_ref ps free rest))"

definition opens_page :: "int \<Rightarrow> int \<Rightarrow> bool" where
  "opens_page ps sl \<longleftrightarrow> (sl - 1) mod ps = 0"

definition new_pages_upto :: "int \<Rightarrow> int list \<Rightarrow> nat \<Rightarrow> nat" where
  "new_pages_upto ps sls k = length (filter (opens_page ps) (take k sls))"

lemma num_pages_step:
  assumes "0 < ps"
  shows "num_pages_for ps n - num_pages_for ps (n - 1) = (if opens_page ps n then 1 else 0)"
proof -
  define q r where "q = (n - 1) div ps" and "r = (n - 1) mod ps"
  have n: "n - 1 = q * ps + r" and r: "0 \<le> r" "r < ps"
    using assms by (simp_all add: q_def r_def)
  have eq: "n + ps - 1 = r + (q + 1) * ps" "n - 1 + ps - 1 = (r + ps - 1) + q * ps"
    using n by (simp_all add: algebra_simps)
  have a: "num_pages_for ps n = q + 1"
    unfolding num_pages_for_def eq(1) using assms r by (subst div_mult_self1) auto
  have b: "num_pages_for ps (n - 1) = q + (r + ps - 1) div ps"
    unfolding num_pages_for_def eq(2) using assms by (subst div_mult_self1) auto
  have "(r + ps - 1) div ps = (if r = 0 then 0 else 1)"
  proof (cases "r = 0")
    case False
    have "r + ps - 1 = (r - 1) + 1 * ps" by simp
    also have "\<dots> div ps = 1 + (r - 1) div ps"
      using assms by (subst div_mult_self1) auto
    finally show ?thesis using False r by simp
  qed (use assms in simp)
  then show ?thesis using a b by (simp add: opens_page_def r_def)
qed

lemma sum_list_indicator: "(\<Sum>x \<leftarrow> xs. if P x then 1 else (0::int)) = int (length (filter P xs))"
  by (induction xs) auto

lemma kernel_new_pages_eq:
  assumes ps: "0 < ps" and pid: "pid < length sls" and up: "length sls \<le> up"
  shows "kernel_new_pages junk ps up sls pid = int (new_pages_upto ps sls (Suc pid))"
proof -
  let ?lane = "\<lambda>off. if off \<le> pid \<and> opens_page ps (sls ! off) then 1 else (0::int)"
  have "(let sl = (if off \<le> pid then sls ! off else junk off); pre = (if off \<le> pid then sl - 1 else sl)
         in num_pages_for ps sl - num_pages_for ps pre) = ?lane off" for off
    using num_pages_step[OF ps, of "sls ! off"] by (cases "off \<le> pid") simp_all
  then have "kernel_new_pages junk ps up sls pid = (\<Sum>off \<leftarrow> [0..<up]. ?lane off)"
    unfolding kernel_new_pages_def by (simp only:)
  also have "\<dots> = int (length (filter (\<lambda>off. off \<le> pid \<and> opens_page ps (sls ! off)) [0..<up]))"
    by (rule sum_list_indicator)
  also have "filter (\<lambda>off. off \<le> pid \<and> opens_page ps (sls ! off)) [0..<up]
      = filter (\<lambda>off. opens_page ps (sls ! off)) [0..<Suc pid]"
  proof -
    have "[0..<up] = [0..<Suc pid] @ [Suc pid..<up]"
      using pid up upt_add_eq_append[of 0 "Suc pid" "up - Suc pid"] by simp
    moreover have "filter (\<lambda>off. off \<le> pid \<and> opens_page ps (sls ! off)) [Suc pid..<up] = []"
      by (simp add: filter_empty_conv)
    moreover have "filter (\<lambda>off. off \<le> pid \<and> opens_page ps (sls ! off)) [0..<Suc pid]
        = filter (\<lambda>off. opens_page ps (sls ! off)) [0..<Suc pid]"
      by (rule filter_cong) auto
    ultimately show ?thesis by simp
  qed
  also have "length (filter (\<lambda>off. opens_page ps (sls ! off)) [0..<Suc pid])
      = length (filter (opens_page ps) (map ((!) sls) [0..<Suc pid]))"
    by (simp add: filter_map comp_def del: upt_Suc)
  also have "map ((!) sls) [0..<Suc pid] = take (Suc pid) sls"
    using pid by (simp add: take_map[symmetric] map_nth take_upt nth_map_upt list_eq_iff_nth_eq del: upt_Suc)
  finally show ?thesis by (simp add: new_pages_upto_def)
qed

lemma decode_ref_eq:
  "decode_ref ps free (zip sls lls) =
     (let n = new_pages_upto ps sls (length sls) in
      if n \<le> length free
      then Some (map (\<lambda>i. if opens_page ps (sls ! i) then free ! new_pages_upto ps sls i * ps
                          else lls ! i + 1) [0..<length sls], drop n free)
      else None)"
  if "length lls = length sls"
  using that
proof (induction sls lls arbitrary: free rule: list_induct2')
  case (4 sl sls ll lls)
  have len: "length lls = length sls" using 4(2) by simp
  have shift: "[0..<length (sl # sls)] = 0 # map Suc [0..<length sls]"
    by (simp add: map_Suc_upt upt_conv_Cons del: upt_Suc)
  show ?case
  proof (cases "opens_page ps sl")
    case True
    then show ?thesis
      unfolding shift using 4(1)[OF len]
      by (cases free) (auto simp: opens_page_def new_pages_upto_def Let_def)
  next
    case False
    then show ?thesis
      unfolding shift using 4(1)[OF len]
      by (auto simp: opens_page_def new_pages_upto_def Let_def)
  qed
qed (auto simp: new_pages_upto_def)

lemma less_two_power_bit_length: "n < 2 ^ bit_length n"
proof (induction n rule: bit_length.induct)
  case (1 n)
  then show ?case
    by (cases "n = 0") (auto simp: bit_length.simps[of n])
qed

lemma two_power_bit_length_le: "0 < n \<Longrightarrow> 2 ^ bit_length n \<le> 2 * n"
proof (induction n rule: bit_length.induct)
  case (1 n)
  show ?case
  proof (cases "n div 2 = 0")
    case True
    with 1(2) have "n = 1" by simp
    then show ?thesis by (simp add: bit_length.simps)
  next
    case False
    then have "2 ^ bit_length (n div 2) \<le> 2 * (n div 2)" using 1 by simp
    then show ?thesis using 1(2) by (simp add: bit_length.simps[of n])
  qed
qed

lemma le_next_power_of_2: "n \<le> next_power_of_2 n"
proof (cases "0 < n")
  case True
  have "nat (n - 1) < 2 ^ bit_length (nat (n - 1))" by (rule less_two_power_bit_length)
  then have "int (nat (n - 1)) < 2 ^ bit_length (nat (n - 1))"
    by (metis of_nat_less_iff of_nat_numeral of_nat_power)
  then show ?thesis using True by (simp add: next_power_of_2_def)
qed (simp add: next_power_of_2_def)

lemma alloc_decode_kernel_eq:
  assumes "0 < ps" and "pid < length sls" and "length sls \<le> up"
    and "new_pages_upto ps sls (length sls) \<le> length free"
  shows "alloc_decode_kernel junk ps up sls lls free pid =
    (if opens_page ps (sls ! pid) then free ! new_pages_upto ps sls pid * ps else lls ! pid + 1)"
proof -
  have own: "num_pages_for ps (sls ! pid) - num_pages_for ps (sls ! pid - 1)
      = (if opens_page ps (sls ! pid) then 1 else 0)"
    by (rule num_pages_step[OF assms(1)])
  have suc: "new_pages_upto ps sls (Suc pid)
      = new_pages_upto ps sls pid + (if opens_page ps (sls ! pid) then 1 else 0)"
    using assms(2) by (simp add: new_pages_upto_def take_Suc_conv_app_nth)
  have "new_pages_upto ps sls (Suc pid) \<le> new_pages_upto ps sls (length sls)"
  proof -
    have "take (length sls) sls = take (Suc pid) sls @ drop (Suc pid) sls" by simp
    then show ?thesis by (simp only: new_pages_upto_def filter_append length_append)
  qed
  with assms(4) suc have "opens_page ps (sls ! pid) \<Longrightarrow> new_pages_upto ps sls pid < length free"
    by simp
  then show ?thesis
    unfolding alloc_decode_kernel_def Let_def own kernel_new_pages_eq[OF assms(1-3)] suc
    by simp
qed

lemma paged_alloc_decode_ref:
  fixes a sls
  defines "t \<equiv> (if need_sort a \<and> length sls > length (free_pages a) then merge_and_sort_free a else a)"
  assumes "0 < page_size a" and "sls \<noteq> []" and "length lls = length sls"
  shows "paged_alloc_decode junk a sls lls =
    (let n = int (new_pages_upto (int (page_size a)) sls (length sls)); t' = t\<lparr>ret_values := n\<rparr> in
     case decode_ref (int (page_size a)) (free_pages t) (zip sls lls) of
       None \<Rightarrow> (None, t')
     | Some (out, rest) \<Rightarrow> (Some out, t'\<lparr>free_pages := rest\<rparr>))"
proof -
  let ?ps = "int (page_size a)"
  let ?up = "nat (next_power_of_2 (int (length sls)))"
  have ps: "0 < ?ps" using assms(2) by simp
  have up: "length sls \<le> ?up"
    using le_next_power_of_2[of "int (length sls)"] by linarith
  have "length sls - 1 < length sls" using assms(3) by (cases sls) auto
  then have n: "kernel_new_pages junk ?ps ?up sls (length sls - 1) = int (new_pages_upto ?ps sls (length sls))"
    using kernel_new_pages_eq[OF ps _ up, of "length sls - 1"] assms(3) by simp
  have out: "map (alloc_decode_kernel junk ?ps ?up sls lls (free_pages t)) [0..<length sls]
      = map (\<lambda>i. if opens_page ?ps (sls ! i) then free_pages t ! new_pages_upto ?ps sls i * ?ps
                 else lls ! i + 1) [0..<length sls]"
    if "new_pages_upto ?ps sls (length sls) \<le> length (free_pages t)"
    using alloc_decode_kernel_eq[OF ps _ up that] by (intro map_cong[OF refl]) simp
  have unfolded: "paged_alloc_decode junk a sls lls =
     (let k = new_pages_upto ?ps sls (length sls) in
      if k > length (free_pages t) then (None, t\<lparr>ret_values := int k\<rparr>)
      else (Some (map (alloc_decode_kernel junk ?ps ?up sls lls (free_pages t)) [0..<length sls]),
            t\<lparr>ret_values := int k, free_pages := drop k (free_pages t)\<rparr>))"
    unfolding paged_alloc_decode_def Let_def t_def[symmetric] n using assms(3) by simp
  show ?thesis
  proof (cases "new_pages_upto ?ps sls (length sls) \<le> length (free_pages t)")
    case True
    then show ?thesis unfolding unfolded decode_ref_eq[OF assms(4)] Let_def out[OF True] by simp
  next
    case False
    then show ?thesis unfolding unfolded decode_ref_eq[OF assms(4)] Let_def by simp
  qed
qed

text \<open>Slots of distinct requests stay on distinct pages.\<close>

definition cont_pages :: "int \<Rightarrow> (int \<times> int) list \<Rightarrow> int list" where
  "cont_pages ps xs = map (\<lambda>(sl, ll). ll div ps) (filter (\<lambda>(sl, ll). \<not> opens_page ps sl) xs)"

lemma cont_slot:
  assumes "0 < ps" and "(ll + 2) mod ps = sl mod ps" and "\<not> opens_page ps sl"
  shows "(ll + 1) mod ps = (sl - 1) mod ps" and "(ll + 1) div ps = ll div ps"
proof -
  have "(ll + 2 - 1) mod ps = (sl - 1) mod ps"
    using assms(2) by (metis mod_diff_left_eq)
  then show m: "(ll + 1) mod ps = (sl - 1) mod ps" by (simp add: add.commute)
  define q r where "q = (ll + 1) div ps" and "r = (ll + 1) mod ps"
  have "r \<noteq> 0" using m assms(3) by (simp add: r_def opens_page_def)
  moreover have "0 \<le> r" and "r < ps" and "ll + 1 = q * ps + r"
    using assms(1) by (simp_all add: r_def q_def)
  ultimately have "0 < r" by simp
  with \<open>ll + 1 = q * ps + r\<close> have "ll = (r - 1) + q * ps" by simp
  then have "ll div ps = q + (r - 1) div ps"
    using assms(1) by (metis div_mult_self1 less_irrefl)
  then show "(ll + 1) div ps = ll div ps"
    using \<open>0 < r\<close> \<open>r < ps\<close> by (simp add: q_def)
qed

lemma decode_ref_pages:
  assumes "0 < ps"
    and "decode_ref ps free xs = Some (out, rest)"
    and "distinct (free @ cont_pages ps xs)"
    and "\<forall>(sl, ll) \<in> set xs. (ll + 2) mod ps = sl mod ps"
  shows "distinct (map (\<lambda>x. x div ps) out @ rest)
    \<and> set (map (\<lambda>x. x div ps) out) \<union> set rest = set free \<union> set (cont_pages ps xs)
    \<and> map (\<lambda>x. x mod ps) out = map (\<lambda>(sl, ll). (sl - 1) mod ps) xs"
  using assms(2-4)
proof (induction xs arbitrary: free out)
  case Nil
  then show ?case by (auto simp: cont_pages_def)
next
  case (Cons x xs)
  obtain sl ll where x: "x = (sl, ll)" by (cases x)
  show ?case
  proof (cases "opens_page ps sl")
    case True
    with Cons.prems(1) obtain p fr out' where free: "free = p # fr"
      and r: "decode_ref ps fr xs = Some (out', rest)" and out: "out = p * ps # out'"
      by (auto simp: x opens_page_def split: list.splits)
    have c: "cont_pages ps ((sl, ll) # xs) = cont_pages ps xs" using True by (simp add: cont_pages_def)
    have ih: "distinct (map (\<lambda>x. x div ps) out' @ rest)
      \<and> set (map (\<lambda>x. x div ps) out') \<union> set rest = set fr \<union> set (cont_pages ps xs)
      \<and> map (\<lambda>x. x mod ps) out' = map (\<lambda>(sl, ll). (sl - 1) mod ps) xs"
      using Cons.prems(2,3) free c x by (intro Cons.IH[OF r]) auto
    moreover have "p \<notin> set fr \<union> set (cont_pages ps xs)"
      using Cons.prems(2) free c x by auto
    ultimately have "p \<notin> set (map (\<lambda>x. x div ps) out') \<union> set rest" by simp
    then show ?thesis
      using ih assms(1) True by (auto simp: free out c x opens_page_def)
  next
    case False
    with Cons.prems(1) obtain out' where
      r: "decode_ref ps free xs = Some (out', rest)" and out: "out = (ll + 1) # out'"
      by (auto simp: x opens_page_def)
    have c: "cont_pages ps ((sl, ll) # xs) = ll div ps # cont_pages ps xs"
      using False by (simp add: cont_pages_def)
    have ih: "distinct (map (\<lambda>x. x div ps) out' @ rest)
      \<and> set (map (\<lambda>x. x div ps) out') \<union> set rest = set free \<union> set (cont_pages ps xs)
      \<and> map (\<lambda>x. x mod ps) out' = map (\<lambda>(sl, ll). (sl - 1) mod ps) xs"
      using Cons.prems(2,3) c x by (intro Cons.IH[OF r]) auto
    have "ll div ps \<notin> set free \<union> set (cont_pages ps xs)"
      using Cons.prems(2) c x by auto
    with ih have "ll div ps \<notin> set (map (\<lambda>x. x div ps) out') \<union> set rest" by simp
    moreover have "(ll + 1) mod ps = (sl - 1) mod ps" and "(ll + 1) div ps = ll div ps"
      using cont_slot[OF assms(1) _ False] Cons.prems(3) x by auto
    ultimately show ?thesis
      using ih by (auto simp: out c x)
  qed
qed

lemma paged_step_page_size: "page_size (fst (pool_step paged_alloc paged_free c opn)) = page_size (fst c)"
  by (cases c; cases opn)
    (auto simp: paged_alloc_def paged_free_def Let_def split: option.splits)

lemma paged_run_page_size:
  "pool_run paged_alloc paged_free s ops = (a, held) \<Longrightarrow> page_size a = page_size s"
proof -
  have "page_size (fst (foldl (pool_step paged_alloc paged_free) c ops)) = page_size (fst c)" for c
    by (induction ops arbitrary: c) (auto simp: paged_step_page_size)
  from this[of "(s, [])"] show "pool_run paged_alloc paged_free s ops = (a, held) \<Longrightarrow> ?thesis"
    by (simp add: pool_run_def)
qed

lemma expand_pages_range:
  "0 < ps \<Longrightarrow> set (expand_pages ps (map int [1..<n + 1])) \<subseteq> {int ps..<int ((n + 1) * ps)}"
proof
  fix x
  assume ps: "0 < ps" and "x \<in> set (expand_pages ps (map int [1..<n + 1]))"
  then have "x div int ps \<in> int ` {1..<n + 1}" by (simp add: in_expand_pages del: upt_Suc)
  then have "1 \<le> x div int ps" and "x div int ps < int (n + 1)" by auto
  then have "1 * int ps \<le> x div int ps * int ps" and "(x div int ps + 1) * int ps \<le> int (n + 1) * int ps"
    using ps by (intro mult_right_mono; simp)+
  moreover have "x = x div int ps * int ps + x mod int ps" and "0 \<le> x mod int ps" and "x mod int ps < int ps"
    using ps by simp_all
  moreover have "int ((n + 1) * ps) = int (n + 1) * int ps" by (rule of_nat_mult)
  ultimately show "x \<in> {int ps..<int ((n + 1) * ps)}"
    unfolding atLeastLessThan_iff distrib_right by linarith
qed

lemma distinct_submset_append: "mset xs \<subseteq># mset ys \<Longrightarrow> distinct (ys @ zs) \<Longrightarrow> distinct (xs @ zs)"
proof -
  assume sub: "mset xs \<subseteq># mset ys" and d: "distinct (ys @ zs)"
  then obtain M where "mset (xs @ zs) + M = mset (ys @ zs)"
    by (auto simp: mset_subset_eq_exists_conv ac_simps)
  then show ?thesis using d by (rule distinct_of_mset_add)
qed

text \<open>What a client sees of an allocator's free state.\<close>

definition free_view :: "kv_allocator \<Rightarrow> int list \<times> int list \<times> bool" where
  "free_view a = (free_pages a, release_pages a, is_not_in_free_group a)"

lemma tok_free_in_group:
  "\<not> is_not_in_free_group a \<Longrightarrow>
   foldl tok_free a blocks = a\<lparr>free_group := free_group a @ filter (\<lambda>b. b \<noteq> []) blocks\<rparr>"
  by (induction blocks arbitrary: a) (auto simp: tok_free_def)

lemma paged_free_in_group:
  "\<not> is_not_in_free_group a \<Longrightarrow>
   foldl paged_free a blocks = a\<lparr>free_group := free_group a @ filter (\<lambda>b. b \<noteq> []) blocks\<rparr>"
  by (induction blocks arbitrary: a) (auto simp: paged_free_def)

section \<open>Properties\<close>

text \<open>
  C7: Whatever sequence of allocations and frees is run on a fresh
  \<open>TokenToKVPoolAllocator\<close>, sorted or not, no KV slot is ever held twice, no held slot is also
  free, every held slot lies in \<open>1 .. size\<close> (slot 0 stays reserved for padding), and
  \<open>available_size\<close> is exactly what is not held.
\<close>

theorem tok_pool_no_double_allocation:
  assumes "pool_run tok_alloc tok_free (tok_init sz ns) ops = (a, held)"
  shows "distinct (concat held)
    \<and> set (concat held) \<inter> set (free_pages a @ release_pages a) = {}
    \<and> set (concat held) \<subseteq> {1..int sz}
    \<and> tok_available_size a + length (concat held) = sz"
proof -
  let ?u = "map int [1..<sz + 1]"
  have "distinct ?u" by (simp add: distinct_map)
  moreover have "tok_wf (tok_init sz ns)" and "tok_avail (tok_init sz ns) = mset ?u"
    by (simp_all add: tok_init_def tok_clear_def base_init_def tok_wf_def tok_avail_def del: upt_Suc)
  ultimately have c: "mset (concat held) + tok_avail a = mset ?u \<and> distinct (concat held)
      \<and> set (concat held) \<inter> set_mset (tok_avail a) = {} \<and> tok_wf a"
    using tok.conservation assms by blast
  then have "set (concat held) \<subseteq> set ?u"
    by (metis Un_upper1 set_mset_mset set_mset_union)
  moreover have "size (mset (concat held)) + size (tok_avail a) = size (mset ?u)"
    using c by (metis size_union)
  ultimately show ?thesis
    using c by (auto simp: tok_avail_def tok_available_size_def simp del: upt_Suc)
qed

theorem tok_pool_no_double_allocation_witness:
  "\<exists>a. pool_run tok_alloc tok_free (tok_init 4 True) [Take 2, Take 1, Give 1, Take 2] = (a, [[1, 2], [3]])
    \<and> distinct (concat [[1, 2], [3 :: int]]) \<and> tok_available_size a = 1"
proof -
  have h: "pool_run tok_alloc tok_free (tok_init 4 True) [Take 2, Take 1, Give 1, Take 2]
     = (\<lparr>al_size = 4, page_size = 1, need_sort = True, free_pages = [4], release_pages = [],
         is_not_in_free_group = True, free_group = [], ret_values = 0\<rparr>, [[1, 2], [3]])"
    by code_simp
  show ?thesis
    using h tok_pool_no_double_allocation[OF h] by simp
qed

text \<open>
  C1: On a fresh \<open>PagedTokenToKVPoolAllocator\<close> every sequence of allocations and frees keeps held
  token slots distinct and off the free pages; the blocks handed out consist of whole pages (their
  length is a multiple of the page size), and \<open>available_size\<close> plus the slots held is the number of
  slots of the pool's whole pages.
\<close>

theorem paged_pool_no_double_allocation:
  assumes "0 < ps" and "pool_run paged_alloc paged_free (paged_init sz ps ns) ops = (a, held)"
  shows "distinct (concat held)
    \<and> set (concat held) \<inter> set (expand_pages ps (free_pages a @ release_pages a)) = {}
    \<and> set (concat held) \<subseteq> {int ps..<int ((sz div ps + 1) * ps)}
    \<and> base_available_size a + length (concat held) = sz div ps * ps"
proof -
  let ?pages = "map int [1..<sz div ps + 1]"
  let ?u = "expand_pages ps ?pages"
  have dp: "distinct ?pages" by (simp add: distinct_map)
  then have "distinct ?u" by (rule distinct_expand_pages)
  moreover have "paged_wf (paged_init sz ps ns)" and "paged_avail (paged_init sz ps ns) = mset ?u"
    using assms(1) dp
    by (simp_all add: paged_init_def paged_clear_def base_init_def paged_wf_def paged_avail_def del: upt_Suc)
  ultimately have c: "mset (concat held) + paged_avail a = mset ?u \<and> distinct (concat held)
      \<and> set (concat held) \<inter> set_mset (paged_avail a) = {} \<and> paged_wf a"
    using paged.conservation assms(2) by blast
  have psa: "page_size a = ps"
    using paged_run_page_size[OF assms(2)]
    by (simp add: paged_init_def paged_clear_def base_init_def)
  have "set (concat held) \<subseteq> set ?u"
    using c by (metis Un_upper1 set_mset_mset set_mset_union)
  moreover have "set ?u \<subseteq> {int ps..<int ((sz div ps + 1) * ps)}"
    using assms(1) by (rule expand_pages_range)
  moreover have "size (mset (concat held)) + size (paged_avail a) = size (mset ?u)"
    using c by (metis size_union)
  then have "base_available_size a + length (concat held) = sz div ps * ps"
    by (simp add: paged_avail_def base_available_size_def psa algebra_simps del: upt_Suc)
  ultimately show ?thesis
    using c by (auto simp: paged_avail_def psa)
qed

theorem paged_pool_no_double_allocation_witness:
  "\<exists>a. pool_run paged_alloc paged_free (paged_init 8 2 False) [Take 4, Take 2, Give 1, Take 2]
       = (a, [[2, 3], [6, 7]])
    \<and> distinct (concat [[2, 3], [6, 7 :: int]]) \<and> base_available_size a = 4"
proof -
  have h: "pool_run paged_alloc paged_free (paged_init 8 2 False) [Take 4, Take 2, Give 1, Take 2]
     = (\<lparr>al_size = 8, page_size = 2, need_sort = False, free_pages = [2, 4], release_pages = [],
         is_not_in_free_group = True, free_group = [], ret_values = 0\<rparr>, [[2, 3], [6, 7]])"
    by code_simp
  show ?thesis
    using h paged_pool_no_double_allocation[OF _ h] by simp
qed

text \<open>
  C3: The parallel decode kernel computes what serving the requests one by one would: for every
  non-empty batch, whatever the unspecified lanes and out-of-range loads hold, \<open>alloc_decode\<close>
  returns the slots of the sequential reference and drops exactly the pages it used, or returns
  \<open>None\<close> (keeping all pages) exactly when the reference runs out of pages.
\<close>

theorem alloc_decode_equals_reference:
  fixes a sls
  defines "t \<equiv> (if need_sort a \<and> length sls > length (free_pages a) then merge_and_sort_free a else a)"
  assumes "0 < page_size a" and "sls \<noteq> []" and "length lls = length sls"
  shows "map_prod id free_pages (paged_alloc_decode junk a sls lls) =
    (case decode_ref (int (page_size a)) (free_pages t) (zip sls lls) of
       None \<Rightarrow> (None, free_pages t)
     | Some (out, rest) \<Rightarrow> (Some out, rest))"
  unfolding t_def paged_alloc_decode_ref[OF assms(2-4)]
  by (auto simp: Let_def split: option.splits)

theorem alloc_decode_equals_reference_witness:
  "map_prod id free_pages (paged_alloc_decode (\<lambda>_. 99) (paged_init 16 4 False) [5, 7, 1] [40, 33, 8])
     = (Some [4, 34, 8], [3, 4])"
proof -
  have "decode_ref 4 [1, 2, 3, 4] [(5, 40), (7, 33), (1, 8)] = Some ([4, 34, 8], [3, 4])"
    by code_simp
  then show ?thesis
    using alloc_decode_equals_reference[of "paged_init 16 4 False" "[5, 7, 1]" "[40, 33, 8]" "\<lambda>_. 99"]
    by (simp add: paged_init_def paged_clear_def base_init_def upt_rec)
qed

text \<open>
  C10: After a decode step that the debug assertion admits (each request's last slot sits at its
  last position within the page), when the continuing requests own distinct pages and none of them
  is free: the new slots lie on pairwise distinct pages, none of those pages is still free, and
  each slot has the in-page offset of its position in the sequence.
\<close>

theorem alloc_decode_slots_disjoint:
  assumes "paged_alloc_decode junk a sls lls = (Some out, a')"
    and "0 < page_size a" and "sls \<noteq> []" and "length lls = length sls"
    and "distinct (free_pages a @ release_pages a @ cont_pages (int (page_size a)) (zip sls lls))"
    and "\<forall>(sl, ll) \<in> set (zip sls lls). (ll + 2) mod int (page_size a) = sl mod int (page_size a)"
  shows "distinct (map (\<lambda>x. x div int (page_size a)) out @ free_pages a')
    \<and> map (\<lambda>x. x mod int (page_size a)) out = map (\<lambda>sl. (sl - 1) mod int (page_size a)) sls"
proof -
  define t where "t = (if need_sort a \<and> length sls > length (free_pages a) then merge_and_sort_free a else a)"
  have r: "decode_ref (int (page_size a)) (free_pages t) (zip sls lls) = Some (out, free_pages a')"
    using assms(1) paged_alloc_decode_ref[OF assms(2-4), of junk]
    by (auto simp: t_def[symmetric] Let_def split: option.splits)
  have "mset (free_pages t) \<subseteq># mset (free_pages a @ release_pages a)"
    by (simp add: t_def)
  then have "distinct (free_pages t @ cont_pages (int (page_size a)) (zip sls lls))"
    using assms(5) distinct_submset_append by (metis append.assoc)
  from decode_ref_pages[OF _ r this assms(6)] assms(2)
  have "distinct (map (\<lambda>x. x div int (page_size a)) out @ free_pages a')"
    and "map (\<lambda>x. x mod int (page_size a)) out
      = map (\<lambda>(sl, ll). (sl - 1) mod int (page_size a)) (zip sls lls)" by simp_all
  moreover have "map (\<lambda>(sl, ll). (sl - 1) mod int (page_size a)) (zip sls lls)
      = map (\<lambda>sl. (sl - 1) mod int (page_size a)) (map fst (zip sls lls))"
    by (simp add: case_prod_beta comp_def)
  ultimately show ?thesis using assms(4) by simp
qed

theorem alloc_decode_slots_disjoint_witness:
  "\<exists>out a'. paged_alloc_decode (\<lambda>_. 99) (paged_init 16 4 False) [5, 7, 1] [47, 33, 63] = (Some out, a')
    \<and> distinct (map (\<lambda>x. x div 4) out @ free_pages a') \<and> map (\<lambda>x. x mod 4) out = [0, 2, 0]"
proof -
  have h: "paged_alloc_decode (\<lambda>_. 99) (paged_init 16 4 False) [5, 7, 1] [47, 33, 63]
     = (Some [4, 34, 8], \<lparr>al_size = 16, page_size = 4, need_sort = False, free_pages = [3, 4],
          release_pages = [], is_not_in_free_group = True, free_group = [], ret_values = 2\<rparr>)"
    by code_simp
  show ?thesis
    using h alloc_decode_slots_disjoint[OF h]
    by (simp add: paged_init_def paged_clear_def base_init_def upt_rec cont_pages_def opens_page_def)
qed

text \<open>
  C34: Frees issued between \<open>free_group_begin\<close> and \<open>free_group_end\<close> amount to one free of their
  concatenation, for both allocators; in the paged one a page reached from several of the freed
  blocks is therefore returned once.
\<close>

theorem free_group_is_one_free:
  assumes "is_not_in_free_group a"
  shows "free_view (free_group_end tok_free (foldl tok_free (free_group_begin a) blocks))
           = free_view (tok_free a (concat blocks))
    \<and> free_view (free_group_end paged_free (foldl paged_free (free_group_begin a) blocks))
           = free_view (paged_free a (concat blocks))"
proof -
  have c: "concat (filter (\<lambda>b. b \<noteq> []) blocks) = concat blocks"
    by (induction blocks) auto
  have e: "concat blocks \<noteq> []" if "filter (\<lambda>b. b \<noteq> []) blocks \<noteq> []"
    using that by (induction blocks) (auto split: if_splits)
  have n: "concat blocks = []" if "filter (\<lambda>b. b \<noteq> []) blocks = []"
    using that c by simp
  have g: "foldl tok_free (free_group_begin a) blocks
      = a\<lparr>is_not_in_free_group := False, free_group := filter (\<lambda>b. b \<noteq> []) blocks\<rparr>"
    "foldl paged_free (free_group_begin a) blocks
      = a\<lparr>is_not_in_free_group := False, free_group := filter (\<lambda>b. b \<noteq> []) blocks\<rparr>"
    using tok_free_in_group[of "free_group_begin a" blocks] paged_free_in_group[of "free_group_begin a" blocks]
    by (simp_all add: free_group_begin_def)
  have "free_view (free_group_end tok_free (foldl tok_free (free_group_begin a) blocks))
      = free_view (tok_free a (concat blocks))"
    unfolding g using assms c e n
    by (cases "filter (\<lambda>b. b \<noteq> []) blocks = []")
      (simp_all add: free_group_end_def Let_def tok_free_def free_view_def)
  moreover have "free_view (free_group_end paged_free (foldl paged_free (free_group_begin a) blocks))
      = free_view (paged_free a (concat blocks))"
    unfolding g using assms c e n
    by (cases "filter (\<lambda>b. b \<noteq> []) blocks = []")
      (auto simp add: free_group_end_def Let_def paged_free_def free_view_def)
  ultimately show ?thesis ..
qed

theorem free_group_is_one_free_witness:
  "free_view (free_group_end paged_free
      (foldl paged_free (free_group_begin (snd (paged_alloc (paged_init 8 2 False) 6))) [[2, 3], [6], [7]]))
     = ([1, 3, 4], [], True)"
proof -
  have "is_not_in_free_group (snd (paged_alloc (paged_init 8 2 False) 6))"
    by code_simp
  note free_group_is_one_free[OF this, of "[[2, 3], [6], [7]]"]
  moreover have "free_view (paged_free (snd (paged_alloc (paged_init 8 2 False) 6))
      (concat [[2, 3], [6], [7]])) = ([1, 3, 4], [], True)"
    by code_simp
  ultimately show ?thesis by (simp only: simp_thms)
qed

end
