(* ===== verification/Dp_Scheduler.thy ===== *)
theory Dp_Scheduler
  imports Complex_Main Prelude
begin

text \<open>
  \<^verbatim>\<open>disagmoe/scheduler/dpscheduler.py\<close>: the data-parallel scheduler that assigns a request to an
  attention rank by KV-cache capacity, its four policies, and the asyncio loop that admits
  waiting requests. \<open>self._schedule\<close> is a virtual method, so the operations of the base class take
  it as a parameter; the policies are its four instances. Lengths, ranks and block counts are
  Python integers; the weights of the weighted policy are Python floats, modelled by exact
  rationals. The loop is a step relation: each rule is the code between two awaits.
\<close>

section \<open>State\<close>

record request_item =
  ri_req_id :: int
  ri_seq_len :: int
  ri_prefill_len :: int
  ri_output_len :: int

record dp_state =
  dp_size :: nat
  kv_cache_stats :: "int list"
  block_size :: int
  seq_ranks :: "int \<rightharpoonup> int"
  seq_max_len :: "int \<rightharpoonup> int \<times> int"
  end_flag :: bool
  end_event :: bool
  sch_event :: bool
  waiting_queue :: "request_item list"
  cur_rank :: int             \<comment> \<open>the round-robin policies\<close>
  dp_weights :: "rat list"    \<comment> \<open>the weighted policy\<close>

type_synonym policy = "dp_state \<Rightarrow> int \<Rightarrow> int \<Rightarrow> (int \<times> dp_state) res"

definition dp_reset :: "dp_state \<Rightarrow> dp_state" where
  "dp_reset s = s\<lparr>end_flag := False, end_event := False, sch_event := False, waiting_queue := []\<rparr>"

definition dp_init :: "nat \<Rightarrow> int \<Rightarrow> dp_state" where
  "dp_init n bs = dp_reset
     \<lparr> dp_size = n, kv_cache_stats = replicate n 0, block_size = bs,
       seq_ranks = Map.empty, seq_max_len = Map.empty,
       end_flag = False, end_event = False, sch_event = False, waiting_queue = [],
       cur_rank = 0, dp_weights = [] \<rparr>"

text \<open>\<open>stats\<close> is a dictionary; its items come in insertion order.\<close>

definition init_kv_cache_stats :: "dp_state \<Rightarrow> (int \<times> int) list \<Rightarrow> dp_state res" where
  "init_kv_cache_stats s stats =
     foldM (\<lambda>s (rank, num_blocks).
        rbind (py_set (kv_cache_stats s) rank num_blocks) (\<lambda>st. Ok (s\<lparr>kv_cache_stats := st\<rparr>))) s stats"

text \<open>\<open>start\<close> initialises the statistics, resets the loop state and creates the loop task.\<close>

definition dp_start :: "dp_state \<Rightarrow> (int \<times> int) list \<Rightarrow> dp_state res" where
  "dp_start s stats = rbind (init_kv_cache_stats s stats) (\<lambda>s. Ok (dp_reset s))"

definition put_request :: "dp_state \<Rightarrow> request_item \<Rightarrow> dp_state" where
  "put_request s item = s\<lparr>waiting_queue := waiting_queue s @ [item]\<rparr>"

section \<open>Accounting\<close>

definition required_blocks :: "dp_state \<Rightarrow> int \<Rightarrow> int \<Rightarrow> int res" where
  "required_blocks s prefill_len output_len =
     (let bs = block_size s in
      if bs = 0 then Raise ZeroDivisionError
      else Ok ((prefill_len + bs - 1) div bs + (output_len + bs - 1) div bs))"

definition add_seq :: "dp_state \<Rightarrow> int \<Rightarrow> int \<Rightarrow> int \<Rightarrow> int \<Rightarrow> dp_state res" where
  "add_seq s seq_id prefill_len output_len rank =
     rbind (required_blocks s prefill_len output_len) (\<lambda>required.
     rbind (py_get (kv_cache_stats s) rank) (\<lambda>free.
     rbind (py_set (kv_cache_stats s) rank (free - required)) (\<lambda>stats.
     Ok (s\<lparr>seq_max_len := (seq_max_len s)(seq_id \<mapsto> (prefill_len, output_len)),
           kv_cache_stats := stats,
           seq_ranks := (seq_ranks s)(seq_id \<mapsto> rank)\<rparr>))))"

definition del_seq :: "dp_state \<Rightarrow> int \<Rightarrow> dp_state res" where
  "del_seq s seq_id =
     rbind (dict_get (seq_ranks s) seq_id) (\<lambda>rank.
     rbind (dict_get (seq_max_len s) seq_id) (\<lambda>(prefill_len, output_len).
     rbind (required_blocks s prefill_len output_len) (\<lambda>required.
     rbind (py_get (kv_cache_stats s) rank) (\<lambda>free.
     rbind (py_set (kv_cache_stats s) rank (free + required)) (\<lambda>stats.
     Ok (s\<lparr>seq_ranks := (seq_ranks s)(seq_id := None), kv_cache_stats := stats,
           seq_max_len := (seq_max_len s)(seq_id := None), sch_event := True\<rparr>))))))"

text \<open>\<open>schedule\<close> loops over the three lists zipped.\<close>

definition schedule ::
    "policy \<Rightarrow> dp_state \<Rightarrow> int list \<Rightarrow> int list \<Rightarrow> int list \<Rightarrow> (int list \<times> dp_state) res" where
  "schedule sched s req_ids prefill_lens output_lens =
     foldM (\<lambda>(ranks, s) (req, plen, olen).
        rbind (sched s plen olen) (\<lambda>(rank, s').
        if rank \<ge> 0
        then rbind (add_seq s' req plen olen rank) (\<lambda>s''. Ok (ranks @ [rank], s''))
        else Ok (ranks @ [rank], s'))) ([], s) (zip req_ids (zip prefill_lens output_lens))"

section \<open>Policies\<close>

text \<open>\<open>DPSchedulerMax\<close>: the rank with the most free blocks.\<close>

fun max_loop :: "int \<Rightarrow> int \<Rightarrow> int \<Rightarrow> int list \<Rightarrow> int \<times> int" where
  "max_loop stat rank i [] = (stat, rank)"
| "max_loop stat rank i (num_blocks # rest) =
     (if num_blocks > stat then max_loop num_blocks i (i + 1) rest
      else max_loop stat rank (i + 1) rest)"

definition sched_max :: policy where
  "sched_max s prefill_len output_len =
     (let (stat, rank) = max_loop 0 (-1) 0 (kv_cache_stats s) in
      rbind (required_blocks s prefill_len output_len) (\<lambda>required.
      Ok (if stat < required then -1 else rank, s)))"

text \<open>\<open>DPSChedulerRR\<close>: round robin, blind to capacity.\<close>

definition next_rank :: "dp_state \<Rightarrow> int res" where
  "next_rank s = (if dp_size s = 0 then Raise ZeroDivisionError
                  else Ok ((cur_rank s + 1) mod int (dp_size s)))"

definition sched_rr :: policy where
  "sched_rr s prefill_len output_len =
     rbind (next_rank s) (\<lambda>c. Ok (cur_rank s, s\<lparr>cur_rank := c\<rparr>))"

text \<open>\<open>DPSchedulerCapRR\<close>: round robin over the ranks that have room, at most one turn.\<close>

fun cap_rr_loop :: "nat \<Rightarrow> int \<Rightarrow> dp_state \<Rightarrow> (int \<times> dp_state) res" where
  "cap_rr_loop 0 required s = Ok (-1, s)"
| "cap_rr_loop (Suc k) required s =
     rbind (next_rank s) (\<lambda>c.
     rbind (py_get (kv_cache_stats s) (cur_rank s)) (\<lambda>free.
     if free \<ge> required then Ok (cur_rank s, s\<lparr>cur_rank := c\<rparr>)
     else cap_rr_loop k required (s\<lparr>cur_rank := c\<rparr>)))"

definition sched_cap_rr :: policy where
  "sched_cap_rr s prefill_len output_len =
     rbind (required_blocks s prefill_len output_len) (\<lambda>required. cap_rr_loop (dp_size s) required s)"

text \<open>\<open>DPSchedulerWeighted\<close>: the rank with the largest weighted free space among those with room.\<close>

fun weighted_loop :: "int \<Rightarrow> rat list \<Rightarrow> int \<Rightarrow> rat \<Rightarrow> int \<Rightarrow> int list \<Rightarrow> int res" where
  "weighted_loop required ws best_rank best_score i [] = Ok best_rank"
| "weighted_loop required ws best_rank best_score i (num_blocks # rest) =
     (if num_blocks < required then weighted_loop required ws best_rank best_score (i + 1) rest
      else rbind (py_get ws i) (\<lambda>w.
        let score = of_int num_blocks * w in
        if score > best_score then weighted_loop required ws i score (i + 1) rest
        else weighted_loop required ws best_rank best_score (i + 1) rest))"

definition sched_weighted :: policy where
  "sched_weighted s prefill_len output_len =
     rbind (required_blocks s prefill_len output_len) (\<lambda>required.
     rbind (weighted_loop required (dp_weights s) (-1) (-1) 0 (kv_cache_stats s)) (\<lambda>rank.
     Ok (rank, s)))"

definition weighted_init :: "nat \<Rightarrow> int \<Rightarrow> rat list \<Rightarrow> dp_state res" where
  "weighted_init n bs ws =
     rbind (py_assert (length ws = n)) (\<lambda>_.
     (let total = sum_list ws in
      if total = 0 \<and> ws \<noteq> [] then Raise ZeroDivisionError
      else Ok ((dp_init n bs)\<lparr>dp_weights := map (\<lambda>w. w / total) ws\<rparr>)))"

text \<open>\<open>get_dp_scheduler\<close>: the policy by name, and the initial state of its object.\<close>

definition get_dp_scheduler ::
    "nat \<Rightarrow> int \<Rightarrow> string \<Rightarrow> rat list option \<Rightarrow> (policy \<times> dp_state) res" where
  "get_dp_scheduler n bs name weights =
     (if name = ''RR'' then Ok (sched_rr, dp_init n bs)
      else if name = ''max'' then Ok (sched_max, dp_init n bs)
      else if name = ''cap_rr'' then Ok (sched_cap_rr, dp_init n bs)
      else if name = ''weighted'' then
        (case weights of
           None \<Rightarrow> Raise AssertionError
         | Some ws \<Rightarrow> rbind (weighted_init n bs ws) (\<lambda>s. Ok (sched_weighted, s)))
      else Raise KeyError)"

section \<open>The waiting loop\<close>

text \<open>
  \<open>waiting_loop\<close> is either awaiting the queue or the end event, or holds a request it could not
  place and awaits \<open>sch_event\<close>, or has returned. \<open>arrived\<close> records the requests put, in order, and
  \<open>submitted\<close> the calls of \<open>request_item.func\<close> with the rank.
\<close>

datatype loop_pc = Waiting | Holding request_item | Done

record dp_sys =
  dp :: dp_state
  pc :: loop_pc
  arrived :: "request_item list"
  submitted :: "(request_item \<times> int) list"

definition schedule_one :: "policy \<Rightarrow> dp_state \<Rightarrow> request_item \<Rightarrow> (int \<times> dp_state) res" where
  "schedule_one sched s item =
     rbind (schedule sched s [ri_req_id item] [ri_prefill_len item] [ri_output_len item])
       (\<lambda>(ranks, s'). rbind (py_get ranks 0) (\<lambda>rank. Ok (rank, s')))"

definition ids_of :: "dp_sys \<Rightarrow> int set" where
  "ids_of y = dom (seq_ranks (dp y)) \<union> ri_req_id ` set (waiting_queue (dp y))
     \<union> (case pc y of Holding item \<Rightarrow> {ri_req_id item} | _ \<Rightarrow> {})"

text \<open>
  The environment puts requests with lengths of at least 0 under an id that is not in use, as the
  controller does, and reports finished requests.
\<close>

inductive dp_step :: "policy \<Rightarrow> dp_sys \<Rightarrow> dp_sys \<Rightarrow> bool" for sched where
  put: "ri_req_id item \<notin> ids_of y \<Longrightarrow> 0 \<le> ri_prefill_len item \<Longrightarrow> 0 \<le> ri_output_len item \<Longrightarrow>
    dp_step sched y (y\<lparr>dp := put_request (dp y) item, arrived := arrived y @ [item]\<rparr>)"
| admit: "pc y = Waiting \<Longrightarrow> \<not> end_flag (dp y) \<Longrightarrow> \<not> end_event (dp y) \<Longrightarrow>
    waiting_queue (dp y) = item # rest \<Longrightarrow>
    schedule_one sched ((dp y)\<lparr>waiting_queue := rest\<rparr>) item = Ok (rank, s') \<Longrightarrow> rank \<ge> 0 \<Longrightarrow>
    dp_step sched y (y\<lparr>dp := s', submitted := submitted y @ [(item, rank)]\<rparr>)"
| hold: "pc y = Waiting \<Longrightarrow> \<not> end_flag (dp y) \<Longrightarrow> \<not> end_event (dp y) \<Longrightarrow>
    waiting_queue (dp y) = item # rest \<Longrightarrow>
    schedule_one sched ((dp y)\<lparr>waiting_queue := rest\<rparr>) item = Ok (rank, s') \<Longrightarrow> rank < 0 \<Longrightarrow>
    dp_step sched y (y\<lparr>dp := s', pc := Holding item\<rparr>)"
| retry_admit: "pc y = Holding item \<Longrightarrow> sch_event (dp y) \<Longrightarrow>
    schedule_one sched ((dp y)\<lparr>sch_event := False\<rparr>) item = Ok (rank, s') \<Longrightarrow> rank \<ge> 0 \<Longrightarrow>
    dp_step sched y (y\<lparr>dp := s', pc := Waiting, submitted := submitted y @ [(item, rank)]\<rparr>)"
| retry_hold: "pc y = Holding item \<Longrightarrow> sch_event (dp y) \<Longrightarrow>
    schedule_one sched ((dp y)\<lparr>sch_event := False\<rparr>) item = Ok (rank, s') \<Longrightarrow> rank < 0 \<Longrightarrow>
    dp_step sched y (y\<lparr>dp := s'\<rparr>)"
| finish: "del_seq (dp y) sid = Ok s' \<Longrightarrow> dp_step sched y (y\<lparr>dp := s'\<rparr>)"
| terminate: "dp_step sched y (y\<lparr>dp := (dp y)\<lparr>end_flag := True, end_event := True\<rparr>\<rparr>)"
| stop: "pc y = Waiting \<Longrightarrow> end_event (dp y) \<or> end_flag (dp y) \<Longrightarrow> dp_step sched y (y\<lparr>pc := Done\<rparr>)"
| stop_drop: "pc y = Waiting \<Longrightarrow> end_event (dp y) \<Longrightarrow> waiting_queue (dp y) = item # rest \<Longrightarrow>
    dp_step sched y (y\<lparr>dp := (dp y)\<lparr>waiting_queue := rest\<rparr>, pc := Done\<rparr>)"

inductive dp_reach :: "policy \<Rightarrow> dp_state \<Rightarrow> dp_sys \<Rightarrow> bool" for sched s0 where
  init: "dp_reach sched s0 \<lparr>dp = s0, pc = Waiting, arrived = [], submitted = []\<rparr>"
| step: "dp_reach sched s0 y \<Longrightarrow> dp_step sched y y' \<Longrightarrow> dp_reach sched s0 y'"


section \<open>The accounting invariant\<close>

definition blocks :: "int \<Rightarrow> int \<times> int \<Rightarrow> int" where
  "blocks bs pl = (fst pl + bs - 1) div bs + (snd pl + bs - 1) div bs"

definition committed :: "dp_state \<Rightarrow> int \<Rightarrow> int" where
  "committed s r = (\<Sum>i \<in> {i. seq_ranks s i = Some r}. blocks (block_size s) (the (seq_max_len s i)))"

definition dp_wf :: "dp_state \<Rightarrow> bool" where
  "dp_wf s \<longleftrightarrow> 0 < block_size s \<and> length (kv_cache_stats s) = dp_size s
     \<and> 0 \<le> cur_rank s \<and> cur_rank s < int (dp_size s)"

definition dp_inv :: "int list \<Rightarrow> dp_state \<Rightarrow> bool" where
  "dp_inv cap s \<longleftrightarrow> dp_wf s \<and> length cap = dp_size s \<and> finite (dom (seq_ranks s))
     \<and> dom (seq_ranks s) = dom (seq_max_len s)
     \<and> (\<forall>r \<in> ran (seq_ranks s). 0 \<le> r \<and> r < int (dp_size s))
     \<and> (\<forall>r < dp_size s. kv_cache_stats s ! r + committed s (int r) = cap ! r)"

lemma required_blocks_Ok: "0 < block_size s \<Longrightarrow> required_blocks s p l = Ok (blocks (block_size s) (p, l))"
  by (simp add: required_blocks_def blocks_def Let_def)

lemma blocks_nonneg: "0 < bs \<Longrightarrow> 0 \<le> p \<Longrightarrow> 0 \<le> l \<Longrightarrow> 0 \<le> blocks bs (p, l)"
  by (simp add: blocks_def pos_imp_zdiv_nonneg_iff)

lemma committed_fresh:
  assumes "finite (dom (seq_ranks s))" and "i \<notin> dom (seq_ranks s)"
    and "seq_ranks s' = (seq_ranks s)(i \<mapsto> r)" and "seq_max_len s' = (seq_max_len s)(i \<mapsto> pl)"
    and "block_size s' = block_size s"
  shows "committed s' q = committed s q + (if q = r then blocks (block_size s) pl else 0)"
proof -
  have fin: "finite {j. seq_ranks s j = Some q}"
    using assms(1) by (rule rev_finite_subset) auto
  have ni: "i \<notin> {j. seq_ranks s j = Some q}" using assms(2) by auto
  have same: "(\<Sum>j \<in> {j. seq_ranks s j = Some q}. blocks (block_size s) (the (seq_max_len s' j)))
      = committed s q"
    unfolding committed_def using ni assms(4) by (intro sum.cong) auto
  have set: "{j. seq_ranks s' j = Some q}
      = (if q = r then insert i {j. seq_ranks s j = Some q} else {j. seq_ranks s j = Some q})"
    using assms(2,3) by auto
  show ?thesis
    using same fin ni assms(4,5) by (auto simp: committed_def[of s'] set)
qed

lemma committed_removed:
  assumes "finite (dom (seq_ranks s))" and "seq_ranks s i = Some r"
    and "seq_ranks s' = (seq_ranks s)(i := None)" and "seq_max_len s' = (seq_max_len s)(i := None)"
    and "block_size s' = block_size s"
  shows "committed s' q = committed s q - (if q = r then blocks (block_size s) (the (seq_max_len s i)) else 0)"
proof -
  have fin: "finite {j. seq_ranks s j = Some q}"
    using assms(1) by (rule rev_finite_subset) auto
  have set: "{j. seq_ranks s' j = Some q} = {j. seq_ranks s j = Some q} - {i}"
    using assms(3) by auto
  have "committed s' q = (\<Sum>j \<in> {j. seq_ranks s j = Some q} - {i}. blocks (block_size s) (the (seq_max_len s j)))"
    unfolding committed_def set using assms(4,5) by (intro sum.cong) auto
  also have "\<dots> = committed s q - (if q = r then blocks (block_size s) (the (seq_max_len s i)) else 0)"
    unfolding committed_def using fin assms(2) by (auto simp: sum_diff1)
  finally show ?thesis .
qed

text \<open>The states after a successful \<open>add_seq\<close> and \<open>del_seq\<close>.\<close>

definition added :: "dp_state \<Rightarrow> int \<Rightarrow> int \<Rightarrow> int \<Rightarrow> int \<Rightarrow> dp_state" where
  "added s i p l r = s\<lparr>seq_max_len := (seq_max_len s)(i \<mapsto> (p, l)),
     kv_cache_stats := (kv_cache_stats s)[nat r := kv_cache_stats s ! nat r - blocks (block_size s) (p, l)],
     seq_ranks := (seq_ranks s)(i \<mapsto> r)\<rparr>"

definition removed :: "dp_state \<Rightarrow> int \<Rightarrow> dp_state" where
  "removed s i = (let r = nat (the (seq_ranks s i)) in
     s\<lparr>seq_ranks := (seq_ranks s)(i := None),
       kv_cache_stats := (kv_cache_stats s)[r := kv_cache_stats s ! r
          + blocks (block_size s) (the (seq_max_len s i))],
       seq_max_len := (seq_max_len s)(i := None), sch_event := True\<rparr>)"

lemma removed_simps [simp]:
  "seq_ranks (removed s i) = (seq_ranks s)(i := None)"
  "seq_max_len (removed s i) = (seq_max_len s)(i := None)"
  "waiting_queue (removed s i) = waiting_queue s"
  "dp_weights (removed s i) = dp_weights s"
  "dp_size (removed s i) = dp_size s"
  "block_size (removed s i) = block_size s"
  by (simp_all add: removed_def Let_def)

lemma ran_delete: "x \<in> ran (m(i := None)) \<Longrightarrow> x \<in> ran m"
  by (auto simp: ran_def split: if_splits)

lemma add_seq_inv:
  assumes inv: "dp_inv cap s" and "i \<notin> dom (seq_ranks s)" and r: "0 \<le> r" "r < int (dp_size s)"
  shows "add_seq s i p l r = Ok (added s i p l r)" and "dp_inv cap (added s i p l r)"
proof -
  have len: "length (kv_cache_stats s) = dp_size s" and bs: "0 < block_size s"
    using inv by (auto simp: dp_inv_def dp_wf_def)
  show "add_seq s i p l r = Ok (added s i p l r)"
    using r len by (simp add: add_seq_def added_def required_blocks_Ok[OF bs] py_get_nonneg py_set_nonneg)
  have com: "committed (added s i p l r) q
      = committed s q + (if q = r then blocks (block_size s) (p, l) else 0)" for q
    by (rule committed_fresh) (use assms inv in \<open>auto simp: dp_inv_def added_def\<close>)
  show "dp_inv cap (added s i p l r)"
    using inv r len assms(2) com
    by (auto simp: dp_inv_def dp_wf_def added_def nth_list_update ran_def)
qed

lemma del_seq_inv:
  assumes inv: "dp_inv cap s" and i: "i \<in> dom (seq_ranks s)"
  shows "del_seq s i = Ok (removed s i)" and "dp_inv cap (removed s i)"
proof -
  have len: "length (kv_cache_stats s) = dp_size s" and bs: "0 < block_size s"
    using inv by (auto simp: dp_inv_def dp_wf_def)
  from i obtain r where r: "seq_ranks s i = Some r" by auto
  then have rr: "0 \<le> r" "r < int (dp_size s)"
    using inv by (auto simp: dp_inv_def ran_def)
  obtain p l where pl: "seq_max_len s i = Some (p, l)"
    using i inv by (fastforce simp: dp_inv_def)
  show "del_seq s i = Ok (removed s i)"
    using r pl rr len
    by (simp add: del_seq_def removed_def Let_def dict_get_def required_blocks_Ok[OF bs]
        py_get_nonneg py_set_nonneg)
  have fin: "finite (dom (seq_ranks s))" using inv unfolding dp_inv_def by blast
  have com: "committed (removed s i) q
      = committed s q - (if q = r then blocks (block_size s) (p, l) else 0)" for q
    using committed_removed[OF fin r, of "removed s i" q] pl by (simp add: removed_def Let_def)
  show "dp_inv cap (removed s i)"
    using inv rr len com r pl
    by (auto simp: dp_inv_def dp_wf_def removed_def Let_def nth_list_update ran_def)
qed

lemma del_seq_absent: "i \<notin> dom (seq_ranks s) \<Longrightarrow> del_seq s i = Raise KeyError"
  by (auto simp: del_seq_def dict_get_def domIff)

text \<open>The request the loop holds, and the ones still to be admitted, in order.\<close>

definition held_items :: "dp_sys \<Rightarrow> request_item list" where
  "held_items y = (case pc y of Holding item \<Rightarrow> [item] | _ \<Rightarrow> [])"

definition lens_ok :: "request_item \<Rightarrow> bool" where
  "lens_ok item \<longleftrightarrow> 0 \<le> ri_prefill_len item \<and> 0 \<le> ri_output_len item"

definition placed_at :: "dp_state \<Rightarrow> request_item \<Rightarrow> int \<Rightarrow> dp_state" where
  "placed_at s item r = added s (ri_req_id item) (ri_prefill_len item) (ri_output_len item) r"

text \<open>A request larger than every rank at its full capacity.\<close>

definition oversize :: "int list \<Rightarrow> int \<Rightarrow> request_item \<Rightarrow> bool" where
  "oversize cap bs item \<longleftrightarrow> (\<forall>c \<in> set cap. c < blocks bs (ri_prefill_len item, ri_output_len item))"

lemma committed_nonneg:
  assumes "dp_inv cap s" and "\<forall>(p, l) \<in> ran (seq_max_len s). 0 \<le> p \<and> 0 \<le> l"
  shows "0 \<le> committed s r"
  unfolding committed_def
proof (rule sum_nonneg)
  fix i assume "i \<in> {i. seq_ranks s i = Some r}"
  then obtain p l where "seq_max_len s i = Some (p, l)"
    using assms(1) by (fastforce simp: dp_inv_def)
  moreover have "0 < block_size s" using assms(1) by (simp add: dp_inv_def dp_wf_def)
  ultimately show "0 \<le> blocks (block_size s) (the (seq_max_len s i))"
    using assms(2) by (fastforce intro: blocks_nonneg simp: ran_def)
qed

section \<open>What a policy promises\<close>

text \<open>
  \<open>dp_policy\<close>: a policy never raises on a well-formed state, changes nothing but its round-robin
  cursor, and answers a rank of the machine or a negative number. \<open>capacity_policy\<close>: the rank has
  room for the request, and a negative answer means that no rank has.
\<close>

locale dp_policy =
  fixes sched :: policy and pol_ok :: "dp_state \<Rightarrow> bool"
  assumes sched_total: "dp_wf s \<Longrightarrow> pol_ok s \<Longrightarrow> \<exists>r s'. sched s p l = Ok (r, s')"
    and sched_frame: "dp_wf s \<Longrightarrow> pol_ok s \<Longrightarrow> sched s p l = Ok (r, s') \<Longrightarrow>
      \<exists>c. s' = s\<lparr>cur_rank := c\<rparr> \<and> 0 \<le> c \<and> c < int (dp_size s)"
    and sched_range: "dp_wf s \<Longrightarrow> pol_ok s \<Longrightarrow> sched s p l = Ok (r, s') \<Longrightarrow> r < int (dp_size s)"
    and pol_ok_cong: "pol_ok s \<Longrightarrow> dp_weights s' = dp_weights s \<Longrightarrow> dp_size s' = dp_size s \<Longrightarrow> pol_ok s'"
begin

lemma schedule_one_cases:
  assumes inv: "dp_inv cap s" and ok: "pol_ok s" and fresh: "ri_req_id item \<notin> dom (seq_ranks s)"
  obtains (placed) rank c where "schedule_one sched s item = Ok (rank, placed_at (s\<lparr>cur_rank := c\<rparr>) item rank)"
      and "0 \<le> rank" and "rank < int (dp_size s)" and "dp_inv cap (placed_at (s\<lparr>cur_rank := c\<rparr>) item rank)"
      and "sched s (ri_prefill_len item) (ri_output_len item) = Ok (rank, s\<lparr>cur_rank := c\<rparr>)"
  | (refused) rank c where "schedule_one sched s item = Ok (rank, s\<lparr>cur_rank := c\<rparr>)" and "rank < 0"
      and "dp_inv cap (s\<lparr>cur_rank := c\<rparr>)"
      and "sched s (ri_prefill_len item) (ri_output_len item) = Ok (rank, s\<lparr>cur_rank := c\<rparr>)"
proof -
  have wf: "dp_wf s" using inv by (simp add: dp_inv_def)
  obtain r t where r': "sched s (ri_prefill_len item) (ri_output_len item) = Ok (r, t)"
    using sched_total[OF wf ok] by blast
  obtain c where t: "t = s\<lparr>cur_rank := c\<rparr>" and c: "0 \<le> c" "c < int (dp_size s)"
    using sched_frame[OF wf ok r'] by blast
  note r = r'[unfolded t]
  have com: "committed (s\<lparr>cur_rank := c\<rparr>) q = committed s q" for q by (simp add: committed_def)
  have tinv: "dp_inv cap (s\<lparr>cur_rank := c\<rparr>)"
    using inv c com unfolding dp_inv_def dp_wf_def by auto
  show ?thesis
  proof (cases "r < 0")
    case True
    then have "schedule_one sched s item = Ok (r, s\<lparr>cur_rank := c\<rparr>)"
      by (simp add: schedule_one_def schedule_def r py_get_def)
    with True tinv r show ?thesis by (intro refused)
  next
    case False
    then have rr: "0 \<le> r" "r < int (dp_size s)" using sched_range[OF wf ok r'] by auto
    note a = add_seq_inv[OF tinv, of "ri_req_id item" r "ri_prefill_len item" "ri_output_len item"]
    have "schedule_one sched s item = Ok (r, placed_at (s\<lparr>cur_rank := c\<rparr>) item r)"
      using False a(1) fresh rr by (simp add: schedule_one_def schedule_def r placed_at_def py_get_def)
    moreover have "dp_inv cap (placed_at (s\<lparr>cur_rank := c\<rparr>) item r)"
      using a(2) fresh rr by (simp add: placed_at_def)
    ultimately show ?thesis using rr r by (intro placed)
  qed
qed

definition sys_inv :: "int list \<Rightarrow> dp_sys \<Rightarrow> bool" where
  "sys_inv cap y \<longleftrightarrow> dp_inv cap (dp y) \<and> pol_ok (dp y)
     \<and> distinct (map ri_req_id (held_items y @ waiting_queue (dp y)))
     \<and> ri_req_id ` set (held_items y @ waiting_queue (dp y)) \<inter> dom (seq_ranks (dp y)) = {}
     \<and> (\<forall>item \<in> set (held_items y @ waiting_queue (dp y)). lens_ok item)
     \<and> (\<forall>(p, l) \<in> ran (seq_max_len (dp y)). 0 \<le> p \<and> 0 \<le> l)
     \<and> (pc y \<noteq> Done \<longrightarrow> map fst (submitted y) @ held_items y @ waiting_queue (dp y) = arrived y)"

text \<open>One admission attempt from a well-formed state with the request's id unused.\<close>

lemma schedule_one_inv:
  assumes "dp_inv cap s" and "pol_ok s" and "ri_req_id item \<notin> dom (seq_ranks s)"
    and s1: "schedule_one sched s item = Ok (rank, s')"
    and lens: "lens_ok item" "\<forall>(p, l) \<in> ran (seq_max_len s). 0 \<le> p \<and> 0 \<le> l"
  shows "dp_inv cap s' \<and> pol_ok s' \<and> waiting_queue s' = waiting_queue s
    \<and> dom (seq_ranks s') = dom (seq_ranks s) \<union> (if rank \<ge> 0 then {ri_req_id item} else {})
    \<and> (\<forall>(p, l) \<in> ran (seq_max_len s'). 0 \<le> p \<and> 0 \<le> l)
    \<and> end_flag s' = end_flag s \<and> end_event s' = end_event s"
  using assms(1-3)
proof (cases rule: schedule_one_cases)
  case (placed r c)
  then have "rank = r" "s' = placed_at (s\<lparr>cur_rank := c\<rparr>) item r" using s1 by simp_all
  moreover have "pol_ok (placed_at (s\<lparr>cur_rank := c\<rparr>) item r)"
    by (rule pol_ok_cong[OF assms(2)]) (simp_all add: placed_at_def added_def)
  ultimately show ?thesis
    using placed lens by (auto simp: placed_at_def added_def lens_ok_def ran_def)
next
  case (refused r c)
  moreover have "pol_ok (s\<lparr>cur_rank := c\<rparr>)"
    by (rule pol_ok_cong[OF assms(2)]) simp_all
  ultimately show ?thesis using s1 lens by auto
qed

lemma sys_inv_step:
  assumes inv: "sys_inv cap y" and "dp_step sched y y'"
  shows "sys_inv cap y'"
  using assms(2)
proof cases
  case (put item)
  have "ri_req_id item \<notin> ri_req_id ` set (held_items y @ waiting_queue (dp y)) \<union> dom (seq_ranks (dp y))"
    using put(2) by (auto simp: ids_of_def held_items_def split: loop_pc.splits)
  moreover have "dp_inv cap (put_request (dp y) item)" and "pol_ok (put_request (dp y) item)"
    using inv pol_ok_cong[of "dp y"] by (auto simp: sys_inv_def put_request_def dp_inv_def dp_wf_def committed_def)
  ultimately show ?thesis
    using inv put by (auto simp: sys_inv_def put_request_def held_items_def lens_ok_def)
next
  case (admit item rest rank s')
  have "dp_inv cap ((dp y)\<lparr>waiting_queue := rest\<rparr>)" and "pol_ok ((dp y)\<lparr>waiting_queue := rest\<rparr>)"
    using inv pol_ok_cong[of "dp y"] by (auto simp: sys_inv_def dp_inv_def dp_wf_def committed_def)
  from schedule_one_inv[OF this _ admit(6)] show ?thesis
    using inv admit by (auto simp: sys_inv_def held_items_def)
next
  case (hold item rest rank s')
  have "dp_inv cap ((dp y)\<lparr>waiting_queue := rest\<rparr>)" and "pol_ok ((dp y)\<lparr>waiting_queue := rest\<rparr>)"
    using inv pol_ok_cong[of "dp y"] by (auto simp: sys_inv_def dp_inv_def dp_wf_def committed_def)
  from schedule_one_inv[OF this _ hold(6)] show ?thesis
    using inv hold by (auto simp: sys_inv_def held_items_def)
next
  case (retry_admit item rank s')
  have "dp_inv cap ((dp y)\<lparr>sch_event := False\<rparr>)" and "pol_ok ((dp y)\<lparr>sch_event := False\<rparr>)"
    using inv pol_ok_cong[of "dp y"] by (auto simp: sys_inv_def dp_inv_def dp_wf_def committed_def)
  from schedule_one_inv[OF this _ retry_admit(4)] show ?thesis
    using inv retry_admit by (auto simp: sys_inv_def held_items_def)
next
  case (retry_hold item rank s')
  have "dp_inv cap ((dp y)\<lparr>sch_event := False\<rparr>)" and "pol_ok ((dp y)\<lparr>sch_event := False\<rparr>)"
    using inv pol_ok_cong[of "dp y"] by (auto simp: sys_inv_def dp_inv_def dp_wf_def committed_def)
  from schedule_one_inv[OF this _ retry_hold(4)] show ?thesis
    using inv retry_hold by (auto simp: sys_inv_def held_items_def)
next
  case (finish sid s')
  have "sid \<in> dom (seq_ranks (dp y))"
    using finish(2) del_seq_absent[of sid "dp y"] by auto
  then have "del_seq (dp y) sid = Ok (removed (dp y) sid)" and "dp_inv cap (removed (dp y) sid)"
    using del_seq_inv[of cap "dp y" sid] inv by (auto simp: sys_inv_def)
  then have s': "s' = removed (dp y) sid" and "dp_inv cap (removed (dp y) sid)"
    using finish(2) by simp_all
  moreover have "pol_ok (removed (dp y) sid)"
    using inv pol_ok_cong[of "dp y"] by (auto simp: sys_inv_def)
  ultimately show ?thesis
    using inv finish(1) by (auto simp: sys_inv_def held_items_def dest: ran_delete)
next
  case terminate
  have "dp_inv cap ((dp y)\<lparr>end_flag := True, end_event := True\<rparr>)"
    and "pol_ok ((dp y)\<lparr>end_flag := True, end_event := True\<rparr>)"
    using inv pol_ok_cong[of "dp y"] by (auto simp: sys_inv_def dp_inv_def dp_wf_def committed_def)
  then show ?thesis using inv terminate by (auto simp: sys_inv_def held_items_def)
next
  case stop
  then show ?thesis using inv by (auto simp: sys_inv_def held_items_def)
next
  case (stop_drop item rest)
  have "dp_inv cap ((dp y)\<lparr>waiting_queue := rest\<rparr>)" and "pol_ok ((dp y)\<lparr>waiting_queue := rest\<rparr>)"
    using inv pol_ok_cong[of "dp y"] by (auto simp: sys_inv_def dp_inv_def dp_wf_def committed_def)
  then show ?thesis using inv stop_drop by (auto simp: sys_inv_def held_items_def)
qed

lemma sys_inv_reach:
  assumes "dp_reach sched s0 y" and "dp_inv cap s0" and "pol_ok s0" and "waiting_queue s0 = []"
    and "\<forall>(p, l) \<in> ran (seq_max_len s0). 0 \<le> p \<and> 0 \<le> l"
  shows "sys_inv cap y"
  using assms(1)
proof (induction rule: dp_reach.induct)
  case init
  then show ?case using assms(2-5) by (simp add: sys_inv_def held_items_def)
next
  case (step y y')
  then show ?case by (blast intro: sys_inv_step)
qed

end

locale capacity_policy = dp_policy +
  assumes has_room: "dp_wf s \<Longrightarrow> pol_ok s \<Longrightarrow> sched s p l = Ok (r, s') \<Longrightarrow> 0 \<le> r \<Longrightarrow>
      blocks (block_size s) (p, l) \<le> kv_cache_stats s ! nat r"
    and refuses_full: "dp_wf s \<Longrightarrow> pol_ok s \<Longrightarrow> sched s p l = Ok (r, s') \<Longrightarrow> r < 0 \<Longrightarrow>
      0 < blocks (block_size s) (p, l) \<Longrightarrow> x \<in> set (kv_cache_stats s) \<Longrightarrow>
      x < blocks (block_size s) (p, l)"
begin

definition room_inv :: "int list \<Rightarrow> dp_sys \<Rightarrow> bool" where
  "room_inv cap y \<longleftrightarrow> sys_inv cap y \<and> (\<forall>x \<in> set (kv_cache_stats (dp y)). 0 \<le> x)"

lemma schedule_one_room:
  assumes "dp_inv cap s" and "pol_ok s" and "ri_req_id item \<notin> dom (seq_ranks s)"
    and "schedule_one sched s item = Ok (rank, s')" and "\<forall>x \<in> set (kv_cache_stats s). 0 \<le> x"
  shows "\<forall>x \<in> set (kv_cache_stats s'). 0 \<le> x"
  using assms(1-3)
proof (cases rule: schedule_one_cases)
  case (placed r c)
  have "blocks (block_size s) (ri_prefill_len item, ri_output_len item) \<le> kv_cache_stats s ! nat r"
    using has_room[OF _ assms(2) placed(5,2)] assms(1) by (simp add: dp_inv_def)
  moreover have "s' = placed_at (s\<lparr>cur_rank := c\<rparr>) item r" using placed(1) assms(4) by simp
  ultimately show ?thesis
    using assms(5) set_update_subset_insert[of "kv_cache_stats s" "nat r"]
    by (fastforce simp: placed_at_def added_def)
next
  case (refused r c)
  then show ?thesis using assms(4,5) by simp
qed

lemma removed_room:
  assumes "dp_inv cap s" and "i \<in> dom (seq_ranks s)" and "\<forall>x \<in> set (kv_cache_stats s). 0 \<le> x"
    and "\<forall>(p, l) \<in> ran (seq_max_len s). 0 \<le> p \<and> 0 \<le> l"
  shows "\<forall>x \<in> set (kv_cache_stats (removed s i)). 0 \<le> x"
proof -
  obtain r where r: "seq_ranks s i = Some r" using assms(2) by auto
  then have "nat r < length (kv_cache_stats s)"
    using assms(1) by (auto simp: dp_inv_def dp_wf_def ran_def)
  then have "0 \<le> kv_cache_stats s ! nat r" using assms(3) by simp
  moreover obtain p l where pl: "seq_max_len s i = Some (p, l)"
    using assms(1,2) by (fastforce simp: dp_inv_def)
  then have "0 \<le> p" "0 \<le> l" using assms(4) by (auto simp: ran_def)
  then have "0 \<le> blocks (block_size s) (p, l)"
    using assms(1) by (intro blocks_nonneg) (auto simp: dp_inv_def dp_wf_def)
  ultimately show ?thesis
    using assms(3) r pl set_update_subset_insert[of "kv_cache_stats s" "nat r"]
    by (fastforce simp: removed_def Let_def)
qed

lemma room_inv_step:
  assumes "room_inv cap y" and "dp_step sched y y'"
  shows "room_inv cap y'"
proof -
  have inv: "sys_inv cap y" and room: "\<forall>x \<in> set (kv_cache_stats (dp y)). 0 \<le> x"
    using assms(1) by (auto simp: room_inv_def)
  have q: "dp_inv cap ((dp y)\<lparr>waiting_queue := rest\<rparr>)" "pol_ok ((dp y)\<lparr>waiting_queue := rest\<rparr>)" for rest
    using inv pol_ok_cong[of "dp y"] by (auto simp: sys_inv_def dp_inv_def dp_wf_def committed_def)
  have e: "dp_inv cap ((dp y)\<lparr>sch_event := False\<rparr>)" "pol_ok ((dp y)\<lparr>sch_event := False\<rparr>)"
    using inv pol_ok_cong[of "dp y"] by (auto simp: sys_inv_def dp_inv_def dp_wf_def committed_def)
  have "\<forall>x \<in> set (kv_cache_stats (dp y')). 0 \<le> x"
    using assms(2)
  proof cases
    case (admit item rest rank s')
    then show ?thesis
      using schedule_one_room[OF q _ admit(6)] inv room by (auto simp: sys_inv_def held_items_def)
  next
    case (hold item rest rank s')
    then show ?thesis
      using schedule_one_room[OF q _ hold(6)] inv room by (auto simp: sys_inv_def held_items_def)
  next
    case (retry_admit item rank s')
    then show ?thesis
      using schedule_one_room[OF e _ retry_admit(4)] inv room by (auto simp: sys_inv_def held_items_def)
  next
    case (retry_hold item rank s')
    then show ?thesis
      using schedule_one_room[OF e _ retry_hold(4)] inv room by (auto simp: sys_inv_def held_items_def)
  next
    case (finish sid s')
    have mem: "sid \<in> dom (seq_ranks (dp y))"
      using finish(2) del_seq_absent[of sid "dp y"] by auto
    then have "s' = removed (dp y) sid"
      using del_seq_inv[of cap "dp y" sid] inv finish(2) by (auto simp: sys_inv_def)
    then show ?thesis
      using removed_room[OF _ mem room] inv finish(1) by (auto simp: sys_inv_def)
  qed (use room in \<open>auto simp: put_request_def\<close>)
  then show ?thesis
    using sys_inv_step[OF inv assms(2)] by (simp add: room_inv_def)
qed

lemma room_inv_reach:
  assumes "dp_reach sched s0 y" and "dp_inv cap s0" and "pol_ok s0" and "waiting_queue s0 = []"
    and "\<forall>(p, l) \<in> ran (seq_max_len s0). 0 \<le> p \<and> 0 \<le> l"
    and "\<forall>x \<in> set (kv_cache_stats s0). 0 \<le> x"
  shows "room_inv cap y"
  using assms(1)
proof (induction rule: dp_reach.induct)
  case init
  then show ?case
    using sys_inv_reach[OF dp_reach.init assms(2-5)] assms(6) by (simp add: room_inv_def)
next
  case (step y y')
  then show ?case by (blast intro: room_inv_step)
qed

lemma oversize_refused:
  assumes "dp_inv cap s" and "pol_ok s" and "ri_req_id item \<notin> dom (seq_ranks s)"
    and "\<forall>(p, l) \<in> ran (seq_max_len s). 0 \<le> p \<and> 0 \<le> l"
    and "schedule_one sched s item = Ok (rank, s')" and "oversize cap (block_size s) item"
  shows "rank < 0"
  using assms(1-3)
proof (cases rule: schedule_one_cases)
  case (placed r c)
  have "blocks (block_size s) (ri_prefill_len item, ri_output_len item) \<le> kv_cache_stats s ! nat r"
    using has_room[OF _ assms(2) placed(5,2)] assms(1) by (simp add: dp_inv_def)
  moreover have len: "length cap = dp_size s"
    and acc: "\<forall>r < dp_size s. kv_cache_stats s ! r + committed s (int r) = cap ! r"
    using assms(1) unfolding dp_inv_def by blast+
  have "nat r < dp_size s" using placed(2,3) by simp
  then have "kv_cache_stats s ! nat r + committed s (int (nat r)) = cap ! nat r" and "nat r < length cap"
    using acc len by auto
  moreover have "cap ! nat r < blocks (block_size s) (ri_prefill_len item, ri_output_len item)"
    using assms(6) \<open>nat r < length cap\<close> by (auto simp: oversize_def)
  ultimately have False
    using committed_nonneg[OF assms(1,4), of "int (nat r)"] by linarith
  then show ?thesis ..
next
  case (refused r c)
  then show ?thesis using assms(5) by simp
qed

lemma step_block_size:
  assumes "sys_inv cap y" and "dp_step sched y y'"
  shows "block_size (dp y') = block_size (dp y)"
proof -
  have q: "dp_inv cap ((dp y)\<lparr>waiting_queue := rest\<rparr>)" "pol_ok ((dp y)\<lparr>waiting_queue := rest\<rparr>)" for rest
    using assms(1) pol_ok_cong[of "dp y"] by (auto simp: sys_inv_def dp_inv_def dp_wf_def committed_def)
  have e: "dp_inv cap ((dp y)\<lparr>sch_event := False\<rparr>)" "pol_ok ((dp y)\<lparr>sch_event := False\<rparr>)"
    using assms(1) pol_ok_cong[of "dp y"] by (auto simp: sys_inv_def dp_inv_def dp_wf_def committed_def)
  have one: "block_size s' = block_size s"
    if "dp_inv cap s" "pol_ok s" "ri_req_id item \<notin> dom (seq_ranks s)" "schedule_one sched s item = Ok (rank, s')"
    for s item rank s'
    using that(1-3)
  proof (cases rule: schedule_one_cases)
    case (placed r c)
    then show ?thesis using that(4) by (auto simp: placed_at_def added_def)
  next
    case (refused r c)
    then show ?thesis using that(4) by auto
  qed
  show ?thesis
    using assms(2)
  proof cases
    case (admit item rest rank s')
    then show ?thesis using one[OF q _ admit(6)] assms(1) by (auto simp: sys_inv_def held_items_def)
  next
    case (hold item rest rank s')
    then show ?thesis using one[OF q _ hold(6)] assms(1) by (auto simp: sys_inv_def held_items_def)
  next
    case (retry_admit item rank s')
    then show ?thesis using one[OF e _ retry_admit(4)] assms(1) by (auto simp: sys_inv_def held_items_def)
  next
    case (retry_hold item rank s')
    then show ?thesis using one[OF e _ retry_hold(4)] assms(1) by (auto simp: sys_inv_def held_items_def)
  next
    case (finish sid s')
    then show ?thesis by (auto simp: del_seq_def res_simps)
  qed (auto simp: put_request_def)
qed

lemma oversize_step:
  assumes inv: "sys_inv cap y" and "dp_step sched y y'" and "pc y = Holding item"
    and "oversize cap (block_size (dp y)) item"
  shows "pc y' = Holding item \<and> submitted y' = submitted y"
  using assms(2)
proof cases
  case (retry_admit item' rank s')
  have e: "dp_inv cap ((dp y)\<lparr>sch_event := False\<rparr>)" "pol_ok ((dp y)\<lparr>sch_event := False\<rparr>)"
    using inv pol_ok_cong[of "dp y"] by (auto simp: sys_inv_def dp_inv_def dp_wf_def committed_def)
  have "rank < 0"
    using oversize_refused[OF e _ _ retry_admit(4)] inv retry_admit(2) assms(3,4)
    by (auto simp: sys_inv_def held_items_def)
  with retry_admit(5) show ?thesis by simp
qed (use assms(3) in auto)

theorem oversize_holds_forever:
  assumes "(dp_step sched)\<^sup>*\<^sup>* y y'" and "sys_inv cap y" and "pc y = Holding item"
    and "oversize cap (block_size (dp y)) item"
  shows "pc y' = Holding item \<and> submitted y' = submitted y \<and> sys_inv cap y'
    \<and> block_size (dp y') = block_size (dp y)"
  using assms(1)
proof (induction rule: rtranclp_induct)
  case base
  then show ?case using assms(2,3) by simp
next
  case (step y1 y2)
  then show ?case
    using oversize_step[of cap y1 y2 item] sys_inv_step[of cap y1 y2] step_block_size[of cap y1 y2] assms(4)
    by auto
qed

end

section \<open>The policies keep the contract\<close>

lemma max_loop_spec:
  assumes "max_loop stat rank i xs = (stat', rank')"
  shows "stat \<le> stat' \<and> (\<forall>x \<in> set xs. x \<le> stat')
    \<and> (rank' = rank \<and> stat' = stat \<or> (\<exists>k < length xs. rank' = i + int k \<and> xs ! k = stat'))"
  using assms
proof (induction xs arbitrary: stat rank i)
  case Nil
  then show ?case by simp
next
  case (Cons n xs)
  show ?case
  proof (cases "n > stat")
    case True
    with Cons.prems have "max_loop n i (i + 1) xs = (stat', rank')" by simp
    from Cons.IH[OF this] consider "n \<le> stat'" "\<forall>x \<in> set xs. x \<le> stat'" "rank' = i" "stat' = n"
      | k where "n \<le> stat'" "\<forall>x \<in> set xs. x \<le> stat'" "k < length xs" "rank' = i + 1 + int k" "xs ! k = stat'"
      by blast
    then show ?thesis
    proof cases
      case 1
      then show ?thesis using True by (auto intro!: exI[of _ 0])
    next
      case (2 k)
      then show ?thesis using True by (auto intro!: exI[of _ "Suc k"])
    qed
  next
    case False
    with Cons.prems have "max_loop stat rank (i + 1) xs = (stat', rank')" by simp
    from Cons.IH[OF this] consider "stat \<le> stat'" "\<forall>x \<in> set xs. x \<le> stat'" "rank' = rank" "stat' = stat"
      | k where "stat \<le> stat'" "\<forall>x \<in> set xs. x \<le> stat'" "k < length xs" "rank' = i + 1 + int k" "xs ! k = stat'"
      by blast
    then show ?thesis
    proof cases
      case 1
      then show ?thesis using False by auto
    next
      case (2 k)
      then show ?thesis using False by (auto intro!: exI[of _ "Suc k"])
    qed
  qed
qed

lemma sched_max_spec:
  assumes "dp_wf s"
  obtains r where "sched_max s p l = Ok (r, s)" and "r < int (dp_size s)"
    and "0 \<le> r \<Longrightarrow> blocks (block_size s) (p, l) \<le> kv_cache_stats s ! nat r"
    and "r < 0 \<Longrightarrow> 0 < blocks (block_size s) (p, l) \<Longrightarrow>
      \<forall>x \<in> set (kv_cache_stats s). x < blocks (block_size s) (p, l)"
proof -
  obtain st rk where m: "max_loop 0 (-1) 0 (kv_cache_stats s) = (st, rk)" by fastforce
  let ?q = "blocks (block_size s) (p, l)"
  have "sched_max s p l = Ok (if st < ?q then -1 else rk, s)"
    using assms by (simp add: sched_max_def m required_blocks_Ok dp_wf_def)
  then show ?thesis
    by (rule that) (use max_loop_spec[OF m] assms in \<open>auto simp: dp_wf_def split: if_splits\<close>)
qed

interpretation max_policy: capacity_policy sched_max "\<lambda>_. True"
proof unfold_locales
  fix s p l
  assume wf: "dp_wf s"
  obtain r where m: "sched_max s p l = Ok (r, s)" "r < int (dp_size s)"
    "0 \<le> r \<Longrightarrow> blocks (block_size s) (p, l) \<le> kv_cache_stats s ! nat r"
    "r < 0 \<Longrightarrow> 0 < blocks (block_size s) (p, l) \<Longrightarrow>
      \<forall>x \<in> set (kv_cache_stats s). x < blocks (block_size s) (p, l)"
    using sched_max_spec[OF wf] by blast
  show "\<exists>r s'. sched_max s p l = Ok (r, s')" using m(1) by blast
  fix q s'
  assume a: "sched_max s p l = Ok (q, s')"
  then have "s = s\<lparr>cur_rank := cur_rank s\<rparr>" "q = r" "s' = s" using m(1) by simp_all
  then show "\<exists>c. s' = s\<lparr>cur_rank := c\<rparr> \<and> 0 \<le> c \<and> c < int (dp_size s)"
    using wf by (intro exI[of _ "cur_rank s"]) (simp add: dp_wf_def)
  show "q < int (dp_size s)" using m(2) \<open>q = r\<close> by simp
  show "0 \<le> q \<Longrightarrow> blocks (block_size s) (p, l) \<le> kv_cache_stats s ! nat q" using m(3) \<open>q = r\<close> by simp
  show "q < 0 \<Longrightarrow> 0 < blocks (block_size s) (p, l) \<Longrightarrow> x \<in> set (kv_cache_stats s) \<Longrightarrow>
      x < blocks (block_size s) (p, l)" for x using m(4) \<open>q = r\<close> by simp
qed simp

lemma next_rank_wf: "dp_wf s \<Longrightarrow> next_rank s = Ok ((cur_rank s + 1) mod int (dp_size s))"
  by (auto simp: next_rank_def dp_wf_def)

lemma next_rank_range: "dp_wf s \<Longrightarrow> 0 \<le> (cur_rank s + 1) mod int (dp_size s)
    \<and> (cur_rank s + 1) mod int (dp_size s) < int (dp_size s)"
  by (auto simp: dp_wf_def)

interpretation rr_policy: dp_policy sched_rr "\<lambda>_. True"
proof unfold_locales
  fix s p l
  assume wf: "dp_wf s"
  then show "\<exists>r s'. sched_rr s p l = Ok (r, s')" by (simp add: sched_rr_def next_rank_wf)
  fix q s'
  assume "sched_rr s p l = Ok (q, s')"
  then show "\<exists>c. s' = s\<lparr>cur_rank := c\<rparr> \<and> 0 \<le> c \<and> c < int (dp_size s)" and "q < int (dp_size s)"
    using wf next_rank_range[OF wf] by (auto simp: sched_rr_def next_rank_wf dp_wf_def)
qed simp

lemma cap_rr_loop_spec:
  assumes "dp_wf s"
  shows "\<exists>r c. cap_rr_loop k q s = Ok (r, s\<lparr>cur_rank := c\<rparr>) \<and> 0 \<le> c \<and> c < int (dp_size s)
    \<and> r < int (dp_size s) \<and> (0 \<le> r \<longrightarrow> q \<le> kv_cache_stats s ! nat r)
    \<and> (r < 0 \<longrightarrow> (\<forall>j < k. kv_cache_stats s ! nat ((cur_rank s + int j) mod int (dp_size s)) < q))"
  using assms
proof (induction k arbitrary: s)
  case 0
  then show ?case
    by (intro exI[of _ "-1"] exI[of _ "cur_rank s"]) (auto simp: dp_wf_def)
next
  case (Suc k)
  let ?c = "(cur_rank s + 1) mod int (dp_size s)"
  let ?t = "s\<lparr>cur_rank := ?c\<rparr>"
  have cr: "0 \<le> ?c" "?c < int (dp_size s)" using next_rank_range[OF Suc.prems] by auto
  have get: "py_get (kv_cache_stats s) (cur_rank s) = Ok (kv_cache_stats s ! nat (cur_rank s))"
    using Suc.prems by (intro py_get_nonneg) (auto simp: dp_wf_def)
  show ?case
  proof (cases "q \<le> kv_cache_stats s ! nat (cur_rank s)")
    case True
    then have "cap_rr_loop (Suc k) q s = Ok (cur_rank s, ?t)"
      using Suc.prems by (simp add: next_rank_wf get)
    moreover have range: "0 \<le> cur_rank s" "cur_rank s < int (dp_size s)"
      using Suc.prems by (simp_all add: dp_wf_def)
    moreover have "cur_rank s < 0 \<longrightarrow> P" for P using range(1) by linarith
    ultimately show ?thesis
      using True cr by blast
  next
    case False
    have wt: "dp_wf ?t" using Suc.prems cr by (simp add: dp_wf_def)
    have t: "kv_cache_stats ?t = kv_cache_stats s" "dp_size ?t = dp_size s" "cur_rank ?t = ?c"
      "\<And>c. ?t\<lparr>cur_rank := c\<rparr> = s\<lparr>cur_rank := c\<rparr>" by simp_all
    from Suc.IH[OF wt, unfolded t] obtain r c where r: "cap_rr_loop k q ?t = Ok (r, s\<lparr>cur_rank := c\<rparr>)"
      "0 \<le> c" "c < int (dp_size s)" "r < int (dp_size s)" "0 \<le> r \<longrightarrow> q \<le> kv_cache_stats s ! nat r"
      "r < 0 \<longrightarrow> (\<forall>j < k. kv_cache_stats s ! nat ((?c + int j) mod int (dp_size s)) < q)"
      by blast
    have "cap_rr_loop (Suc k) q s = Ok (r, s\<lparr>cur_rank := c\<rparr>)"
      using False Suc.prems r(1) by (simp add: next_rank_wf get)
    moreover have "kv_cache_stats s ! nat ((cur_rank s + int j) mod int (dp_size s)) < q"
      if "r < 0" and "j < Suc k" for j
    proof (cases j)
      case 0
      then show ?thesis using False Suc.prems by (simp add: dp_wf_def)
    next
      case (Suc i)
      have "(?c + int i) mod int (dp_size s) = (cur_rank s + 1 + int i) mod int (dp_size s)"
        by (rule mod_add_left_eq)
      then have "(?c + int i) mod int (dp_size s) = (cur_rank s + int j) mod int (dp_size s)"
        using Suc by (simp only: of_nat_Suc add.assoc add.commute[of "int i"])
      moreover have "kv_cache_stats s ! nat ((?c + int i) mod int (dp_size s)) < q"
        using r(6) that Suc by simp
      ultimately show ?thesis by simp
    qed
    ultimately show ?thesis using r(2-5) by (intro exI[of _ r] exI[of _ c] conjI) simp_all
  qed
qed

lemma rotation_covers:
  fixes n :: nat and c :: int
  assumes "i < n" and "0 \<le> c"
  shows "\<exists>j < n. (c + int j) mod int n = int i"
proof (intro exI conjI)
  have "0 < int n" using assms(1) by simp
  then have "0 \<le> (int i - c) mod int n" and "(int i - c) mod int n < int n" by simp_all
  then show "nat ((int i - c) mod int n) < n" by linarith
  have "(c + int (nat ((int i - c) mod int n))) mod int n = (c + (int i - c)) mod int n"
    using assms(1) by (simp add: mod_add_right_eq)
  also have "\<dots> = int i" using assms(1) by simp
  finally show "(c + int (nat ((int i - c) mod int n))) mod int n = int i" .
qed

interpretation cap_rr_policy: capacity_policy sched_cap_rr "\<lambda>_. True"
proof unfold_locales
  fix s p l
  assume wf: "dp_wf s"
  let ?q = "blocks (block_size s) (p, l)"
  obtain r c where m: "sched_cap_rr s p l = Ok (r, s\<lparr>cur_rank := c\<rparr>)" "0 \<le> c" "c < int (dp_size s)"
    "r < int (dp_size s)" "0 \<le> r \<longrightarrow> ?q \<le> kv_cache_stats s ! nat r"
    "r < 0 \<longrightarrow> (\<forall>j < dp_size s. kv_cache_stats s ! nat ((cur_rank s + int j) mod int (dp_size s)) < ?q)"
    using cap_rr_loop_spec[OF wf, of "dp_size s" ?q] wf
    by (auto simp: sched_cap_rr_def required_blocks_Ok dp_wf_def)
  show "\<exists>r s'. sched_cap_rr s p l = Ok (r, s')" using m(1) by blast
  fix q s'
  assume a: "sched_cap_rr s p l = Ok (q, s')"
  then have qr: "q = r" using m(1) by simp
  show "\<exists>c. s' = s\<lparr>cur_rank := c\<rparr> \<and> 0 \<le> c \<and> c < int (dp_size s)" using a m by auto
  show "q < int (dp_size s)" using m(4) qr by simp
  show "0 \<le> q \<Longrightarrow> ?q \<le> kv_cache_stats s ! nat q" using m(5) qr by simp
  fix x
  assume "q < 0" and "x \<in> set (kv_cache_stats s)"
  then obtain i where i: "i < dp_size s" "x = kv_cache_stats s ! i"
    using wf by (auto simp: in_set_conv_nth dp_wf_def)
  then obtain j where "j < dp_size s" "(cur_rank s + int j) mod int (dp_size s) = int i"
    using rotation_covers[OF i(1), of "cur_rank s"] wf by (auto simp: dp_wf_def)
  moreover have "kv_cache_stats s ! nat ((cur_rank s + int j) mod int (dp_size s)) < ?q"
    using m(6) qr \<open>q < 0\<close> \<open>j < dp_size s\<close> by simp
  ultimately show "x < ?q" using i(2) by simp
qed simp

lemma weighted_loop_spec:
  assumes "i + int (length xs) \<le> int (length ws)" and "0 \<le> i" and "\<forall>w \<in> set ws. 0 \<le> w"
  shows "\<exists>r. weighted_loop q ws rk sc i xs = Ok r
    \<and> (r = rk \<or> (\<exists>k < length xs. r = i + int k \<and> q \<le> xs ! k))
    \<and> (sc < 0 \<and> 0 < q \<and> (\<exists>x \<in> set xs. q \<le> x) \<longrightarrow> (\<exists>k < length xs. r = i + int k \<and> q \<le> xs ! k))"
  using assms(1,2)
proof (induction xs arbitrary: rk sc i)
  case Nil
  then show ?case by simp
next
  case (Cons n xs)
  let ?in = "\<lambda>r. \<exists>k < length xs. r = i + 1 + int k \<and> q \<le> xs ! k"
  let ?in' = "\<lambda>r. \<exists>k < length (n # xs). r = i + int k \<and> q \<le> (n # xs) ! k"
  have ih: "\<exists>r. weighted_loop q ws rk' sc' (i + 1) xs = Ok r \<and> (r = rk' \<or> ?in r)
    \<and> (sc' < 0 \<and> 0 < q \<and> (\<exists>x \<in> set xs. q \<le> x) \<longrightarrow> ?in r)" for rk' sc'
    using Cons.IH[of "i + 1" rk' sc'] Cons.prems by simp
  have lift: "?in' r" if "?in r" for r
  proof -
    from that obtain k where "k < length xs" "r = i + 1 + int k" "q \<le> xs ! k" by blast
    then show ?thesis by (intro exI[of _ "Suc k"]) simp
  qed
  show ?case
  proof (cases "n < q")
    case True
    obtain r where "weighted_loop q ws rk sc (i + 1) xs = Ok r" and "r = rk \<or> ?in r"
      and "sc < 0 \<and> 0 < q \<and> (\<exists>x \<in> set xs. q \<le> x) \<longrightarrow> ?in r"
      using ih by blast
    then have "weighted_loop q ws rk sc i (n # xs) = Ok r" and "r = rk \<or> ?in' r"
      and "sc < 0 \<and> 0 < q \<and> (\<exists>x \<in> set (n # xs). q \<le> x) \<longrightarrow> ?in' r"
      using True lift[of r] by auto
    then show ?thesis by blast
  next
    case False
    have get: "py_get ws i = Ok (ws ! nat i)"
      using Cons.prems by (intro py_get_nonneg) auto
    have w: "0 \<le> ws ! nat i" using Cons.prems assms(3) by simp
    have zero: "?in' i" using False by (intro exI[of _ 0]) simp
    show ?thesis
    proof (cases "rat_of_int n * ws ! nat i > sc")
      case True
      obtain r where "weighted_loop q ws i (rat_of_int n * ws ! nat i) (i + 1) xs = Ok r"
        and "r = i \<or> ?in r"
        using ih by blast
      then have "weighted_loop q ws rk sc i (n # xs) = Ok r" and "?in' r"
        using True False get lift[of r] zero by (auto simp: Let_def)
      then show ?thesis by blast
    next
      case sc: False
      obtain r where "weighted_loop q ws rk sc (i + 1) xs = Ok r" and "r = rk \<or> ?in r"
        using ih by blast
      then have "weighted_loop q ws rk sc i (n # xs) = Ok r" and "r = rk \<or> ?in' r"
        using sc False get lift[of r] by (auto simp: Let_def)
      moreover have "\<not> (sc < 0 \<and> 0 < q)"
      proof
        assume "sc < 0 \<and> 0 < q"
        then have "0 \<le> rat_of_int n * ws ! nat i" using False w by simp
        with sc \<open>sc < 0 \<and> 0 < q\<close> show False by linarith
      qed
      ultimately show ?thesis by blast
    qed
  qed
qed

definition weights_ok :: "dp_state \<Rightarrow> bool" where
  "weights_ok s \<longleftrightarrow> length (dp_weights s) = dp_size s \<and> (\<forall>w \<in> set (dp_weights s). 0 \<le> w)"

interpretation weighted_policy: capacity_policy sched_weighted weights_ok
proof unfold_locales
  fix s p l
  assume wf: "dp_wf s" and ok: "weights_ok s"
  let ?q = "blocks (block_size s) (p, l)"
  obtain r where w: "weighted_loop ?q (dp_weights s) (-1) (-1) 0 (kv_cache_stats s) = Ok r"
    and r: "r = -1 \<or> (\<exists>k < length (kv_cache_stats s). r = 0 + int k \<and> ?q \<le> kv_cache_stats s ! k)"
      "(-1 :: rat) < 0 \<and> 0 < ?q \<and> (\<exists>x \<in> set (kv_cache_stats s). ?q \<le> x)
        \<longrightarrow> (\<exists>k < length (kv_cache_stats s). r = 0 + int k \<and> ?q \<le> kv_cache_stats s ! k)"
    using weighted_loop_spec[of 0 "kv_cache_stats s" "dp_weights s" ?q "-1" "-1"] wf ok
    unfolding dp_wf_def weights_ok_def by auto
  have m: "sched_weighted s p l = Ok (r, s)"
    using wf w by (simp add: sched_weighted_def required_blocks_Ok dp_wf_def)
  show "\<exists>r s'. sched_weighted s p l = Ok (r, s')" using m by blast
  fix q s'
  assume "sched_weighted s p l = Ok (q, s')"
  then have e: "q = r" "s' = s" using m by simp_all
  show "\<exists>c. s' = s\<lparr>cur_rank := c\<rparr> \<and> 0 \<le> c \<and> c < int (dp_size s)"
    using wf e by (intro exI[of _ "cur_rank s"]) (simp add: dp_wf_def)
  show "q < int (dp_size s)" using r(1) e wf by (auto simp: dp_wf_def)
  show "0 \<le> q \<Longrightarrow> ?q \<le> kv_cache_stats s ! nat q" using r(1) e by auto
  fix x
  assume neg: "q < 0" and "0 < ?q" and "x \<in> set (kv_cache_stats s)"
  show "x < ?q"
  proof (rule ccontr)
    assume "\<not> x < ?q"
    then obtain k where "r = 0 + int k"
      using r(2) \<open>0 < ?q\<close> \<open>x \<in> set (kv_cache_stats s)\<close> by (auto simp: not_less)
    then show False using neg e by simp
  qed
qed (simp add: weights_ok_def)

section \<open>Scheduler objects\<close>

lemma start_stats:
  assumes "init_kv_cache_stats s stats = Ok s'"
  shows "\<exists>st. length st = length (kv_cache_stats s) \<and> s' = s\<lparr>kv_cache_stats := st\<rparr>"
  using assms unfolding init_kv_cache_stats_def
proof (rule foldM_invariant[where P = "\<lambda>t. \<exists>st. length st = length (kv_cache_stats s)
      \<and> t = s\<lparr>kv_cache_stats := st\<rparr>", rotated])
  fix t x t'
  assume "\<exists>st. length st = length (kv_cache_stats s) \<and> t = s\<lparr>kv_cache_stats := st\<rparr>"
    and "(case x of (rank, num_blocks) \<Rightarrow>
      rbind (py_set (kv_cache_stats t) rank num_blocks) (\<lambda>st. Ok (t\<lparr>kv_cache_stats := st\<rparr>))) = Ok t'"
  then obtain st st' i v where "length st = length (kv_cache_stats s)" "py_set st i v = Ok st'"
      "t' = s\<lparr>kv_cache_stats := st'\<rparr>"
    by (auto simp: res_simps split: prod.splits)
  then show "\<exists>st. length st = length (kv_cache_stats s) \<and> t' = s\<lparr>kv_cache_stats := st\<rparr>"
    by (auto dest: py_set_length intro!: exI[of _ st'])
qed (rule exI[of _ "kv_cache_stats s"], simp)

text \<open>A scheduler obtained by name and started.\<close>

definition started :: "string \<Rightarrow> nat \<Rightarrow> int \<Rightarrow> rat list option \<Rightarrow> (int \<times> int) list \<Rightarrow> policy \<Rightarrow> dp_state \<Rightarrow> bool" where
  "started name n bs ws stats sched s0 \<longleftrightarrow>
     (\<exists>s. get_dp_scheduler n bs name ws = Ok (sched, s) \<and> dp_start s stats = Ok s0)"

lemma started_init:
  assumes "started name n bs ws stats sched s0" and "0 < n" and "0 < bs"
    and "\<forall>w \<in> set (case ws of None \<Rightarrow> [] | Some xs \<Rightarrow> xs). 0 \<le> w"
  shows "dp_inv (kv_cache_stats s0) s0" and "waiting_queue s0 = []"
    and "seq_max_len s0 = Map.empty" and "block_size s0 = bs" and "dp_size s0 = n"
    and "name = ''weighted'' \<Longrightarrow> weights_ok s0"
    and "(name, sched) \<in> {(''RR'', sched_rr), (''max'', sched_max), (''cap_rr'', sched_cap_rr),
           (''weighted'', sched_weighted)}"
proof -
  obtain s where g: "get_dp_scheduler n bs name ws = Ok (sched, s)" and d: "dp_start s stats = Ok s0"
    using assms(1) by (auto simp: started_def)
  obtain s1 where i: "init_kv_cache_stats s stats = Ok s1" and s0: "s0 = dp_reset s1"
    using d by (auto simp: dp_start_def res_simps)
  have s: "dp_size s = n" "block_size s = bs" "seq_ranks s = Map.empty" "seq_max_len s = Map.empty"
    "cur_rank s = 0" "length (kv_cache_stats s) = n"
    using g by (auto simp: get_dp_scheduler_def weighted_init_def dp_init_def dp_reset_def Let_def res_simps
        split: if_splits option.splits)
  obtain st where st: "length st = n" "s1 = s\<lparr>kv_cache_stats := st\<rparr>"
    using start_stats[OF i] s(6) by auto
  then have s1: "length (kv_cache_stats s1) = n" by simp
  have f: "dp_size s1 = n" "block_size s1 = bs" "seq_ranks s1 = Map.empty" "seq_max_len s1 = Map.empty"
    "cur_rank s1 = 0" "dp_weights s1 = dp_weights s"
    using s by (simp_all add: st)
  show "dp_inv (kv_cache_stats s0) s0"
    using assms(2,3) s1 f by (simp add: s0 dp_reset_def dp_inv_def dp_wf_def committed_def)
  show "waiting_queue s0 = []" "seq_max_len s0 = Map.empty" "block_size s0 = bs" "dp_size s0 = n"
    using f by (simp_all add: s0 dp_reset_def)
  show "(name, sched) \<in> {(''RR'', sched_rr), (''max'', sched_max), (''cap_rr'', sched_cap_rr),
           (''weighted'', sched_weighted)}"
    using g by (auto simp: get_dp_scheduler_def res_simps split: if_splits option.splits)
  show "weights_ok s0" if nm: "name = ''weighted''"
  proof -
    obtain xs where xs: "ws = Some xs" and w: "length xs = n" "dp_weights s = map (\<lambda>w. w / sum_list xs) xs"
      using g[unfolded nm]
      by (auto simp: get_dp_scheduler_def weighted_init_def dp_init_def dp_reset_def Let_def res_simps
          split: if_splits option.splits)
    have nn: "\<forall>w \<in> set xs. 0 \<le> w" using assms(4) xs by simp
    then have "0 \<le> sum_list xs" by (intro sum_list_nonneg) auto
    with nn show ?thesis using w f by (auto simp: weights_ok_def s0 dp_reset_def)
  qed
qed

lemma started_policy:
  assumes "started name n bs ws stats sched s0" and "0 < n" and "0 < bs"
    and "\<forall>w \<in> set (case ws of None \<Rightarrow> [] | Some xs \<Rightarrow> xs). 0 \<le> w"
  shows "\<exists>pol. dp_policy sched pol \<and> pol s0 \<and> (name = ''RR'' \<or> capacity_policy sched pol)"
proof -
  note i = started_init[OF assms]
  from i(7) consider "name = ''RR''" "sched = sched_rr" | "sched = sched_max" | "sched = sched_cap_rr"
    | "sched = sched_weighted" "weights_ok s0" using i(6) by auto
  then show ?thesis
  proof cases
    case 1
    then show ?thesis using rr_policy.dp_policy_axioms by (intro exI[of _ "\<lambda>_. True"]) simp
  next
    case 2
    then show ?thesis using max_policy.dp_policy_axioms max_policy.capacity_policy_axioms
      by (intro exI[of _ "\<lambda>_. True"]) simp
  next
    case 3
    then show ?thesis using cap_rr_policy.dp_policy_axioms cap_rr_policy.capacity_policy_axioms
      by (intro exI[of _ "\<lambda>_. True"]) simp
  next
    case 4
    then show ?thesis using weighted_policy.dp_policy_axioms weighted_policy.capacity_policy_axioms
      by (intro exI[of _ "weights_ok"]) simp
  qed
qed

lemma started_sys_inv:
  assumes "started name n bs ws stats sched s0" and "0 < n" and "0 < bs"
    and "\<forall>w \<in> set (case ws of None \<Rightarrow> [] | Some xs \<Rightarrow> xs). 0 \<le> w"
    and "dp_reach sched s0 y" and "dp_policy sched pol" and "pol s0"
  shows "dp_policy.sys_inv pol (kv_cache_stats s0) y"
  using dp_policy.sys_inv_reach[OF assms(6,5) started_init(1)[OF assms(1-4)] assms(7)
      started_init(2)[OF assms(1-4)]] started_init(3)[OF assms(1-4)] by simp

lemma started_block_size:
  assumes "started name n bs ws stats sched s0" and "0 < n" and "0 < bs"
    and "\<forall>w \<in> set (case ws of None \<Rightarrow> [] | Some xs \<Rightarrow> xs). 0 \<le> w"
    and "dp_reach sched s0 y" and "name \<noteq> ''RR''"
  shows "block_size (dp y) = bs"
proof -
  obtain pol where "dp_policy sched pol \<and> pol s0 \<and> (name = ''RR'' \<or> capacity_policy sched pol)"
    using started_policy[OF assms(1-4)] ..
  then have cp: "dp_policy sched pol" "capacity_policy sched pol" "pol s0" using assms(6) by simp_all
  show ?thesis
    using assms(5)
  proof (induction rule: dp_reach.induct)
    case init
    then show ?case using started_init(4)[OF assms(1-4)] by simp
  next
    case (step y y')
    have "dp_policy.sys_inv pol (kv_cache_stats s0) y" by (rule started_sys_inv[OF assms(1-4) step(1) cp(1,3)])
    from capacity_policy.step_block_size[OF cp(2) this step(2)] show ?case using step(3) by simp
  qed
qed

lemma started_lens:
  assumes "started name n bs ws stats sched s0" and "0 < n" and "0 < bs"
    and "\<forall>w \<in> set (case ws of None \<Rightarrow> [] | Some xs \<Rightarrow> xs). 0 \<le> w" and "dp_reach sched s0 y"
  shows "dp_inv (kv_cache_stats s0) (dp y) \<and> (\<forall>(p, l) \<in> ran (seq_max_len (dp y)). 0 \<le> p \<and> 0 \<le> l)"
proof -
  obtain pol where "dp_policy sched pol \<and> pol s0 \<and> (name = ''RR'' \<or> capacity_policy sched pol)"
    using started_policy[OF assms(1-4)] ..
  then have cp: "dp_policy sched pol" "pol s0" by simp_all
  from started_sys_inv[OF assms(1-5) cp] show ?thesis by (simp add: dp_policy.sys_inv_def[OF cp(1)])
qed

section \<open>A concrete run\<close>

text \<open>
  Two ranks with 4 and 2 free blocks of 16 tokens. A request of 20 tokens is admitted on rank 0,
  then one of 100 tokens, larger than either rank, is held back.
\<close>

definition demo_s0 :: dp_state where
  "demo_s0 = (dp_init 2 16)\<lparr>kv_cache_stats := [4, 2]\<rparr>"

definition small_item :: request_item where
  "small_item = \<lparr>ri_req_id = 7, ri_seq_len = 20, ri_prefill_len = 20, ri_output_len = 10\<rparr>"

definition big_item :: request_item where
  "big_item = \<lparr>ri_req_id = 8, ri_seq_len = 100, ri_prefill_len = 100, ri_output_len = 10\<rparr>"

definition demo_y0 :: dp_sys where
  "demo_y0 = \<lparr>dp = demo_s0, pc = Waiting, arrived = [], submitted = []\<rparr>"

definition demo_y1 :: dp_sys where
  "demo_y1 = demo_y0\<lparr>dp := put_request (dp demo_y0) small_item, arrived := arrived demo_y0 @ [small_item]\<rparr>"

definition demo_y2 :: dp_sys where
  "demo_y2 = demo_y1\<lparr>dp := placed_at (demo_s0\<lparr>cur_rank := 0\<rparr>) small_item 0,
     submitted := submitted demo_y1 @ [(small_item, 0)]\<rparr>"

definition demo_y3 :: dp_sys where
  "demo_y3 = demo_y2\<lparr>dp := put_request (dp demo_y2) big_item, arrived := arrived demo_y2 @ [big_item]\<rparr>"

definition demo_y4 :: dp_sys where
  "demo_y4 = demo_y3\<lparr>dp := dp demo_y2, pc := Holding big_item\<rparr>"

definition demo_y5 :: dp_sys where
  "demo_y5 = demo_y4\<lparr>dp := (dp demo_y4)\<lparr>end_flag := True, end_event := True\<rparr>\<rparr>"

lemmas demo_defs = demo_s0_def small_item_def big_item_def demo_y0_def demo_y1_def demo_y2_def
  demo_y3_def demo_y4_def demo_y5_def dp_init_def dp_reset_def put_request_def placed_at_def added_def

lemma demo_started: "started ''max'' 2 16 None [(0, 4), (1, 2)] sched_max demo_s0"
  unfolding started_def
  by (intro exI[of _ "dp_init 2 16"])
     (simp add: get_dp_scheduler_def demo_s0_def dp_init_def dp_reset_def dp_start_def init_kv_cache_stats_def
       py_set_def numeral_2_eq_2)

lemma demo_y2_reach: "dp_reach sched_max demo_s0 demo_y2"
proof -
  have "dp_reach sched_max demo_s0 demo_y0" unfolding demo_y0_def by (rule dp_reach.init)
  moreover have "dp_step sched_max demo_y0 demo_y1"
    unfolding demo_y1_def by (rule dp_step.put) (simp_all add: ids_of_def demo_defs)
  moreover have "dp_step sched_max demo_y1 demo_y2"
    unfolding demo_y2_def
    by (rule dp_step.admit[where item = small_item and rest = "[]"])
       (simp_all add: demo_defs schedule_one_def schedule_def sched_max_def required_blocks_def add_seq_def
         py_get_def py_set_def blocks_def)
  ultimately show ?thesis by (blast intro: dp_reach.step)
qed

lemma demo_y4_reach: "dp_reach sched_max demo_s0 demo_y4"
proof -
  have "dp_step sched_max demo_y2 demo_y3"
    unfolding demo_y3_def by (rule dp_step.put) (auto simp: ids_of_def demo_defs)
  moreover have "dp_step sched_max demo_y3 demo_y4"
    unfolding demo_y4_def
    by (rule dp_step.hold[where item = big_item and rest = "[]" and rank = "-1"])
       (simp_all add: demo_defs schedule_one_def schedule_def sched_max_def required_blocks_def
         py_get_def py_set_def blocks_def)
  ultimately show ?thesis using demo_y2_reach by (blast intro: dp_reach.step)
qed

lemma demo_y5_step: "dp_step sched_max demo_y4 demo_y5"
  unfolding demo_y5_def by (rule dp_step.terminate)

section \<open>Properties\<close>

text \<open>
  C13: First in, first out, whatever the policy: in every state the waiting loop can reach before
  it stops, the submitted requests, then the one it holds back, then the queue are exactly the
  requests put, in order. None is lost, duplicated or overtaken.
\<close>

theorem admission_is_fifo:
  assumes "started name n bs ws stats sched s0" and "0 < n" and "0 < bs"
    and "\<forall>w \<in> set (case ws of None \<Rightarrow> [] | Some xs \<Rightarrow> xs). 0 \<le> w"
    and "dp_reach sched s0 y" and "pc y \<noteq> Done"
  shows "map fst (submitted y) @ held_items y @ waiting_queue (dp y) = arrived y"
proof -
  obtain pol where "dp_policy sched pol \<and> pol s0 \<and> (name = ''RR'' \<or> capacity_policy sched pol)"
    using started_policy[OF assms(1-4)] ..
  then have cp: "dp_policy sched pol" "pol s0" by simp_all
  from started_sys_inv[OF assms(1-5) cp] show ?thesis
    using assms(6) by (simp add: dp_policy.sys_inv_def[OF cp(1)])
qed

theorem admission_is_fifo_witness:
  "dp_reach sched_max demo_s0 demo_y4 \<and> submitted demo_y4 = [(small_item, 0)]
    \<and> map fst (submitted demo_y4) @ held_items demo_y4 @ waiting_queue (dp demo_y4) = arrived demo_y4"
  using admission_is_fifo[OF demo_started _ _ _ demo_y4_reach] demo_y4_reach
  by (simp add: demo_y4_def) (simp add: demo_defs)

text \<open>
  C6: A scheduler with the max, cap_rr or weighted policy never overcommits a rank. In every
  reachable state the blocks reserved on a rank for the sequences it holds are exactly the blocks
  missing from its free count, and never more than its capacity.
\<close>

theorem capacity_never_overcommitted:
  assumes "started name n bs ws stats sched s0" and "0 < n" and "0 < bs"
    and "\<forall>w \<in> set (case ws of None \<Rightarrow> [] | Some xs \<Rightarrow> xs). 0 \<le> w"
    and "dp_reach sched s0 y" and "name \<noteq> ''RR''"
    and "\<forall>x \<in> set (kv_cache_stats s0). 0 \<le> x" and "r < n"
  shows "committed (dp y) (int r) = kv_cache_stats s0 ! r - kv_cache_stats (dp y) ! r
    \<and> 0 \<le> committed (dp y) (int r) \<and> committed (dp y) (int r) \<le> kv_cache_stats s0 ! r"
proof -
  note i = started_init[OF assms(1-4)]
  obtain pol where "dp_policy sched pol \<and> pol s0 \<and> (name = ''RR'' \<or> capacity_policy sched pol)"
    using started_policy[OF assms(1-4)] ..
  then have cp: "dp_policy sched pol" "capacity_policy sched pol" "pol s0" using assms(6) by simp_all
  have "capacity_policy.room_inv pol (kv_cache_stats s0) y"
    using capacity_policy.room_inv_reach[OF cp(2) assms(5) i(1) cp(3) i(2)] i(3) assms(7) by simp
  then have sys: "dp_policy.sys_inv pol (kv_cache_stats s0) y"
    and nn: "\<forall>x \<in> set (kv_cache_stats (dp y)). 0 \<le> x"
    by (simp_all add: capacity_policy.room_inv_def[OF cp(2)])
  then have inv: "dp_inv (kv_cache_stats s0) (dp y)"
    and lens: "\<forall>(p, l) \<in> ran (seq_max_len (dp y)). 0 \<le> p \<and> 0 \<le> l"
    by (simp_all add: dp_policy.sys_inv_def[OF cp(1)])
  have len: "length (kv_cache_stats s0) = dp_size (dp y)" "length (kv_cache_stats (dp y)) = dp_size (dp y)"
    and acc: "\<forall>r < dp_size (dp y). kv_cache_stats (dp y) ! r + committed (dp y) (int r) = kv_cache_stats s0 ! r"
    using inv unfolding dp_inv_def dp_wf_def by blast+
  have "r < dp_size (dp y)"
    using len(1) i(1,5) assms(8) unfolding dp_inv_def by simp
  then have "kv_cache_stats (dp y) ! r + committed (dp y) (int r) = kv_cache_stats s0 ! r"
    and "0 \<le> kv_cache_stats (dp y) ! r" using acc nn len(2) by auto
  then show ?thesis using committed_nonneg[OF inv lens, of "int r"] by linarith
qed

theorem capacity_never_overcommitted_witness:
  "dp_reach sched_max demo_s0 demo_y4 \<and> committed (dp demo_y4) 0 = 3 \<and> committed (dp demo_y4) 0 \<le> 4"
  using capacity_never_overcommitted[OF demo_started _ _ _ demo_y4_reach, of 0] demo_y4_reach
  by (simp add: demo_defs blocks_def)

text \<open>
  C15: Work conservation: in every reachable state a scheduler with a capacity policy refuses a
  request that needs blocks exactly when no rank has that many free; it never holds back the head
  of the queue while some rank could take it.
\<close>

theorem refuses_iff_no_rank_fits:
  assumes "started name n bs ws stats sched s0" and "0 < n" and "0 < bs"
    and "\<forall>w \<in> set (case ws of None \<Rightarrow> [] | Some xs \<Rightarrow> xs). 0 \<le> w"
    and "dp_reach sched s0 y" and "name \<noteq> ''RR''" and "0 < blocks (block_size (dp y)) (p, l)"
  shows "\<exists>r s'. sched (dp y) p l = Ok (r, s') \<and>
    (r < 0 \<longleftrightarrow> (\<forall>x \<in> set (kv_cache_stats (dp y)). x < blocks (block_size (dp y)) (p, l)))"
proof -
  obtain pol where "dp_policy sched pol \<and> pol s0 \<and> (name = ''RR'' \<or> capacity_policy sched pol)"
    using started_policy[OF assms(1-4)] ..
  then have cp: "dp_policy sched pol" "capacity_policy sched pol" "pol s0" using assms(6) by simp_all
  have "dp_policy.sys_inv pol (kv_cache_stats s0) y" by (rule started_sys_inv[OF assms(1-5) cp(1,3)])
  then have inv: "dp_inv (kv_cache_stats s0) (dp y)" and ok: "pol (dp y)"
    by (simp_all add: dp_policy.sys_inv_def[OF cp(1)])
  then have wf: "dp_wf (dp y)" unfolding dp_inv_def by blast
  then have len: "length (kv_cache_stats (dp y)) = dp_size (dp y)" unfolding dp_wf_def by blast
  obtain r s' where s: "sched (dp y) p l = Ok (r, s')" using dp_policy.sched_total[OF cp(1) wf ok] by blast
  have "\<exists>x \<in> set (kv_cache_stats (dp y)). blocks (block_size (dp y)) (p, l) \<le> x" if "0 \<le> r"
    using capacity_policy.has_room[OF cp(2) wf ok s that] dp_policy.sched_range[OF cp(1) wf ok s] that len
    by (intro bexI[of _ "kv_cache_stats (dp y) ! nat r"]) auto
  moreover have "x < blocks (block_size (dp y)) (p, l)" if "r < 0" "x \<in> set (kv_cache_stats (dp y))" for x
    using capacity_policy.refuses_full[OF cp(2) wf ok s that(1) assms(7) that(2)] .
  ultimately show ?thesis using s by (metis not_less)
qed

theorem refuses_iff_no_rank_fits_witness:
  "\<exists>r s'. sched_max (dp demo_y4) 100 10 = Ok (r, s') \<and> r < 0"
  using refuses_iff_no_rank_fits[OF demo_started _ _ _ demo_y4_reach, of 100 10]
  by (simp add: demo_defs blocks_def)

text \<open>
  C29: Head-of-line blocking: once the loop holds a request that needs more blocks than any rank
  has in total, it holds it in every later state, whatever finishes and even after \<open>terminate\<close>:
  no further request is submitted and the loop task never ends.
\<close>

theorem oversize_request_blocks_the_loop:
  assumes "started name n bs ws stats sched s0" and "0 < n" and "0 < bs"
    and "\<forall>w \<in> set (case ws of None \<Rightarrow> [] | Some xs \<Rightarrow> xs). 0 \<le> w"
    and "dp_reach sched s0 y" and "name \<noteq> ''RR''" and "pc y = Holding item"
    and "oversize (kv_cache_stats s0) (block_size (dp y)) item" and "(dp_step sched)\<^sup>*\<^sup>* y y'"
  shows "pc y' = Holding item \<and> submitted y' = submitted y"
proof -
  obtain pol where "dp_policy sched pol \<and> pol s0 \<and> (name = ''RR'' \<or> capacity_policy sched pol)"
    using started_policy[OF assms(1-4)] ..
  then have cp: "dp_policy sched pol" "capacity_policy sched pol" "pol s0" using assms(6) by simp_all
  have "dp_policy.sys_inv pol (kv_cache_stats s0) y" by (rule started_sys_inv[OF assms(1-5) cp(1,3)])
  from capacity_policy.oversize_holds_forever[OF cp(2) assms(9) this assms(7,8)] show ?thesis by blast
qed

theorem oversize_request_blocks_the_loop_witness:
  "dp_step sched_max demo_y4 demo_y5 \<and> end_event (dp demo_y5) \<and> pc demo_y5 = Holding big_item"
proof -
  have "pc demo_y5 = Holding big_item \<and> submitted demo_y5 = submitted demo_y4"
    by (rule oversize_request_blocks_the_loop[OF demo_started _ _ _ demo_y4_reach, of big_item])
       (simp_all add: r_into_rtranclp[of "dp_step sched_max", OF demo_y5_step], simp_all add: demo_defs oversize_def blocks_def)
  then show ?thesis using demo_y5_step by (simp add: demo_y5_def)
qed

end
