(* ===== verification/Cpp_Block_Manager.thy ===== *)
theory Cpp_Block_Manager
  imports Prelude
begin

text \<open>
  \<^verbatim>\<open>csrc/engine/block_manager.cpp\<close>: the allocator of KV-cache blocks. Blocks wait in a FIFO
  queue; every request owns a block list. \<open>ASSERT\<close> throws a \<open>std::runtime_error\<close>, which reaches
  Python as a \<open>RuntimeError\<close>. Reading a vector out of its range is undefined in C++ and is an
  error value here; a dictionary of block lists is a partial map. Block counts and lengths stay
  far below the width of \<open>int\<close>, so they are integers. The mutex makes every queue operation atomic.
\<close>

section \<open>C++ arithmetic and vectors\<close>

definition c_assert :: "bool \<Rightarrow> unit res" where
  "c_assert b = (if b then Ok () else Raise RuntimeError)"

lemma c_assert_simps [simp, res_simps]:
  "c_assert b = Ok u \<longleftrightarrow> b" "c_assert b = Raise e \<longleftrightarrow> \<not> b \<and> e = RuntimeError"
  by (auto simp: c_assert_def)

lemma c_assert_True [simp]: "c_assert True = Ok ()" "c_assert False = Raise RuntimeError"
  by (simp_all add: c_assert_def)

text \<open>Integer division truncates towards zero.\<close>

definition c_div :: "int \<Rightarrow> int \<Rightarrow> int" where
  "c_div a b = (if (a < 0) = (b < 0) then \<bar>a\<bar> div \<bar>b\<bar> else - (\<bar>a\<bar> div \<bar>b\<bar>))"

definition c_mod :: "int \<Rightarrow> int \<Rightarrow> int" where
  "c_mod a b = a - c_div a b * b"

lemma c_div_nonneg [simp]: "0 \<le> a \<Longrightarrow> 0 < b \<Longrightarrow> c_div a b = a div b"
  by (simp add: c_div_def)

lemma c_mod_nonneg [simp]: "0 \<le> a \<Longrightarrow> 0 < b \<Longrightarrow> c_mod a b = a mod b"
  by (simp add: c_mod_def minus_div_mult_eq_mod)

definition vec_get :: "'a list \<Rightarrow> int \<Rightarrow> 'a res" where
  "vec_get xs i = (if 0 \<le> i \<and> i < int (length xs) then Ok (xs ! nat i) else Raise IndexError)"

lemma vec_get_eq_Ok [res_simps]: "vec_get xs i = Ok x \<longleftrightarrow> 0 \<le> i \<and> i < int (length xs) \<and> x = xs ! nat i"
  by (auto simp: vec_get_def)

lemma vec_get_in [simp]: "i < length xs \<Longrightarrow> vec_get xs (int i) = Ok (xs ! i)"
  by (simp add: vec_get_def)

section \<open>BlockManager\<close>

record block_manager =
  num_blocks :: int
  reserved_blocks :: int
  bm_block_size :: int
  free_blocks :: "int list"
  block_tables :: "int \<rightharpoonup> int list"

text \<open>The fields of \<open>BatchMetadata\<close> the block managers read; \<open>num_tokens()\<close> is \<open>shape[0]\<close>.\<close>

record batch_meta =
  meta_num_tokens :: nat
  layer_id :: int
  req_ids :: "int list"
  init_prefill_lens :: "int list"
  num_prefill_seqs :: nat
  num_prefill_tokens :: nat
  num_decode_tokens :: nat

definition bm_init :: "int \<Rightarrow> int \<Rightarrow> int \<Rightarrow> block_manager" where
  "bm_init bs nb rb =
     \<lparr> num_blocks = nb, reserved_blocks = rb, bm_block_size = bs,
       free_blocks = [0..nb + rb - 1], block_tables = Map.empty \<rparr>"

definition get_one_free_block :: "block_manager \<Rightarrow> (int \<times> block_manager) res" where
  "get_one_free_block bm =
     (case free_blocks bm of
        [] \<Rightarrow> Raise RuntimeError
      | b # bs \<Rightarrow> Ok (b, bm\<lparr>free_blocks := bs\<rparr>))"

definition num_free_blocks :: "block_manager \<Rightarrow> int" where
  "num_free_blocks bm = int (length (free_blocks bm))"

definition bm_release :: "block_manager \<Rightarrow> int \<Rightarrow> block_manager res" where
  "bm_release bm rid =
     (case block_tables bm rid of
        None \<Rightarrow> Raise RuntimeError
      | Some l \<Rightarrow> Ok (bm\<lparr>free_blocks := free_blocks bm @ l, block_tables := (block_tables bm)(rid := None)\<rparr>))"

definition can_allocate :: "block_manager \<Rightarrow> int \<Rightarrow> bool" where
  "can_allocate bm seq_len =
     (num_free_blocks bm \<ge> c_div (seq_len - 1) (bm_block_size bm) + 1 + reserved_blocks bm)"

definition batch_release :: "block_manager \<Rightarrow> int list \<Rightarrow> block_manager res" where
  "batch_release bm ids = foldM bm_release bm ids"

text \<open>\<open>n\<close> calls of \<open>get_one_free_block\<close>, as the two allocation loops make them.\<close>

fun take_blocks :: "nat \<Rightarrow> block_manager \<Rightarrow> (int list \<times> block_manager) res" where
  "take_blocks 0 bm = Ok ([], bm)"
| "take_blocks (Suc n) bm =
     rbind (get_one_free_block bm) (\<lambda>(b, bm).
     rbind (take_blocks n bm) (\<lambda>(bs, bm). Ok (b # bs, bm)))"

definition allocate :: "block_manager \<Rightarrow> int \<Rightarrow> int \<Rightarrow> block_manager res" where
  "allocate bm rid seq_len =
     rbind (c_assert (block_tables bm rid = None)) (\<lambda>_.
     (let blocks_needed = (if seq_len > 0 then c_div (seq_len - 1) (bm_block_size bm) + 1 else 0) in
      rbind (c_assert (num_free_blocks bm \<ge> blocks_needed + reserved_blocks bm)) (\<lambda>_.
      rbind (take_blocks (nat blocks_needed) bm) (\<lambda>(l, bm).
      Ok (bm\<lparr>block_tables := (block_tables bm)(rid \<mapsto> l)\<rparr>)))))"

definition append_block :: "block_manager \<Rightarrow> int \<Rightarrow> block_manager res" where
  "append_block bm rid =
     rbind (c_assert (num_free_blocks bm > 0)) (\<lambda>_.
     rbind (get_one_free_block bm) (\<lambda>(b, bm).
     (case block_tables bm rid of
        None \<Rightarrow> Raise RuntimeError
      | Some l \<Rightarrow> Ok (bm\<lparr>block_tables := (block_tables bm)(rid \<mapsto> l @ [b])\<rparr>))))"

definition can_append :: "block_manager \<Rightarrow> bool" where
  "can_append bm = (num_free_blocks bm > 0)"

definition has_seq_block_list :: "block_manager \<Rightarrow> int \<Rightarrow> bool" where
  "has_seq_block_list bm rid = (block_tables bm rid \<noteq> None)"

definition get_seq_block_ids :: "block_manager \<Rightarrow> int \<Rightarrow> int list res" where
  "get_seq_block_ids bm rid =
     (case block_tables bm rid of None \<Rightarrow> Raise RuntimeError | Some l \<Rightarrow> Ok l)"

definition append_tokens :: "block_manager \<Rightarrow> int \<Rightarrow> int \<Rightarrow> int \<Rightarrow> block_manager res" where
  "append_tokens bm rid context_len num_tokens =
     rbind (c_assert (num_tokens \<ge> 1)) (\<lambda>_.
     rbind (get_seq_block_ids bm rid) (\<lambda>l.
     rbind (c_assert (context_len \<ge> 0)) (\<lambda>_.
     (let bs = bm_block_size bm;
          r = bs - c_mod context_len bs;
          remain_slots = (if r = bs then 0 else r)
      in
      if num_tokens > remain_slots then
        (let blocks_to_add = c_div (num_tokens - remain_slots - 1) bs + 1 in
         rbind (c_assert (num_free_blocks bm > blocks_to_add)) (\<lambda>_.
         rbind (take_blocks (nat blocks_to_add) bm) (\<lambda>(new, bm).
         Ok (bm\<lparr>block_tables := (block_tables bm)(rid \<mapsto> l @ new)\<rparr>))))
      else Ok bm))))"

text \<open>\<open>update_block_table\<close>: allocate for the new requests, then append a slot for every request.\<close>

definition allocate_init :: "batch_meta \<Rightarrow> block_manager \<Rightarrow> nat \<Rightarrow> block_manager res" where
  "allocate_init meta bm i =
     rbind (vec_get (req_ids meta) (int i)) (\<lambda>rid.
     if has_seq_block_list bm rid then Ok bm
     else rbind (vec_get (init_prefill_lens meta) (int i)) (\<lambda>l. allocate bm rid l))"

definition append_slot :: "batch_meta \<Rightarrow> int list \<Rightarrow> block_manager \<Rightarrow> nat \<Rightarrow> block_manager res" where
  "append_slot meta context_lens bm i =
     rbind (vec_get (req_ids meta) (int i)) (\<lambda>rid.
     rbind (c_assert (has_seq_block_list bm rid)) (\<lambda>_.
     rbind (vec_get context_lens (int i)) (\<lambda>context_len.
     append_tokens bm rid context_len 1)))"

definition bm_update_block_table :: "block_manager \<Rightarrow> batch_meta \<Rightarrow> int list \<Rightarrow> block_manager res" where
  "bm_update_block_table bm meta context_lens =
     rbind (foldM (allocate_init meta) bm [0..<num_prefill_tokens meta]) (\<lambda>bm.
     foldM (append_slot meta context_lens) bm [0..<meta_num_tokens meta])"

section \<open>The tensors of a batch\<close>

text \<open>The block lists of the batch in order, and the width \<open>m\<close> of the table.\<close>

definition batch_lists :: "block_manager \<Rightarrow> batch_meta \<Rightarrow> int list list res" where
  "batch_lists bm meta =
     mapM (\<lambda>i. rbind (vec_get (req_ids meta) (int i)) (get_seq_block_ids bm)) [0..<meta_num_tokens meta]"

definition table_width :: "int list list \<Rightarrow> nat" where
  "table_width ls = foldl (\<lambda>m l. max m (length l)) 0 ls"

text \<open>A row of the table: a vector filled with -1 whose first entries are overwritten.\<close>

definition padded :: "nat \<Rightarrow> int list \<Rightarrow> int list" where
  "padded m l = l @ replicate (m - length l) (- 1)"

definition slot_at :: "int \<Rightarrow> nat \<Rightarrow> int list \<Rightarrow> int list \<Rightarrow> nat \<Rightarrow> int res" where
  "slot_at bs m table decode_seq_lens i =
     rbind (vec_get decode_seq_lens (int i)) (\<lambda>len.
     (let last_idx = len - 1; block_id = c_div last_idx bs; id_in_block = c_mod last_idx bs in
      rbind (vec_get table (int (i * m) + block_id)) (\<lambda>b. Ok (b * bs + id_in_block))))"

text \<open>\<open>prepare_block_table\<close>: table and slots in one vector, the slots written behind the table.\<close>

definition prepare_block_table :: "block_manager \<Rightarrow> batch_meta \<Rightarrow> int list \<Rightarrow> int list res" where
  "prepare_block_table bm meta decode_seq_lens =
     rbind (batch_lists bm meta) (\<lambda>ls.
     (let n = meta_num_tokens meta; m = table_width ls;
          v = concat (map (padded m) ls) @ replicate n (- 1)
      in foldM (\<lambda>v i. rbind (slot_at (bm_block_size bm) m v decode_seq_lens i) (\<lambda>s. Ok (v[n * m + i := s])))
           v [0..<n]))"

text \<open>
  \<open>GdrContext::copy_from_host\<close>: copies into the front of a fixed buffer. An empty vector has a
  null data pointer, which is refused, and so is a copy that does not fit.
\<close>

definition gdr_copy :: "'a list \<Rightarrow> 'a list \<Rightarrow> 'a list res" where
  "gdr_copy buf src =
     (if src = [] then Raise RuntimeError
      else if length src > length buf then Raise RuntimeError
      else Ok (src @ drop (length src) buf))"

definition prepare_block_table_gdr ::
    "block_manager \<Rightarrow> batch_meta \<Rightarrow> int list \<Rightarrow> int list \<Rightarrow> int list \<Rightarrow> (nat \<times> int list \<times> int list) res" where
  "prepare_block_table_gdr bm meta decode_seq_lens block_table_buf slot_mapping_buf =
     rbind (batch_lists bm meta) (\<lambda>ls.
     (let n = meta_num_tokens meta; m = table_width ls; table = concat (map (padded m) ls) in
      rbind (gdr_copy block_table_buf table) (\<lambda>tb.
      rbind (mapM (slot_at (bm_block_size bm) m table decode_seq_lens) [0..<n]) (\<lambda>slots.
      rbind (gdr_copy slot_mapping_buf slots) (\<lambda>sb. Ok (m, tb, sb))))))"

text \<open>The running sums written by \<open>seq_start_loc[i] = seq_start_loc[i - 1] + lens[i - 1]\<close>.\<close>

fun start_locs :: "int \<Rightarrow> int list \<Rightarrow> int list" where
  "start_locs acc [] = [acc]"
| "start_locs acc (l # ls) = acc # start_locs (acc + l) ls"

text \<open>
  \<open>prepare_seq_info\<close> packs lengths, context lengths and start locations in one vector. The
  lengths are copied whole, so a vector of another length than the batch is an error here.
\<close>

definition prepare_seq_info :: "batch_meta \<Rightarrow> int list \<Rightarrow> int list res" where
  "prepare_seq_info meta decode_seq_lens =
     (if length decode_seq_lens \<noteq> meta_num_tokens meta then Raise IndexError
      else Ok (decode_seq_lens @ map (\<lambda>l. l - 1) decode_seq_lens @ start_locs 0 decode_seq_lens))"

definition prepare_seq_info_gdr ::
    "batch_meta \<Rightarrow> int list \<Rightarrow> int list \<Rightarrow> int list \<Rightarrow> int list \<Rightarrow> (int list \<times> int list \<times> int list) res" where
  "prepare_seq_info_gdr meta decode_seq_lens seq_lens_buf context_lens_buf seq_start_loc_buf =
     (if length decode_seq_lens < meta_num_tokens meta then Raise IndexError
      else
        (let lens = take (meta_num_tokens meta) decode_seq_lens in
         rbind (gdr_copy seq_lens_buf lens) (\<lambda>sl.
         rbind (gdr_copy context_lens_buf (map (\<lambda>l. l - 1) lens)) (\<lambda>cl.
         rbind (gdr_copy seq_start_loc_buf (start_locs 0 lens)) (\<lambda>ss. Ok (sl, cl, ss))))))"

section \<open>Conservation of blocks\<close>

definition owned_of :: "(int \<rightharpoonup> int list) \<Rightarrow> int multiset" where
  "owned_of t = (\<Sum>r \<in> dom t. mset (the (t r)))"

definition bm_total :: "block_manager \<Rightarrow> int multiset" where
  "bm_total bm = mset (free_blocks bm) + owned_of (block_tables bm)"

definition bm_wf :: "block_manager \<Rightarrow> bool" where
  "bm_wf bm \<longleftrightarrow> 0 < bm_block_size bm \<and> finite (dom (block_tables bm))"

text \<open>What every operation keeps: the parameters and the set of blocks in circulation.\<close>

definition bm_frame :: "block_manager \<Rightarrow> block_manager \<Rightarrow> bool" where
  "bm_frame bm bm' \<longleftrightarrow> num_blocks bm' = num_blocks bm \<and> reserved_blocks bm' = reserved_blocks bm
     \<and> bm_block_size bm' = bm_block_size bm \<and> bm_wf bm' \<and> bm_total bm' = bm_total bm"

lemma bm_frame_refl: "bm_wf bm \<Longrightarrow> bm_frame bm bm"
  by (simp add: bm_frame_def)

lemma bm_frame_trans: "bm_frame a b \<Longrightarrow> bm_frame b c \<Longrightarrow> bm_frame a c"
  by (simp add: bm_frame_def)

lemma owned_of_extend:
  assumes "finite (dom t)"
  shows "owned_of (t(r \<mapsto> (case t r of None \<Rightarrow> [] | Some l0 \<Rightarrow> l0) @ l)) = owned_of t + mset l"
proof (cases "t r")
  case None
  then have "r \<notin> dom t" by auto
  then have "owned_of (t(r \<mapsto> l)) = mset l + (\<Sum>q \<in> dom t. mset (the ((t(r \<mapsto> l)) q)))"
    using assms by (simp add: owned_of_def)
  also have "(\<Sum>q \<in> dom t. mset (the ((t(r \<mapsto> l)) q))) = owned_of t"
    unfolding owned_of_def using \<open>r \<notin> dom t\<close> by (intro sum.cong) auto
  finally show ?thesis by (simp only: None option.case append_Nil add.commute)
next
  case (Some l0)
  then have d: "dom t = insert r (dom t - {r})" by auto
  have "owned_of (t(r \<mapsto> l0 @ l)) = mset (l0 @ l) + (\<Sum>q \<in> dom t - {r}. mset (the (t q)))"
    unfolding owned_of_def using assms Some
    by (subst sum.remove[of _ r]) (auto intro!: sum.cong)
  also have "\<dots> = (mset l0 + (\<Sum>q \<in> dom t - {r}. mset (the (t q)))) + mset l" by simp
  also have "mset l0 + (\<Sum>q \<in> dom t - {r}. mset (the (t q))) = owned_of t"
    unfolding owned_of_def using assms Some by (subst sum.remove[of _ r]) auto
  finally show ?thesis by (simp only: Some option.case)
qed

lemma owned_of_delete:
  assumes "finite (dom t)" and "t r = Some l"
  shows "owned_of (t(r := None)) + mset l = owned_of t"
proof -
  have "owned_of (t(r := None)) = (\<Sum>q \<in> dom t - {r}. mset (the (t q)))"
    unfolding owned_of_def by (intro sum.cong) auto
  moreover have "owned_of t = mset l + (\<Sum>q \<in> dom t - {r}. mset (the (t q)))"
    unfolding owned_of_def using assms by (subst sum.remove[of _ r]) auto
  ultimately show ?thesis by simp
qed

lemma take_blocks_eq:
  "take_blocks n bm =
     (if n \<le> length (free_blocks bm)
      then Ok (take n (free_blocks bm), bm\<lparr>free_blocks := drop n (free_blocks bm)\<rparr>)
      else Raise RuntimeError)"
proof (induction n arbitrary: bm)
  case 0
  then show ?case by simp
next
  case (Suc n)
  then show ?case by (cases "free_blocks bm") (simp_all add: get_one_free_block_def)
qed

text \<open>A request receives the first \<open>n\<close> free blocks.\<close>

definition grant :: "block_manager \<Rightarrow> int \<Rightarrow> nat \<Rightarrow> block_manager" where
  "grant bm r n = bm\<lparr>free_blocks := drop n (free_blocks bm),
     block_tables := (block_tables bm)(r \<mapsto>
       (case block_tables bm r of None \<Rightarrow> [] | Some l0 \<Rightarrow> l0) @ take n (free_blocks bm))\<rparr>"

lemma grant_frame: "bm_wf bm \<Longrightarrow> bm_frame bm (grant bm r n)"
  using mset_take_drop[of n "free_blocks bm"]
  by (auto simp: bm_frame_def bm_wf_def bm_total_def grant_def owned_of_extend add.assoc add.commute
      simp del: mset_append)

definition nblk :: "int \<Rightarrow> int \<Rightarrow> nat" where
  "nblk bs len = nat ((len + bs - 1) div bs)"

lemma nblk_0 [simp]: "0 < bs \<Longrightarrow> nblk bs 0 = 0"
  by (simp add: nblk_def)

lemma nblk_pos: "0 < bs \<Longrightarrow> 0 < len \<Longrightarrow> int (nblk bs len) = (len - 1) div bs + 1"
proof -
  assume a: "0 < bs" "0 < len"
  have "(len + bs - 1) div bs = (len - 1 + bs) div bs" by (simp add: algebra_simps)
  also have "\<dots> = (len - 1) div bs + 1" using a by (subst div_add_self2) auto
  finally show ?thesis using a by (simp add: nblk_def pos_imp_zdiv_nonneg_iff)
qed

lemma nblk_Suc:
  assumes "0 < bs" and "0 \<le> c"
  shows "nblk bs (c + 1) = nblk bs c + (if c mod bs = 0 then 1 else 0)"
proof (cases "c = 0")
  case True
  then show ?thesis using assms nblk_pos[of bs 1] by simp
next
  case False
  then have p: "int (nblk bs c) = (c - 1) div bs + 1" "int (nblk bs (c + 1)) = c div bs + 1"
    using nblk_pos[of bs c] nblk_pos[of bs "c + 1"] assms by simp_all
  have "c div bs = (c - 1) div bs + (if c mod bs = 0 then 1 else 0)"
  proof (cases "c mod bs = 0")
    case True
    have "c - 1 = bs * (c div bs - 1) + (bs - 1)"
      using True mult_div_mod_eq[of bs c] by (simp add: algebra_simps)
    then have "(c - 1) div bs = c div bs - 1" by (rule int_div_pos_eq) (use assms(1) in auto)
    then show ?thesis using True by simp
  next
    case nz: False
    have "c - 1 = bs * (c div bs) + (c mod bs - 1)" using mult_div_mod_eq[of bs c] by linarith
    moreover have "0 \<le> c mod bs - 1" "c mod bs - 1 < bs"
      using nz assms(1) pos_mod_sign[of bs c] pos_mod_bound[of bs c] by linarith+
    ultimately have "(c - 1) div bs = c div bs" by (rule int_div_pos_eq)
    then show ?thesis using nz by simp
  qed
  with p show ?thesis by (simp split: if_splits)
qed

text \<open>Every operation that changes the tables grants or releases.\<close>

lemma allocate_Ok:
  assumes "bm_wf bm" and "0 \<le> len" and "allocate bm r len = Ok bm'"
  shows "block_tables bm r = None \<and> bm' = grant bm r (nblk (bm_block_size bm) len)
    \<and> nblk (bm_block_size bm) len + nat (reserved_blocks bm) \<le> length (free_blocks bm)"
proof -
  have bs: "0 < bm_block_size bm" using assms(1) by (simp add: bm_wf_def)
  have n: "(if len > 0 then c_div (len - 1) (bm_block_size bm) + 1 else 0) = int (nblk (bm_block_size bm) len)"
    using bs assms(2) nblk_pos[OF bs, of len] by auto
  show ?thesis
    using assms(3) unfolding allocate_def n Let_def
    by (auto simp: res_simps take_blocks_eq grant_def num_free_blocks_def split: if_splits)
qed

lemma append_tokens_Ok:
  assumes "bm_wf bm" and "append_tokens bm r c 1 = Ok bm'"
  shows "0 \<le> c \<and> block_tables bm r \<noteq> None \<and>
    bm' = (if c mod bm_block_size bm = 0 then grant bm r 1 else bm) \<and>
    (c mod bm_block_size bm = 0 \<longrightarrow> 1 < num_free_blocks bm)"
proof -
  have bs: "0 < bm_block_size bm" using assms(1) by (simp add: bm_wf_def)
  obtain l where c: "0 \<le> c" and l: "block_tables bm r = Some l"
    using assms(2) by (auto simp: append_tokens_def get_seq_block_ids_def res_simps split: option.splits)
  have m: "0 \<le> c mod bm_block_size bm" "c mod bm_block_size bm < bm_block_size bm" using bs by auto
  show ?thesis
  proof (cases "c mod bm_block_size bm = 0")
    case True
    then show ?thesis
      using assms(2) c l bs
      by (auto simp: append_tokens_def get_seq_block_ids_def res_simps Let_def take_blocks_eq grant_def
          split: if_splits)
  next
    case False
    then show ?thesis
      using assms(2) c l bs m by (auto simp: append_tokens_def get_seq_block_ids_def Let_def)
  qed
qed

lemma append_tokens_total:
  assumes "bm_wf bm" and "0 \<le> c" and "block_tables bm r \<noteq> None"
    and "c mod bm_block_size bm = 0 \<Longrightarrow> 1 < num_free_blocks bm"
  shows "\<exists>bm'. append_tokens bm r c 1 = Ok bm'"
proof -
  have bs: "0 < bm_block_size bm" using assms(1) by (simp add: bm_wf_def)
  obtain l where l: "block_tables bm r = Some l" using assms(3) by blast
  have m: "0 \<le> c mod bm_block_size bm" "c mod bm_block_size bm < bm_block_size bm" using bs by auto
  show ?thesis
    using assms(2,4) l bs m
    by (cases "c mod bm_block_size bm = 0")
       (auto simp: append_tokens_def get_seq_block_ids_def Let_def take_blocks_eq num_free_blocks_def)
qed

lemma bm_release_Ok:
  assumes "bm_wf bm" and "bm_release bm r = Ok bm'"
  shows "bm_frame bm bm' \<and> block_tables bm r \<noteq> None \<and> block_tables bm' = (block_tables bm)(r := None)"
  using assms owned_of_delete[of "block_tables bm" r]
  by (auto simp: bm_release_def bm_frame_def bm_wf_def bm_total_def add.assoc add.commute split: option.splits)

lemma batch_release_Ok:
  assumes "bm_wf bm" and "batch_release bm ids = Ok bm'"
  shows "bm_frame bm bm' \<and> block_tables bm' = block_tables bm |` (- set ids)"
  using assms
proof (induction ids arbitrary: bm)
  case Nil
  then show ?case by (simp add: batch_release_def bm_frame_refl)
next
  case (Cons i ids)
  then obtain bm1 where b: "bm_release bm i = Ok bm1" and r: "batch_release bm1 ids = Ok bm'"
    by (auto simp: batch_release_def res_simps)
  note f = bm_release_Ok[OF Cons.prems(1) b]
  then have "bm_wf bm1" by (simp add: bm_frame_def)
  note ih = Cons.IH[OF this r]
  have "block_tables bm' = block_tables bm |` (- set (i # ids))"
    using f ih by (auto simp: restrict_map_def fun_eq_iff)
  then show ?case using f ih bm_frame_trans by blast
qed

section \<open>Block lists cover the context\<close>

definition covers :: "block_manager \<Rightarrow> int \<Rightarrow> int \<Rightarrow> bool" where
  "covers bm r len \<longleftrightarrow> (\<exists>l. block_tables bm r = Some l \<and> length l = nblk (bm_block_size bm) len)"

lemma covers_grant:
  assumes "case block_tables bm r of None \<Rightarrow> k = 0 | Some l \<Rightarrow> length l = k" and "n \<le> length (free_blocks bm)"
    and "k + n = nblk (bm_block_size bm) len"
  shows "covers (grant bm r n) r len"
  using assms by (auto simp: covers_def grant_def split: option.splits)

lemma grant_other [simp]: "q \<noteq> r \<Longrightarrow> block_tables (grant bm r n) q = block_tables bm q"
  by (simp add: grant_def)

lemma grant_params [simp]: "bm_block_size (grant bm r n) = bm_block_size bm"
  by (simp add: grant_def)

lemma allocate_init_Ok:
  assumes "bm_wf bm" and "allocate_init meta bm i = Ok bm'" and "\<forall>l \<in> set (init_prefill_lens meta). 0 \<le> l"
    and "i < length (init_prefill_lens meta)"
  shows "i < length (req_ids meta) \<and> bm_frame bm bm'
    \<and> (\<forall>q. q \<noteq> req_ids meta ! i \<longrightarrow> block_tables bm' q = block_tables bm q)
    \<and> (block_tables bm (req_ids meta ! i) = None \<longrightarrow> covers bm' (req_ids meta ! i) (init_prefill_lens meta ! i))
    \<and> (block_tables bm (req_ids meta ! i) \<noteq> None \<longrightarrow> bm' = bm)"
proof -
  let ?r = "req_ids meta ! i" and ?len = "init_prefill_lens meta ! i"
  have i: "i < length (req_ids meta)" using assms(2) by (auto simp: allocate_init_def res_simps)
  show ?thesis
  proof (cases "block_tables bm ?r")
    case None
    have "allocate bm ?r ?len = Ok bm'"
      using assms(2,4) None i by (simp add: allocate_init_def has_seq_block_list_def)
    moreover have "0 \<le> ?len" using assms(3,4) by simp
    ultimately have a: "bm' = grant bm ?r (nblk (bm_block_size bm) ?len)"
      and n: "nblk (bm_block_size bm) ?len \<le> length (free_blocks bm)"
      using allocate_Ok[OF assms(1)] by (auto dest: add_leD1)
    have "covers bm' ?r ?len"
      unfolding a by (rule covers_grant[where k = 0]) (simp_all add: None n)
    then show ?thesis using a i None grant_frame[OF assms(1)] by simp
  next
    case (Some l)
    then have "bm' = bm" using assms(2) i by (simp add: allocate_init_def has_seq_block_list_def)
    then show ?thesis using i Some bm_frame_refl[OF assms(1)] by simp
  qed
qed

lemma append_slot_Ok:
  assumes "bm_wf bm" and "append_slot meta ctx bm i = Ok bm'"
  shows "i < length (req_ids meta) \<and> i < length ctx \<and> bm_frame bm bm'
    \<and> (\<forall>q. q \<noteq> req_ids meta ! i \<longrightarrow> block_tables bm' q = block_tables bm q)
    \<and> (covers bm (req_ids meta ! i) (ctx ! i) \<longrightarrow> covers bm' (req_ids meta ! i) (ctx ! i + 1))"
proof -
  let ?r = "req_ids meta ! i" and ?c = "ctx ! i" and ?bs = "bm_block_size bm"
  have i: "i < length (req_ids meta)" "i < length ctx" and a: "append_tokens bm ?r ?c 1 = Ok bm'"
    using assms(2) by (auto simp: append_slot_def res_simps)
  have bs: "0 < ?bs" using assms(1) by (simp add: bm_wf_def)
  note ok = append_tokens_Ok[OF assms(1) a]
  have c: "covers bm' ?r (?c + 1)" if cv: "covers bm ?r ?c"
  proof (cases "?c mod ?bs = 0")
    case True
    obtain l where l: "block_tables bm ?r = Some l" "length l = nblk ?bs ?c"
      using cv by (auto simp: covers_def)
    have "bm' = grant bm ?r 1" "1 \<le> length (free_blocks bm)"
      using ok True by (auto simp: num_free_blocks_def)
    moreover have "nblk ?bs ?c + 1 = nblk ?bs (?c + 1)" using nblk_Suc[OF bs, of ?c] ok True by simp
    ultimately show ?thesis using covers_grant[where bm = bm and r = ?r and k = "nblk ?bs ?c" and n = 1 and len = "?c + 1"] l
      by simp
  next
    case False
    then show ?thesis using cv ok nblk_Suc[OF bs, of ?c] by (simp add: covers_def)
  qed
  have "bm_frame bm bm'"
    using ok grant_frame[OF assms(1)] bm_frame_refl[OF assms(1)] by (auto split: if_splits)
  moreover have "block_tables bm' q = block_tables bm q" if "q \<noteq> ?r" for q
    using ok that by (auto split: if_splits)
  ultimately show ?thesis using i c by blast
qed

text \<open>The two loops of \<open>update_block_table\<close>, by induction on the number of iterations done.\<close>

lemma allocate_loop:
  assumes "bm_wf bm" and "foldM (allocate_init meta) bm [0..<k] = Ok bm'" and "distinct (req_ids meta)"
    and "\<forall>l \<in> set (init_prefill_lens meta). 0 \<le> l" and "k \<le> length (init_prefill_lens meta)"
    and "\<forall>i < k. block_tables bm (req_ids meta ! i) \<noteq> None \<longrightarrow>
      covers bm (req_ids meta ! i) (init_prefill_lens meta ! i)"
  shows "k \<le> length (req_ids meta) \<and> bm_frame bm bm'
    \<and> (\<forall>i < k. covers bm' (req_ids meta ! i) (init_prefill_lens meta ! i))
    \<and> (\<forall>q. q \<notin> set (take k (req_ids meta)) \<longrightarrow> block_tables bm' q = block_tables bm q)"
  using assms(2,5,6)
proof (induction k arbitrary: bm')
  case 0
  then show ?case using assms(1) by (simp add: bm_frame_refl)
next
  case (Suc k)
  let ?r = "req_ids meta ! k"
  obtain bm1 where b1: "foldM (allocate_init meta) bm [0..<k] = Ok bm1" and b2: "allocate_init meta bm1 k = Ok bm'"
    using Suc.prems(1) by (auto simp: res_simps)
  have ih: "k \<le> length (req_ids meta)" "bm_frame bm bm1"
    "\<And>i. i < k \<Longrightarrow> covers bm1 (req_ids meta ! i) (init_prefill_lens meta ! i)"
    "\<And>q. q \<notin> set (take k (req_ids meta)) \<Longrightarrow> block_tables bm1 q = block_tables bm q"
    using Suc.IH[OF b1] Suc.prems(2,3) by auto
  then have "bm_wf bm1" by (simp add: bm_frame_def)
  note st = allocate_init_Ok[OF this b2 assms(4)]
  have k: "k < length (req_ids meta)" and f: "bm_frame bm bm'"
    and other: "\<And>q. q \<noteq> ?r \<Longrightarrow> block_tables bm' q = block_tables bm1 q"
    using st Suc.prems(2) ih(2) bm_frame_trans by auto
  have "?r \<notin> set (take k (req_ids meta))"
    using assms(3) k by (auto simp: in_set_conv_nth nth_eq_iff_index_eq)
  then have same: "block_tables bm1 ?r = block_tables bm ?r" using ih(4) by blast
  have new: "covers bm' ?r (init_prefill_lens meta ! k)"
  proof (cases "block_tables bm ?r")
    case None
    then show ?thesis using st Suc.prems(2) same by simp
  next
    case (Some l)
    then have "covers bm ?r (init_prefill_lens meta ! k)" using Suc.prems(3) by auto
    moreover have "bm' = bm1" using st Suc.prems(2) same Some by simp
    ultimately show ?thesis using same ih(2) by (simp add: covers_def bm_frame_def)
  qed
  have old: "covers bm' (req_ids meta ! i) (init_prefill_lens meta ! i)" if "i < k" for i
  proof -
    have "req_ids meta ! i \<noteq> ?r" using assms(3) k that by (simp add: nth_eq_iff_index_eq)
    then show ?thesis using other ih(3)[OF that] st Suc.prems(2) by (simp add: covers_def bm_frame_def)
  qed
  have "block_tables bm' q = block_tables bm q" if "q \<notin> set (take (Suc k) (req_ids meta))" for q
    using that other[of q] ih(4)[of q] k by (simp add: take_Suc_conv_app_nth)
  then show ?case using k f new old by (auto simp: less_Suc_eq)
qed

lemma append_loop:
  assumes "bm_wf bm" and "foldM (append_slot meta ctx) bm [0..<k] = Ok bm'" and "distinct (req_ids meta)"
    and "\<forall>i < k. covers bm (req_ids meta ! i) (ctx ! i)"
  shows "k \<le> length (req_ids meta) \<and> bm_frame bm bm'
    \<and> (\<forall>i < k. covers bm' (req_ids meta ! i) (ctx ! i + 1))
    \<and> (\<forall>q. q \<notin> set (take k (req_ids meta)) \<longrightarrow> block_tables bm' q = block_tables bm q)"
  using assms(2,4)
proof (induction k arbitrary: bm')
  case 0
  then show ?case using assms(1) by (simp add: bm_frame_refl)
next
  case (Suc k)
  let ?r = "req_ids meta ! k"
  obtain bm1 where b1: "foldM (append_slot meta ctx) bm [0..<k] = Ok bm1" and b2: "append_slot meta ctx bm1 k = Ok bm'"
    using Suc.prems(1) by (auto simp: res_simps)
  have ih: "bm_frame bm bm1" "\<And>i. i < k \<Longrightarrow> covers bm1 (req_ids meta ! i) (ctx ! i + 1)"
    "\<And>q. q \<notin> set (take k (req_ids meta)) \<Longrightarrow> block_tables bm1 q = block_tables bm q"
    using Suc.IH[OF b1] Suc.prems(2) by auto
  then have "bm_wf bm1" by (simp add: bm_frame_def)
  note st = append_slot_Ok[OF this b2]
  have k: "k < length (req_ids meta)" and f: "bm_frame bm bm'"
    and other: "\<And>q. q \<noteq> ?r \<Longrightarrow> block_tables bm' q = block_tables bm1 q"
    using st ih(1) bm_frame_trans by auto
  have "?r \<notin> set (take k (req_ids meta))"
    using assms(3) k by (auto simp: in_set_conv_nth nth_eq_iff_index_eq)
  then have "covers bm1 ?r (ctx ! k)"
    using ih(1,3) Suc.prems(2) by (auto simp: covers_def bm_frame_def)
  then have new: "covers bm' ?r (ctx ! k + 1)" using st by blast
  have old: "covers bm' (req_ids meta ! i) (ctx ! i + 1)" if "i < k" for i
  proof -
    have "req_ids meta ! i \<noteq> ?r" using assms(3) k that by (simp add: nth_eq_iff_index_eq)
    then show ?thesis using other ih(2)[OF that] st by (simp add: covers_def bm_frame_def)
  qed
  have "block_tables bm' q = block_tables bm q" if "q \<notin> set (take (Suc k) (req_ids meta))" for q
    using that other[of q] ih(3)[of q] k by (simp add: take_Suc_conv_app_nth)
  then show ?case using k f new old by (auto simp: less_Suc_eq)
qed

section \<open>Slots\<close>

text \<open>The slot of the token at position \<open>p\<close> in a request with block list \<open>l\<close>.\<close>

definition slot_of :: "int \<Rightarrow> int list \<Rightarrow> int \<Rightarrow> int" where
  "slot_of bs l p = l ! nat (p div bs) * bs + p mod bs"

lemma block_index_in:
  assumes "0 < bs" and "0 \<le> p" and "p < len" and "length l = nblk bs len"
  shows "nat (p div bs) < length l"
proof -
  have "int (length l) = (len - 1) div bs + 1" using nblk_pos[of bs len] assms by simp
  moreover have "p div bs \<le> (len - 1) div bs" using assms by (intro zdiv_mono1) auto
  moreover have "0 \<le> p div bs" using assms by (simp add: pos_imp_zdiv_nonneg_iff)
  ultimately show ?thesis by linarith
qed

lemma owned_count:
  assumes "finite (dom t)" and "t r = Some l"
  shows "count (mset l) b \<le> count (owned_of t) b"
  using owned_of_delete[OF assms] by (metis count_union le_add2)

lemma owned_count2:
  assumes "finite (dom t)" and "t r = Some l" and "t q = Some k" and "r \<noteq> q"
  shows "count (mset l) b + count (mset k) b \<le> count (owned_of t) b"
proof -
  have "(t(r := None)) q = Some k" using assms by simp
  then have "count (mset k) b \<le> count (owned_of (t(r := None))) b"
    using assms(1) by (intro owned_count) auto
  moreover have "count (owned_of t) b = count (owned_of (t(r := None))) b + count (mset l) b"
    using owned_of_delete[OF assms(1,2)] by (metis count_union)
  ultimately show ?thesis by simp
qed

definition bm_exclusive :: "block_manager \<Rightarrow> bool" where
  "bm_exclusive bm \<longleftrightarrow> bm_wf bm \<and> (\<forall>b. count (bm_total bm) b \<le> 1)"

lemma bm_exclusive_frame: "bm_exclusive bm \<Longrightarrow> bm_frame bm bm' \<Longrightarrow> bm_exclusive bm'"
  by (simp add: bm_exclusive_def bm_frame_def)

lemma bm_exclusive_init: "0 < bs \<Longrightarrow> bm_exclusive (bm_init bs nb rb)"
proof -
  have "count (mset [0..nb + rb - 1]) b \<le> 1" for b
    using distinct_iff_count[of "[0..nb + rb - 1]"] by simp
  moreover assume "0 < bs"
  ultimately show ?thesis by (simp add: bm_exclusive_def bm_wf_def bm_init_def bm_total_def owned_of_def)
qed

lemma exclusive_distinct:
  assumes "bm_exclusive bm" and "block_tables bm r = Some l"
  shows "distinct l"
  using owned_count[of "block_tables bm" r l] assms
  by (simp add: bm_exclusive_def bm_wf_def bm_total_def distinct_iff_count) (meson add_leE le_trans)

lemma exclusive_disjoint:
  assumes "bm_exclusive bm" and "block_tables bm r = Some l" and "block_tables bm q = Some k"
    and "b \<in> set l" and "b \<in> set k"
  shows "r = q"
proof (rule ccontr)
  assume "r \<noteq> q"
  then have "count (mset l) b + count (mset k) b \<le> count (owned_of (block_tables bm)) b"
    using assms by (intro owned_count2) (auto simp: bm_exclusive_def bm_wf_def)
  moreover have "count (owned_of (block_tables bm)) b \<le> 1"
    using assms(1) by (simp add: bm_exclusive_def bm_total_def) (meson add_leE)
  moreover have "1 \<le> count (mset l) b" "1 \<le> count (mset k) b"
    using assms(4,5) by (simp_all add: Suc_le_eq)
  ultimately show False by linarith
qed

text \<open>Distinct positions of requests whose lists cover them lie in distinct slots.\<close>

lemma slot_of_inj:
  assumes ex: "bm_exclusive bm" and bs: "bs = bm_block_size bm"
    and l: "block_tables bm r = Some l" "length l = nblk bs len" "0 \<le> p" "p < len"
    and k: "block_tables bm q = Some k" "length k = nblk bs len'" "0 \<le> p'" "p' < len'"
    and eq: "slot_of bs l p = slot_of bs k p'"
  shows "r = q \<and> p = p'"
proof -
  have pos: "0 < bs" using ex bs by (simp add: bm_exclusive_def bm_wf_def)
  have split: "slot_of bs l p div bs = l ! nat (p div bs) \<and> slot_of bs l p mod bs = p mod bs" for l p
    using pos by (simp add: slot_of_def)
  have b: "l ! nat (p div bs) = k ! nat (p' div bs)" and m: "p mod bs = p' mod bs"
    using split[of l p] split[of k p'] eq by simp_all
  have i: "nat (p div bs) < length l" "nat (p' div bs) < length k"
    using block_index_in[OF pos] l k by blast+
  then have rq: "r = q" using exclusive_disjoint[OF ex l(1) k(1)] b by (metis nth_mem)
  then have "l = k" using l(1) k(1) by simp
  then have "nat (p div bs) = nat (p' div bs)"
    using exclusive_distinct[OF ex l(1)] i b by (simp add: nth_eq_iff_index_eq)
  moreover have "0 \<le> p div bs" "0 \<le> p' div bs"
    using pos l(3) k(3) by (simp_all add: pos_imp_zdiv_nonneg_iff)
  ultimately have "p div bs = p' div bs" by (simp add: eq_nat_nat_iff)
  then have "p = p'" using m by (metis mult_div_mod_eq)
  then show ?thesis using rq by simp
qed

section \<open>The tensors hold the block lists and the slots\<close>

lemma foldl_max_ge: "k \<le> foldl (\<lambda>m l. max m (length l)) k ls"
  by (induction ls arbitrary: k) (auto intro: order.trans max.cobounded1)

lemma table_width_ge: "l \<in> set ls \<Longrightarrow> length l \<le> table_width ls"
proof -
  have "l \<in> set ls \<Longrightarrow> length l \<le> foldl (\<lambda>m l. max m (length l)) k ls" for k
  proof (induction ls arbitrary: k)
    case (Cons a ls)
    then show ?case
      using foldl_max_ge[of "max k (length a)" ls] by (cases "l = a") (auto intro: order.trans)
  qed simp
  then show "l \<in> set ls \<Longrightarrow> length l \<le> table_width ls" by (simp add: table_width_def)
qed

lemma concat_uniform_length: "(\<And>x. x \<in> set xss \<Longrightarrow> length x = m) \<Longrightarrow> length (concat xss) = length xss * m"
  by (induction xss) auto

lemma concat_uniform_nth:
  "(\<And>x. x \<in> set xss \<Longrightarrow> length x = m) \<Longrightarrow> i < length xss \<Longrightarrow> j < m \<Longrightarrow>
     concat xss ! (i * m + j) = xss ! i ! j \<and> i * m + j < length (concat xss)"
proof (induction xss arbitrary: i)
  case (Cons x xss)
  have x: "length x = m" using Cons.prems(1) by simp
  show ?case
  proof (cases i)
    case 0
    then show ?thesis using x Cons.prems(3) by (simp add: nth_append)
  next
    case (Suc i')
    then have "concat xss ! (i' * m + j) = xss ! i' ! j \<and> i' * m + j < length (concat xss)"
      using Cons.IH[of i'] Cons.prems by simp
    then show ?thesis using x Suc by (simp add: nth_append add.assoc)
  qed
qed simp

text \<open>A batch whose lists cover its lengths.\<close>

definition batch_ok :: "int \<Rightarrow> int list list \<Rightarrow> int list \<Rightarrow> bool" where
  "batch_ok bs ls lens \<longleftrightarrow> 0 < bs \<and> length lens = length ls
     \<and> (\<forall>i < length ls. 1 \<le> lens ! i \<and> length (ls ! i) = nblk bs (lens ! i))"

definition flat_table :: "int list list \<Rightarrow> int list" where
  "flat_table ls = concat (map (padded (table_width ls)) ls)"

definition slots_of :: "int \<Rightarrow> int list list \<Rightarrow> int list \<Rightarrow> int list" where
  "slots_of bs ls lens = map (\<lambda>i. slot_of bs (ls ! i) (lens ! i - 1)) [0..<length ls]"

lemma padded_length: "length l \<le> m \<Longrightarrow> length (padded m l) = m"
  by (simp add: padded_def)

lemma flat_table_length: "length (flat_table ls) = length ls * table_width ls"
proof -
  have "length x = table_width ls" if "x \<in> set (map (padded (table_width ls)) ls)" for x
    using that table_width_ge[of _ ls] padded_length by auto
  from concat_uniform_length[of "map (padded (table_width ls)) ls", OF this] show ?thesis
    by (simp add: flat_table_def)
qed

lemma slot_at_row:
  assumes ok: "batch_ok bs ls lens" and i: "i < length ls"
  shows "slot_at bs (table_width ls) (flat_table ls @ w) lens i = Ok (slot_of bs (ls ! i) (lens ! i - 1))"
proof -
  let ?m = "table_width ls" and ?p = "lens ! i - 1" and ?l = "ls ! i"
  have bs: "0 < bs" and p: "0 \<le> ?p" "?p < lens ! i" and len: "length ?l = nblk bs (lens ! i)" and il: "i < length lens"
    using ok i by (auto simp: batch_ok_def)
  define j where "j = nat (?p div bs)"
  have j: "j < length ?l" unfolding j_def by (rule block_index_in[OF bs p len])
  then have jm: "j < ?m" using table_width_ge[of ?l ls] i by simp
  have "flat_table ls ! (i * ?m + j) = padded ?m ?l ! j \<and> i * ?m + j < length (flat_table ls)"
    unfolding flat_table_def
    using concat_uniform_nth[of "map (padded ?m) ls" ?m i j] padded_length table_width_ge[of _ ls] i jm by auto
  moreover have "padded ?m ?l ! j = ?l ! j" using j by (simp add: padded_def nth_append)
  moreover have "int (i * ?m) + c_div ?p bs = int (i * ?m + j)"
    using bs p by (simp add: j_def pos_imp_zdiv_nonneg_iff)
  ultimately have "vec_get (flat_table ls @ w) (int (i * ?m) + c_div ?p bs) = Ok (?l ! j)"
    by (simp add: vec_get_def nth_append nat_add_distrib del: of_nat_add of_nat_mult)
  then show ?thesis
    using bs p il by (simp add: slot_at_def Let_def slot_of_def j_def)
qed

lemma slot_loop:
  assumes "batch_ok bs ls lens" and "k \<le> length ls"
  shows "foldM (\<lambda>v i. rbind (slot_at bs (table_width ls) v lens i)
             (\<lambda>s. Ok (v[length ls * table_width ls + i := s])))
           (flat_table ls @ replicate (length ls) (- 1)) [0..<k]
         = Ok (flat_table ls @ take k (slots_of bs ls lens) @ replicate (length ls - k) (- 1))"
  using assms(2)
proof (induction k)
  case 0
  then show ?case by simp
next
  case (Suc k)
  let ?s = "slots_of bs ls lens"
  have k: "k < length ls" using Suc.prems by simp
  have r: "replicate (length ls - k) (- 1 :: int) = - 1 # replicate (length ls - Suc k) (- 1)"
    using k by (metis Suc_diff_Suc replicate_Suc)
  have s: "length ?s = length ls" "?s ! k = slot_of bs (ls ! k) (lens ! k - 1)"
    using k by (simp_all add: slots_of_def)
  have "(flat_table ls @ take k ?s @ replicate (length ls - k) (- 1))[length ls * table_width ls + k := ?s ! k]
      = flat_table ls @ take (Suc k) ?s @ replicate (length ls - Suc k) (- 1)"
    using k s by (simp add: r list_update_append flat_table_length take_Suc_conv_app_nth)
  then show ?case
    using Suc slot_at_row[OF assms(1) k] s(2) by simp
qed

lemma prepare_block_table_eq:
  assumes "batch_lists bm meta = Ok ls" and "batch_ok (bm_block_size bm) ls lens"
  shows "prepare_block_table bm meta lens = Ok (flat_table ls @ slots_of (bm_block_size bm) ls lens)"
proof -
  have n: "meta_num_tokens meta = length ls" using assms(1) by (auto simp: batch_lists_def dest: mapM_length)
  have "length (slots_of (bm_block_size bm) ls lens) = length ls" by (simp add: slots_of_def)
  then show ?thesis
    using slot_loop[OF assms(2), of "length ls"] assms(1)
    by (simp add: prepare_block_table_def Let_def n flat_table_def)
qed

lemma prepare_block_table_gdr_eq:
  assumes "batch_lists bm meta = Ok ls" and "batch_ok (bm_block_size bm) ls lens" and "ls \<noteq> []"
    and "length (flat_table ls) \<le> length tb" and "length ls \<le> length sb"
  shows "prepare_block_table_gdr bm meta lens tb sb =
    Ok (table_width ls, flat_table ls @ drop (length (flat_table ls)) tb,
        slots_of (bm_block_size bm) ls lens @ drop (length ls) sb)"
proof -
  let ?bs = "bm_block_size bm"
  have n: "meta_num_tokens meta = length ls" using assms(1) by (auto simp: batch_lists_def dest: mapM_length)
  have "mapM (slot_at ?bs (table_width ls) (flat_table ls) lens) [0..<length ls] = Ok (slots_of ?bs ls lens)"
    unfolding slots_of_def by (rule mapM_Ok_map) (use slot_at_row[OF assms(2), of _ "[]"] in simp)
  moreover have "flat_table ls \<noteq> []"
  proof -
    have f: "0 < ?bs" "1 \<le> lens ! 0" "length (ls ! 0) = nblk ?bs (lens ! 0)"
      using assms(2,3) by (auto simp: batch_ok_def)
    moreover have "0 \<le> (lens ! 0 - 1) div ?bs" using f by (simp add: pos_imp_zdiv_nonneg_iff)
    ultimately have "0 < length (ls ! 0)" using nblk_pos[of ?bs "lens ! 0"] by linarith
    moreover have "length (ls ! 0) \<le> table_width ls" using table_width_ge[of "ls ! 0" ls] assms(3) by simp
    ultimately have "0 < table_width ls" by linarith
    then show ?thesis using flat_table_length[of ls] assms(3) by auto
  qed
  moreover have "slots_of ?bs ls lens \<noteq> []" "length (slots_of ?bs ls lens) = length ls"
    using assms(3) by (simp_all add: slots_of_def)
  ultimately show ?thesis
    using assms(4,5)
    unfolding prepare_block_table_gdr_def Let_def n flat_table_def[symmetric] assms(1)
    by (simp add: gdr_copy_def)
qed

lemma start_locs_length [simp]: "length (start_locs a ls) = Suc (length ls)"
  by (induction ls arbitrary: a) auto

lemma start_locs_nth: "i \<le> length ls \<Longrightarrow> start_locs a ls ! i = a + sum_list (take i ls)"
proof (induction ls arbitrary: a i)
  case (Cons l ls)
  then show ?case by (cases i) auto
qed simp

section \<open>Enough blocks\<close>

text \<open>
  A budget \<open>B\<close> gives every request of a finite set \<open>D\<close> a number of blocks. While every block list is
  within its budget and the budgets together leave a block to spare, no allocation fails.
\<close>

definition in_budget :: "(int \<Rightarrow> nat) \<Rightarrow> int set \<Rightarrow> block_manager \<Rightarrow> bool" where
  "in_budget B D bm \<longleftrightarrow> bm_wf bm \<and> reserved_blocks bm = 0 \<and> dom (block_tables bm) \<subseteq> D
     \<and> (\<forall>r l. block_tables bm r = Some l \<longrightarrow> length l \<le> B r) \<and> (\<Sum>r \<in> D. B r) < size (bm_total bm)"

lemma size_sum_mset: "finite A \<Longrightarrow> size (\<Sum>x \<in> A. f x) = (\<Sum>x \<in> A. size (f x :: 'a multiset))"
  by (induction rule: finite_induct) auto

lemma budget_leaves_free:
  assumes "in_budget B D bm" and fin: "finite D" and r: "r \<in> D"
    and k: "(case block_tables bm r of None \<Rightarrow> 0 | Some l \<Rightarrow> length l) + k \<le> B r"
  shows "k < length (free_blocks bm)"
proof -
  let ?f = "\<lambda>q. case block_tables bm q of None \<Rightarrow> 0 | Some l \<Rightarrow> length l"
  have wf: "finite (dom (block_tables bm))" "dom (block_tables bm) \<subseteq> D"
    and lt: "(\<Sum>r \<in> D. B r) < size (bm_total bm)"
    and le: "\<And>q. ?f q \<le> B q"
    using assms(1) by (auto simp: in_budget_def bm_wf_def split: option.splits)
  have "size (owned_of (block_tables bm)) = (\<Sum>q \<in> dom (block_tables bm). ?f q)"
    unfolding owned_of_def size_sum_mset[OF wf(1)] by (intro sum.cong) auto
  also have "\<dots> = (\<Sum>q \<in> D. ?f q)"
    using wf fin by (intro sum.mono_neutral_left) (auto simp: domIff split: option.splits)
  finally have used: "size (owned_of (block_tables bm)) = (\<Sum>q \<in> D. ?f q)" .
  have "(\<Sum>q \<in> D. ?f q) + k = (\<Sum>q \<in> D - {r}. ?f q) + (?f r + k)"
    using fin r by (simp add: sum.remove[of _ r])
  also have "\<dots> \<le> (\<Sum>q \<in> D - {r}. B q) + B r" using k le by (intro add_mono sum_mono) auto
  also have "\<dots> = (\<Sum>q \<in> D. B q)" using fin r by (simp add: sum.remove[of _ r])
  finally show ?thesis using lt used by (simp add: bm_total_def)
qed

lemma in_budget_grant:
  assumes "in_budget B D bm" and "r \<in> D" and "n \<le> length (free_blocks bm)"
    and "(case block_tables bm r of None \<Rightarrow> 0 | Some l \<Rightarrow> length l) + n \<le> B r"
  shows "in_budget B D (grant bm r n)"
proof -
  have f: "bm_frame bm (grant bm r n)" using assms(1) by (intro grant_frame) (simp add: in_budget_def)
  have "length l \<le> B q" if "block_tables (grant bm r n) q = Some l" for q l
    using that assms by (cases "q = r") (auto simp: grant_def in_budget_def split: option.splits)
  then show ?thesis using assms(1,2) f by (auto simp: in_budget_def bm_frame_def grant_def)
qed

lemma allocate_init_total:
  assumes w: "in_budget B D bm" and "finite D" and i: "i < length (req_ids meta)" "i < length (init_prefill_lens meta)"
    and "req_ids meta ! i \<in> D" and l0: "0 \<le> init_prefill_lens meta ! i"
    and le: "nblk (bm_block_size bm) (init_prefill_lens meta ! i) \<le> B (req_ids meta ! i)"
  shows "\<exists>bm'. allocate_init meta bm i = Ok bm' \<and> in_budget B D bm'"
proof (cases "block_tables bm (req_ids meta ! i)")
  case None
  let ?r = "req_ids meta ! i" and ?len = "init_prefill_lens meta ! i"
  let ?n = "nblk (bm_block_size bm) ?len"
  have n: "?n < length (free_blocks bm)" using budget_leaves_free[OF w assms(2,5)] None le by simp
  have bs: "0 < bm_block_size bm" "reserved_blocks bm = 0" using w by (simp_all add: in_budget_def bm_wf_def)
  have e: "(if ?len > 0 then c_div (?len - 1) (bm_block_size bm) + 1 else 0) = int ?n"
    using bs l0 nblk_pos[OF bs(1), of ?len] by auto
  have "allocate bm ?r ?len = Ok (grant bm ?r ?n)"
    unfolding allocate_def e Let_def using None n bs by (simp add: num_free_blocks_def take_blocks_eq grant_def)
  then have "allocate_init meta bm i = Ok (grant bm ?r ?n)"
    using None i by (simp add: allocate_init_def has_seq_block_list_def)
  then show ?thesis using in_budget_grant[OF w assms(5), of ?n] n None le by simp
next
  case (Some l)
  then show ?thesis using w i by (simp add: allocate_init_def has_seq_block_list_def)
qed

lemma append_slot_total:
  assumes w: "in_budget B D bm" and "finite D" and i: "i < length (req_ids meta)" "i < length ctx"
    and "req_ids meta ! i \<in> D" and "0 \<le> ctx ! i" and cov: "covers bm (req_ids meta ! i) (ctx ! i)"
    and le: "nblk (bm_block_size bm) (ctx ! i + 1) \<le> B (req_ids meta ! i)"
  shows "\<exists>bm'. append_slot meta ctx bm i = Ok bm' \<and> in_budget B D bm'"
proof -
  let ?r = "req_ids meta ! i" and ?c = "ctx ! i" and ?bs = "bm_block_size bm"
  have wf: "bm_wf bm" and bs: "0 < ?bs" using w by (simp_all add: in_budget_def bm_wf_def)
  obtain l where l: "block_tables bm ?r = Some l" "length l = nblk ?bs ?c" using cov by (auto simp: covers_def)
  have k: "length l + (if ?c mod ?bs = 0 then 1 else 0) \<le> B ?r" using l le nblk_Suc[OF bs assms(6)] by simp
  have free: "1 < length (free_blocks bm)" if "?c mod ?bs = 0"
    using budget_leaves_free[OF w assms(2,5), of 1] l k that by simp
  obtain bm' where a: "append_tokens bm ?r ?c 1 = Ok bm'"
    using append_tokens_total[OF wf assms(6)] l free by (auto simp: num_free_blocks_def)
  have "bm' = (if ?c mod ?bs = 0 then grant bm ?r 1 else bm)" using append_tokens_Ok[OF wf a] by simp
  then have "in_budget B D bm'"
    using w in_budget_grant[OF w assms(5), of 1] l k free by (auto split: if_splits)
  moreover have "append_slot meta ctx bm i = Ok bm'" using a i l by (simp add: append_slot_def has_seq_block_list_def)
  ultimately show ?thesis by blast
qed

lemma allocate_loop_total:
  assumes w: "in_budget B D bm" and fin: "finite D" and D: "set (req_ids meta) \<subseteq> D"
    and k: "k \<le> length (req_ids meta)" "k \<le> length (init_prefill_lens meta)"
    and il: "\<forall>l \<in> set (init_prefill_lens meta). 0 \<le> l"
    and le: "\<forall>i < k. nblk (bm_block_size bm) (init_prefill_lens meta ! i) \<le> B (req_ids meta ! i)"
  shows "\<exists>bm'. foldM (allocate_init meta) bm [0..<k] = Ok bm' \<and> in_budget B D bm'
    \<and> bm_block_size bm' = bm_block_size bm"
  using k le
proof (induction k)
  case 0
  then show ?case using w by simp
next
  case (Suc j)
  then obtain b where b: "foldM (allocate_init meta) bm [0..<j] = Ok b" "in_budget B D b" "bm_block_size b = bm_block_size bm"
    by auto
  have j: "j < length (req_ids meta)" "j < length (init_prefill_lens meta)" using Suc.prems by simp_all
  have d: "req_ids meta ! j \<in> D" "0 \<le> init_prefill_lens meta ! j" using j D il by auto
  have l: "nblk (bm_block_size b) (init_prefill_lens meta ! j) \<le> B (req_ids meta ! j)" using Suc.prems(3) b(3) by simp
  obtain b' where b': "allocate_init meta b j = Ok b'" "in_budget B D b'"
    using allocate_init_total[OF b(2) fin j d l] by blast
  have "bm_wf b" using b(2) by (simp add: in_budget_def)
  from allocate_init_Ok[OF this b'(1) il j(2)] have "bm_block_size b' = bm_block_size bm"
    using b(3) by (simp add: bm_frame_def)
  then show ?case using b(1) b' by simp
qed

lemma append_loop_total:
  assumes w: "in_budget B D bm" and fin: "finite D" and dist: "distinct (req_ids meta)" and D: "set (req_ids meta) \<subseteq> D"
    and k: "k \<le> length (req_ids meta)" "k \<le> length ctx"
    and cov: "\<forall>i < k. covers bm (req_ids meta ! i) (ctx ! i)"
    and le: "\<forall>i < k. 0 \<le> ctx ! i \<and> nblk (bm_block_size bm) (ctx ! i + 1) \<le> B (req_ids meta ! i)"
  shows "\<exists>bm'. foldM (append_slot meta ctx) bm [0..<k] = Ok bm' \<and> in_budget B D bm'"
  using k cov le
proof (induction k)
  case 0
  then show ?case using w by simp
next
  case (Suc j)
  let ?ids = "req_ids meta"
  obtain b where b: "foldM (append_slot meta ctx) bm [0..<j] = Ok b" "in_budget B D b" using Suc by auto
  have wf: "bm_wf bm" using w by (simp add: in_budget_def)
  have al: "bm_frame bm b" "\<forall>q. q \<notin> set (take j ?ids) \<longrightarrow> block_tables b q = block_tables bm q"
    using append_loop[OF wf b(1) dist] Suc.prems(3) by simp_all
  have j: "j < length ?ids" "j < length ctx" using Suc.prems by simp_all
  have "?ids ! j \<notin> set (take j ?ids)" using dist j by (auto simp: in_set_conv_nth nth_eq_iff_index_eq)
  then have c: "covers b (?ids ! j) (ctx ! j)" using al Suc.prems(3) by (simp add: covers_def bm_frame_def)
  have d: "?ids ! j \<in> D" "0 \<le> ctx ! j" using j D Suc.prems(4) by auto
  have l: "nblk (bm_block_size b) (ctx ! j + 1) \<le> B (?ids ! j)" using Suc.prems(4) al(1) by (simp add: bm_frame_def)
  obtain b' where "append_slot meta ctx b j = Ok b'" "in_budget B D b'"
    using append_slot_total[OF b(2) fin j d c l] by blast
  then show ?case using b(1) by simp
qed

lemma bm_update_total:
  assumes w: "in_budget B D bm" and fin: "finite D" and dist: "distinct (req_ids meta)"
    and n: "meta_num_tokens meta = length (req_ids meta)" and D: "set (req_ids meta) \<subseteq> D"
    and k: "num_prefill_tokens meta \<le> length (req_ids meta)" "num_prefill_tokens meta \<le> length (init_prefill_lens meta)"
    and il: "\<forall>l \<in> set (init_prefill_lens meta). 0 \<le> l" and len: "length lens = length (req_ids meta)"
    and new: "\<forall>i < num_prefill_tokens meta. lens ! i = init_prefill_lens meta ! i \<and>
      (block_tables bm (req_ids meta ! i) \<noteq> None \<longrightarrow> covers bm (req_ids meta ! i) (init_prefill_lens meta ! i))"
    and run: "\<forall>i < length (req_ids meta). num_prefill_tokens meta \<le> i \<longrightarrow> covers bm (req_ids meta ! i) (lens ! i)"
    and le: "\<forall>i < length (req_ids meta). 0 \<le> lens ! i \<and> nblk (bm_block_size bm) (lens ! i + 1) \<le> B (req_ids meta ! i)"
  shows "\<exists>bm'. bm_update_block_table bm meta lens = Ok bm'"
proof -
  let ?ids = "req_ids meta" and ?k = "num_prefill_tokens meta" and ?bs = "bm_block_size bm"
  have wf: "bm_wf bm" and bs: "0 < ?bs" using w by (simp_all add: in_budget_def bm_wf_def)
  have mono: "nblk ?bs (lens ! i) \<le> B (?ids ! i)" if "i < length ?ids" for i
    using le that nblk_Suc[OF bs, of "lens ! i"] by (metis add_leD1)
  have "\<forall>i < ?k. nblk ?bs (init_prefill_lens meta ! i) \<le> B (?ids ! i)"
    using mono new k(1) by (metis order_less_le_trans)
  then obtain b where b: "foldM (allocate_init meta) bm [0..<?k] = Ok b" "in_budget B D b" "bm_block_size b = ?bs"
    using allocate_loop_total[OF w fin D k il] by blast
  have al: "\<forall>i < ?k. covers b (?ids ! i) (init_prefill_lens meta ! i)"
    "\<forall>q. q \<notin> set (take ?k ?ids) \<longrightarrow> block_tables b q = block_tables bm q"
    using allocate_loop[OF wf b(1) dist il k(2)] new by simp_all
  have cov: "covers b (?ids ! i) (lens ! i)" if "i < length ?ids" for i
  proof (cases "i < ?k")
    case True
    then show ?thesis using al(1) new by simp
  next
    case False
    then have "?ids ! i \<notin> set (take ?k ?ids)" using dist that by (auto simp: in_set_conv_nth nth_eq_iff_index_eq)
    then show ?thesis using al(2) run False that b(3) by (simp add: covers_def)
  qed
  obtain b' where "foldM (append_slot meta lens) b [0..<length ?ids] = Ok b'"
    using append_loop_total[OF b(2) fin dist D, of "length ?ids" lens] cov le len b(3) by auto
  then show ?thesis using b(1) n by (simp add: bm_update_block_table_def)
qed

end
