(* ===== verification/Block_Manager.thy ===== *)
theory Block_Manager
  imports Cpp_Block_Manager
begin

text \<open>
  \<^verbatim>\<open>disagmoe/block_manager/block_manager.py\<close>, the part that runs on the CPU: the request table
  \<open>ReqManager\<close> (a dictionary or a list), the tensor buffers of a batch, and \<open>CPUBlockManager\<close> on
  top of the C++ block manager. Dictionaries are association lists in insertion order. Tensors
  are the lists of their elements; a buffer from \<open>torch.empty\<close> has unspecified contents, given by
  a parameter.
\<close>

section \<open>ReqManager\<close>

record req_manager =
  max_running_reqs :: nat
  use_list :: bool
  rm_dict :: "(int \<times> int) list"
  rm_list :: "int list"

definition rm_init :: "nat \<Rightarrow> bool \<Rightarrow> req_manager" where
  "rm_init n ul = \<lparr> max_running_reqs = n, use_list = ul, rm_dict = [], rm_list = replicate n 0 \<rparr>"

definition update_decode_seq_lens_dict :: "req_manager \<Rightarrow> int \<Rightarrow> int \<Rightarrow> req_manager" where
  "update_decode_seq_lens_dict m rid len = m\<lparr>rm_dict := AList.update rid len (rm_dict m)\<rparr>"

definition get_decode_seq_lens_dict :: "req_manager \<Rightarrow> int \<Rightarrow> int res" where
  "get_decode_seq_lens_dict m rid = dict_get (map_of (rm_dict m)) rid"

definition get_active_req_ids_dict :: "req_manager \<Rightarrow> int list" where
  "get_active_req_ids_dict m = map fst (rm_dict m)"

definition dict_pop :: "('k \<times> 'v) list \<Rightarrow> 'k \<Rightarrow> ('k \<times> 'v) list res" where
  "dict_pop d k = (case map_of d k of None \<Rightarrow> Raise KeyError | Some _ \<Rightarrow> Ok (AList.delete k d))"

definition release_reqs_dict :: "req_manager \<Rightarrow> int list \<Rightarrow> req_manager res" where
  "release_reqs_dict m ids = rbind (foldM dict_pop (rm_dict m) ids) (\<lambda>d. Ok (m\<lparr>rm_dict := d\<rparr>))"

definition update_decode_seq_lens_list :: "req_manager \<Rightarrow> int \<Rightarrow> int \<Rightarrow> req_manager res" where
  "update_decode_seq_lens_list m rid len =
     rbind (py_set (rm_list m) rid len) (\<lambda>l. Ok (m\<lparr>rm_list := l\<rparr>))"

definition get_decode_seq_lens_list :: "req_manager \<Rightarrow> int \<Rightarrow> int res" where
  "get_decode_seq_lens_list m rid = py_get (rm_list m) rid"

definition get_active_req_ids_list :: "req_manager \<Rightarrow> int list" where
  "get_active_req_ids_list m = map int (filter (\<lambda>i. rm_list m ! i > 0) [0..<max_running_reqs m])"

definition release_reqs_list :: "req_manager \<Rightarrow> int list \<Rightarrow> req_manager res" where
  "release_reqs_list m ids =
     rbind (foldM (\<lambda>l rid. py_set l rid 0) (rm_list m) ids) (\<lambda>l. Ok (m\<lparr>rm_list := l\<rparr>))"

definition get_decode_seq_lens :: "req_manager \<Rightarrow> int \<Rightarrow> int res" where
  "get_decode_seq_lens m rid =
     (if use_list m then get_decode_seq_lens_list m rid else get_decode_seq_lens_dict m rid)"

definition update_decode_seq_lens :: "req_manager \<Rightarrow> int \<Rightarrow> int \<Rightarrow> req_manager res" where
  "update_decode_seq_lens m rid len =
     (if use_list m then update_decode_seq_lens_list m rid len
      else Ok (update_decode_seq_lens_dict m rid len))"

definition get_active_req_ids :: "req_manager \<Rightarrow> int list" where
  "get_active_req_ids m = (if use_list m then get_active_req_ids_list m else get_active_req_ids_dict m)"

definition release_reqs :: "req_manager \<Rightarrow> int list \<Rightarrow> req_manager res" where
  "release_reqs m ids = (if use_list m then release_reqs_list m ids else release_reqs_dict m ids)"

definition rm_reset :: "req_manager \<Rightarrow> req_manager" where
  "rm_reset m = m\<lparr>rm_dict := [], rm_list := replicate (max_running_reqs m) 0\<rparr>"

section \<open>The batch and its tensor buffers\<close>

text \<open>\<open>AttentionScheduleBatch\<close>: the metadata, and the fields the block manager fills in.\<close>

record attn_batch =
  ab_layer_id :: int
  ab_req_ids :: "int list"
  ab_init_prefill_lens :: "int list"
  ab_num_prefill_seqs :: nat
  ab_num_prefill_tokens :: nat
  ab_num_decode_tokens :: nat
  ab_req_indices :: "int list option"
  ab_seq_lens :: "int list option"
  ab_seq_lens_tensor :: "int list option"

definition ab_build :: "batch_meta \<Rightarrow> attn_batch" where
  "ab_build meta =
     \<lparr> ab_layer_id = layer_id meta, ab_req_ids = req_ids meta, ab_init_prefill_lens = init_prefill_lens meta,
       ab_num_prefill_seqs = num_prefill_seqs meta, ab_num_prefill_tokens = num_prefill_tokens meta,
       ab_num_decode_tokens = num_decode_tokens meta,
       ab_req_indices = None, ab_seq_lens = None, ab_seq_lens_tensor = None \<rparr>"

lemma ab_build_simps [simp]:
  "ab_layer_id (ab_build meta) = layer_id meta" "ab_req_ids (ab_build meta) = req_ids meta"
  "ab_init_prefill_lens (ab_build meta) = init_prefill_lens meta"
  "ab_num_prefill_seqs (ab_build meta) = num_prefill_seqs meta"
  "ab_num_prefill_tokens (ab_build meta) = num_prefill_tokens meta"
  "ab_num_decode_tokens (ab_build meta) = num_decode_tokens meta"
  by (simp_all add: ab_build_def)

definition given :: "'a option \<Rightarrow> 'a res" where
  "given x = (case x of None \<Rightarrow> Raise TypeError | Some v \<Rightarrow> Ok v)"

lemma given_simps [simp]: "given (Some v) = Ok v" "given None = Raise TypeError"
  by (simp_all add: given_def)

lemma given_eq_Ok [res_simps]: "given x = Ok v \<longleftrightarrow> x = Some v"
  by (cases x) simp_all

record batch_tensor_buffer =
  tb_block_table :: "int list"
  tb_slot_mapping :: "int list"
  tb_seq_lens :: "int list"
  tb_context_lens :: "int list"
  tb_seq_start_loc :: "int list"
  tb_query_start_loc :: "int list"
  block_table_view :: "int list list"
  slot_mapping_view :: "int list"
  seq_lens_view :: "int list"
  context_lens_view :: "int list"
  seq_start_loc_view :: "int list"
  query_start_loc_view :: "int list"

definition tb_init :: "(nat \<Rightarrow> int) \<Rightarrow> nat \<Rightarrow> nat \<Rightarrow> batch_tensor_buffer" where
  "tb_init junk max_batch_size max_num_pages =
     \<lparr> tb_block_table = map junk [0..<max_batch_size * max_num_pages],
       tb_slot_mapping = map junk [0..<max_batch_size],
       tb_seq_lens = map junk [0..<max_batch_size],
       tb_context_lens = map junk [0..<max_batch_size],
       tb_seq_start_loc = map junk [0..<max_batch_size + 1],
       tb_query_start_loc = map int [0..<max_batch_size + 1],
       block_table_view = [], slot_mapping_view = [], seq_lens_view = [],
       context_lens_view = [], seq_start_loc_view = [], query_start_loc_view = [] \<rparr>"

text \<open>\<open>rebind_1d_tensor\<close> and \<open>rebind_2d_tensor\<close>: a view of the front of a buffer.\<close>

definition rebind_1d :: "int list \<Rightarrow> nat \<Rightarrow> int list res" where
  "rebind_1d base n = (if n > length base then Raise RuntimeError else Ok (take n base))"

definition rows_of :: "nat \<Rightarrow> nat \<Rightarrow> 'a list \<Rightarrow> 'a list list" where
  "rows_of n m xs = map (\<lambda>i. take m (drop (i * m) xs)) [0..<n]"

definition rebind_2d :: "int list \<Rightarrow> nat \<Rightarrow> nat \<Rightarrow> int list list res" where
  "rebind_2d base n m = (if n * m > length base then Raise RuntimeError else Ok (rows_of n m base))"

definition create_view :: "batch_tensor_buffer \<Rightarrow> nat \<Rightarrow> nat \<Rightarrow> batch_tensor_buffer res" where
  "create_view b num_tokens num_pages =
     rbind (rebind_2d (tb_block_table b) num_tokens num_pages) (\<lambda>bt.
     rbind (rebind_1d (tb_slot_mapping b) num_tokens) (\<lambda>sm.
     rbind (rebind_1d (tb_seq_lens b) num_tokens) (\<lambda>sl.
     rbind (rebind_1d (tb_context_lens b) num_tokens) (\<lambda>cl.
     rbind (rebind_1d (tb_seq_start_loc b) (num_tokens + 1)) (\<lambda>ss.
     rbind (rebind_1d (tb_query_start_loc b) (num_tokens + 1)) (\<lambda>qs.
     Ok (b\<lparr>block_table_view := bt, slot_mapping_view := sm, seq_lens_view := sl,
           context_lens_view := cl, seq_start_loc_view := ss, query_start_loc_view := qs\<rparr>)))))))"

text \<open>\<open>t.view(n, -1)\<close> on a one-dimensional tensor.\<close>

definition view_rows :: "nat \<Rightarrow> int list \<Rightarrow> int list list res" where
  "view_rows n xs =
     (if n = 0 \<or> length xs mod n \<noteq> 0 then Raise RuntimeError else Ok (rows_of n (length xs div n) xs))"

record flash_attn_metadata =
  num_prefills :: nat
  fa_num_prefill_tokens :: nat
  fa_num_decode_tokens :: nat
  fa_slot_mapping :: "int list"
  fa_seq_lens :: "int list"
  fa_seq_lens_tensor :: "int list"
  max_query_len :: nat
  max_prefill_seq_len :: nat
  max_decode_seq_len :: int
  max_decode_query_len :: nat
  fa_query_start_loc :: "int list"
  fa_seq_start_loc :: "int list"
  context_lens_tensor :: "int list"
  fa_block_tables :: "int list list"
  use_cuda_graph :: bool
  enable_kv_scales_calculation :: bool

text \<open>\<open>max(xs) if len(xs) > 0 else 0\<close>, and \<open>max(xs)\<close>, which raises on an empty list.\<close>

definition py_max :: "int list \<Rightarrow> int res" where
  "py_max xs = (case xs of [] \<Rightarrow> Raise ValueError | x # xs \<Rightarrow> Ok (foldl max x xs))"

definition max_or_0 :: "int list \<Rightarrow> int" where
  "max_or_0 xs = (case xs of [] \<Rightarrow> 0 | x # xs \<Rightarrow> foldl max x xs)"

section \<open>CPUBlockManager\<close>

record cpu_manager =
  layer_ids :: "int list"
  cb_block_size :: int
  block_mgr :: block_manager
  use_gdr_copy :: bool
  use_rebind :: bool
  req_mgr :: req_manager
  tensor_buffer :: batch_tensor_buffer
  tensor_buffer_alt :: batch_tensor_buffer

text \<open>
  The arguments are the layers of the worker, the configured block size and number of blocks, the
  longest sequence, the largest batch, and the environment switch for GDR copies.
\<close>

definition cpu_init ::
    "(nat \<Rightarrow> int) \<Rightarrow> int list \<Rightarrow> int \<Rightarrow> int \<Rightarrow> int \<Rightarrow> nat \<Rightarrow> nat \<Rightarrow> bool \<Rightarrow> bool \<Rightarrow> cpu_manager res" where
  "cpu_init junk lids bs nb max_seq_len max_batch max_reqs gdr rebind =
     (if bs = 0 then Raise ZeroDivisionError
      else
        (let buf = tb_init junk max_batch (nat (max_seq_len div bs)) in
         Ok \<lparr> layer_ids = lids, cb_block_size = bs, block_mgr = bm_init bs nb 0,
              use_gdr_copy = gdr, use_rebind = rebind, req_mgr = rm_init max_reqs False,
              tensor_buffer = buf, tensor_buffer_alt = buf \<rparr>))"

definition cpu_release_seqs :: "cpu_manager \<Rightarrow> int list \<Rightarrow> cpu_manager res" where
  "cpu_release_seqs c ids =
     rbind (batch_release (block_mgr c) ids) (\<lambda>bm.
     rbind (release_reqs (req_mgr c) ids) (\<lambda>rm.
     Ok (c\<lparr>block_mgr := bm, req_mgr := rm\<rparr>)))"

definition cpu_reset_state :: "cpu_manager \<Rightarrow> cpu_manager res" where
  "cpu_reset_state c =
     rbind (cpu_release_seqs c (get_active_req_ids (req_mgr c))) (\<lambda>c.
     Ok (c\<lparr>req_mgr := rm_reset (req_mgr c)\<rparr>))"

text \<open>The loop that records the prefill length of the new requests.\<close>

definition record_prefills :: "attn_batch \<Rightarrow> req_manager \<Rightarrow> req_manager res" where
  "record_prefills b rm =
     foldM (\<lambda>rm (i, rid). rbind (py_get (ab_init_prefill_lens b) (int i)) (\<lambda>l. update_decode_seq_lens rm rid l))
       rm (enumerate 0 (take (ab_num_prefill_seqs b) (ab_req_ids b)))"

definition cpu_update_block_table ::
    "cpu_manager \<Rightarrow> batch_meta \<Rightarrow> attn_batch \<Rightarrow> (cpu_manager \<times> attn_batch) res" where
  "cpu_update_block_table c meta b =
     rbind (py_get (layer_ids c) 0) (\<lambda>first_layer.
     if ab_layer_id b = first_layer then
       rbind (record_prefills b (req_mgr c)) (\<lambda>rm.
       rbind (mapM (get_decode_seq_lens rm) (ab_req_ids b)) (\<lambda>lens.
       rbind (bm_update_block_table (block_mgr c) meta lens) (\<lambda>bm.
       rbind (foldM (\<lambda>rm (rid, l). update_decode_seq_lens rm rid (l + 1)) rm (zip (ab_req_ids b) lens)) (\<lambda>rm.
       Ok (c\<lparr>block_mgr := bm, req_mgr := rm\<rparr>, b\<lparr>ab_seq_lens := Some (map (\<lambda>l. l + 1) lens)\<rparr>)))))
     else
       rbind (mapM (get_decode_seq_lens (req_mgr c)) (ab_req_ids b)) (\<lambda>lens.
       Ok (c, b\<lparr>ab_seq_lens := Some lens\<rparr>)))"

definition swap_batch_tensor_buffer :: "cpu_manager \<Rightarrow> cpu_manager" where
  "swap_batch_tensor_buffer c =
     c\<lparr>tensor_buffer := tensor_buffer_alt c, tensor_buffer_alt := tensor_buffer c\<rparr>"

definition pack_opt ::
    "cpu_manager \<Rightarrow> batch_meta \<Rightarrow> attn_batch \<Rightarrow> (flash_attn_metadata \<times> cpu_manager \<times> attn_batch) res" where
  "pack_opt c meta b =
     (let num_tokens = ab_num_decode_tokens b + ab_num_prefill_tokens b; buf = tensor_buffer c in
      rbind (given (ab_seq_lens b)) (\<lambda>lens.
      rbind (prepare_block_table_gdr (block_mgr c) meta lens (tb_block_table buf) (tb_slot_mapping buf))
        (\<lambda>(num_pages, bt, sm).
      rbind (prepare_seq_info_gdr meta lens (tb_seq_lens buf) (tb_context_lens buf) (tb_seq_start_loc buf))
        (\<lambda>(sl, cl, ss).
      rbind (create_view (buf\<lparr>tb_block_table := bt, tb_slot_mapping := sm, tb_seq_lens := sl,
               tb_context_lens := cl, tb_seq_start_loc := ss\<rparr>) num_tokens num_pages) (\<lambda>buf.
      Ok (\<lparr> num_prefills = 0, fa_num_prefill_tokens = 0, fa_num_decode_tokens = num_tokens,
            fa_slot_mapping = slot_mapping_view buf, fa_seq_lens = lens,
            fa_seq_lens_tensor = seq_lens_view buf, max_query_len = 0, max_prefill_seq_len = 0,
            max_decode_seq_len = max_or_0 lens, max_decode_query_len = 1,
            fa_query_start_loc = query_start_loc_view buf, fa_seq_start_loc = seq_start_loc_view buf,
            context_lens_tensor = context_lens_view buf, fa_block_tables = block_table_view buf,
            use_cuda_graph = False, enable_kv_scales_calculation = True \<rparr>,
          c\<lparr>tensor_buffer := buf\<rparr>, b\<lparr>ab_seq_lens_tensor := Some (seq_lens_view buf)\<rparr>))))))"

text \<open>Step 1 of the naive routine: the block table and the slot mapping.\<close>

definition naive_block_table ::
    "cpu_manager \<Rightarrow> batch_meta \<Rightarrow> nat \<Rightarrow> int list \<Rightarrow> bool
      \<Rightarrow> (int list list \<times> int list \<times> batch_tensor_buffer) res" where
  "naive_block_table c meta num_tokens lens dummy_cache =
     (let buf = tensor_buffer c in
      if dummy_cache then
        rbind (py_max lens) (\<lambda>mx.
        rbind (view_rows num_tokens (replicate (num_tokens * nat ((mx - 1) div cb_block_size c + 1)) 0)) (\<lambda>bt.
        Ok (bt, replicate num_tokens 0, buf)))
      else if use_gdr_copy c then
        rbind (prepare_block_table_gdr (block_mgr c) meta lens (tb_block_table buf) (tb_slot_mapping buf))
          (\<lambda>(num_pages, tb, sb).
        rbind (view_rows num_tokens (take (num_pages * num_tokens) tb)) (\<lambda>bt.
        Ok (bt, take num_tokens sb, buf\<lparr>tb_block_table := tb, tb_slot_mapping := sb\<rparr>)))
      else
        rbind (prepare_block_table (block_mgr c) meta lens) (\<lambda>v.
        rbind (view_rows num_tokens (but_last_n num_tokens v)) (\<lambda>bt.
        Ok (bt, last_n num_tokens v, buf))))"

text \<open>Step 2: lengths, context lengths and start locations.\<close>

definition naive_seq_info ::
    "cpu_manager \<Rightarrow> batch_tensor_buffer \<Rightarrow> batch_meta \<Rightarrow> nat \<Rightarrow> int list
      \<Rightarrow> (int list \<times> int list \<times> int list \<times> batch_tensor_buffer) res" where
  "naive_seq_info c buf meta num_seqs lens =
     (if use_gdr_copy c then
        rbind (prepare_seq_info_gdr meta lens (tb_seq_lens buf) (tb_context_lens buf) (tb_seq_start_loc buf))
          (\<lambda>(sl, cl, ss).
        Ok (take num_seqs sl, take num_seqs cl, take (num_seqs + 1) ss,
            buf\<lparr>tb_seq_lens := sl, tb_context_lens := cl, tb_seq_start_loc := ss\<rparr>))
      else
        rbind (prepare_seq_info meta lens) (\<lambda>v.
        Ok (take num_seqs v, take num_seqs (drop num_seqs v), drop (num_seqs + num_seqs) v, buf)))"

definition pack_naive ::
    "cpu_manager \<Rightarrow> batch_meta \<Rightarrow> attn_batch \<Rightarrow> bool \<Rightarrow> (flash_attn_metadata \<times> cpu_manager \<times> attn_batch) res" where
  "pack_naive c meta b dummy_cache =
     (let num_tokens = ab_num_decode_tokens b + ab_num_prefill_tokens b;
          num_seqs = ab_num_prefill_seqs b + ab_num_decode_tokens b in
      rbind (given (ab_seq_lens b)) (\<lambda>lens.
      rbind (naive_block_table c meta num_tokens lens dummy_cache) (\<lambda>(bt, sm, buf).
      rbind (naive_seq_info c buf meta num_seqs lens) (\<lambda>(sl, cl, ss, buf).
      Ok (\<lparr> num_prefills = 0, fa_num_prefill_tokens = 0, fa_num_decode_tokens = num_tokens,
            fa_slot_mapping = sm, fa_seq_lens = lens, fa_seq_lens_tensor = sl,
            max_query_len = 0, max_prefill_seq_len = 0, max_decode_seq_len = max_or_0 lens,
            max_decode_query_len = 1, fa_query_start_loc = take (num_tokens + 1) (tb_query_start_loc buf),
            fa_seq_start_loc = ss, context_lens_tensor = cl, fa_block_tables = bt,
            use_cuda_graph = False, enable_kv_scales_calculation = True \<rparr>,
          c\<lparr>tensor_buffer := buf\<rparr>, b\<lparr>ab_seq_lens_tensor := Some sl\<rparr>)))))"

definition cpu_pack ::
    "cpu_manager \<Rightarrow> batch_meta \<Rightarrow> attn_batch \<Rightarrow> bool \<Rightarrow> (flash_attn_metadata \<times> cpu_manager \<times> attn_batch) res" where
  "cpu_pack c meta b dummy_cache =
     (let c = swap_batch_tensor_buffer c in
      if use_rebind c \<and> use_gdr_copy c \<and> \<not> dummy_cache then pack_opt c meta b
      else pack_naive c meta b dummy_cache)"

section \<open>The request table as an interface\<close>

text \<open>
  What \<open>CPUBlockManager\<close> needs of a request table: an update of a valid id succeeds, a later read of
  that id returns the length, and every other id reads as before.
\<close>

locale req_store =
  fixes get :: "'m \<Rightarrow> int \<Rightarrow> int res" and update :: "'m \<Rightarrow> int \<Rightarrow> int \<Rightarrow> 'm res"
    and valid :: "'m \<Rightarrow> int \<Rightarrow> bool" and inv :: "'m \<Rightarrow> bool"
  assumes update_total: "inv m \<Longrightarrow> valid m r \<Longrightarrow> \<exists>m'. update m r l = Ok m'"
    and update_inv: "inv m \<Longrightarrow> valid m r \<Longrightarrow> update m r l = Ok m' \<Longrightarrow> inv m'"
    and update_valid: "inv m \<Longrightarrow> valid m r \<Longrightarrow> update m r l = Ok m' \<Longrightarrow> valid m' q = valid m q"
    and get_update: "inv m \<Longrightarrow> valid m r \<Longrightarrow> update m r l = Ok m' \<Longrightarrow> valid m q \<Longrightarrow>
      get m' q = (if q = r then Ok l else get m q)"
begin

text \<open>A loop of updates writes every pair and leaves the rest alone.\<close>

lemma update_loop:
  assumes "inv m" and "\<forall>r \<in> set ids. valid m r" and "distinct ids" and "length ls = length ids"
  shows "\<exists>m'. foldM (\<lambda>m (r, l). update m r l) m (zip ids ls) = Ok m' \<and> inv m'
    \<and> (\<forall>q. valid m' q = valid m q)
    \<and> (\<forall>i < length ids. get m' (ids ! i) = Ok (ls ! i))
    \<and> (\<forall>q. valid m q \<longrightarrow> q \<notin> set ids \<longrightarrow> get m' q = get m q)"
  using assms
proof (induction ids arbitrary: m ls)
  case Nil
  then show ?case by simp
next
  case (Cons r ids)
  then obtain l ls' where ls: "ls = l # ls'" and len: "length ls' = length ids" by (cases ls) auto
  have v: "valid m r" using Cons.prems(2) by simp
  obtain m1 where u: "update m r l = Ok m1" using update_total[OF Cons.prems(1) v] by blast
  note i1 = update_inv[OF Cons.prems(1) v u] and v1 = update_valid[OF Cons.prems(1) v u]
    and g1 = get_update[OF Cons.prems(1) v u]
  obtain m' where m': "foldM (\<lambda>m (r, l). update m r l) m1 (zip ids ls') = Ok m'" "inv m'"
    "\<forall>q. valid m' q = valid m1 q" "\<forall>i < length ids. get m' (ids ! i) = Ok (ls' ! i)"
    "\<forall>q. valid m1 q \<longrightarrow> q \<notin> set ids \<longrightarrow> get m' q = get m1 q"
    using Cons.IH[OF i1 _ _ len] Cons.prems(2,3) v1 by auto
  have "get m' ((r # ids) ! i) = Ok (ls ! i)" if "i < length (r # ids)" for i
  proof (cases i)
    case 0
    have "get m' r = get m1 r" using m'(5) Cons.prems(3) v v1 by simp
    then show ?thesis using 0 g1[OF v] ls by simp
  next
    case (Suc j)
    then show ?thesis using m'(4) that ls by simp
  qed
  moreover have "get m' q = get m q" if "valid m q" "q \<notin> set (r # ids)" for q
    using m'(5) that v1 g1[OF that(1)] by simp
  moreover have "foldM (\<lambda>m (r, l). update m r l) m (zip (r # ids) ls) = Ok m'"
    using u m'(1) ls by simp
  ultimately show ?case using m'(2,3) v1 by blast
qed

end

definition rm_valid :: "req_manager \<Rightarrow> int \<Rightarrow> bool" where
  "rm_valid m r \<longleftrightarrow> (use_list m \<longrightarrow> 0 \<le> r \<and> r < int (length (rm_list m)))"

definition rm_inv :: "req_manager \<Rightarrow> bool" where
  "rm_inv m \<longleftrightarrow> distinct (map fst (rm_dict m))"

interpretation rm: req_store get_decode_seq_lens update_decode_seq_lens rm_valid rm_inv
proof
  fix m r l
  assume inv: "rm_inv m" and v: "rm_valid m r"
  show "\<exists>m'. update_decode_seq_lens m r l = Ok m'"
    using v by (simp add: update_decode_seq_lens_def update_decode_seq_lens_list_def rm_valid_def py_set_nonneg)
  fix m'
  assume u: "update_decode_seq_lens m r l = Ok m'"
  show "rm_inv m'"
    using inv v u
    by (auto simp: update_decode_seq_lens_def update_decode_seq_lens_list_def update_decode_seq_lens_dict_def
        rm_valid_def rm_inv_def py_set_nonneg distinct_update split: if_splits)
  show "rm_valid m' q = rm_valid m q" for q
    using v u
    by (auto simp: update_decode_seq_lens_def update_decode_seq_lens_list_def update_decode_seq_lens_dict_def
        rm_valid_def py_set_nonneg split: if_splits)
  show "get_decode_seq_lens m' q = (if q = r then Ok l else get_decode_seq_lens m q)" if "rm_valid m q" for q
    using v u that
    by (auto simp: update_decode_seq_lens_def update_decode_seq_lens_list_def update_decode_seq_lens_dict_def
        get_decode_seq_lens_def get_decode_seq_lens_list_def get_decode_seq_lens_dict_def rm_valid_def
        py_set_nonneg py_get_nonneg dict_get_def update_conv' nat_eq_iff split: if_splits)
qed

section \<open>The invariant of the CPU block manager\<close>

lemma enumerate_loop:
  "n + length ids \<le> length ls \<Longrightarrow>
     foldM (\<lambda>m (i, r). rbind (py_get ls (int i)) (\<lambda>l. f m r l)) m (enumerate n ids)
       = foldM (\<lambda>m (r, l). f m r l) m (zip ids (take (length ids) (drop n ls)))"
proof (induction ids arbitrary: n m)
  case Nil
  then show ?case by simp
next
  case (Cons r ids)
  then have n: "n < length ls" by simp
  then have d: "drop n ls = ls ! n # drop (Suc n) ls" by (simp add: Cons_nth_drop_Suc)
  have "py_get ls (int n) = Ok (ls ! n)" using n by (simp add: py_get_nonneg)
  moreover have "foldM (\<lambda>m (i, r). rbind (py_get ls (int i)) (\<lambda>l. f m r l)) m' (enumerate (Suc n) ids)
      = foldM (\<lambda>m (r, l). f m r l) m' (zip ids (take (length ids) (drop (Suc n) ls)))" for m'
    using Cons.IH[of "Suc n"] Cons.prems by simp
  ultimately show ?case using d by simp
qed

abbreviation req_len :: "cpu_manager \<Rightarrow> int \<rightharpoonup> int" where
  "req_len c \<equiv> map_of (rm_dict (req_mgr c))"

definition cpu_inv :: "cpu_manager \<Rightarrow> bool" where
  "cpu_inv c \<longleftrightarrow> bm_exclusive (block_mgr c) \<and> cb_block_size c = bm_block_size (block_mgr c)
     \<and> \<not> use_list (req_mgr c) \<and> rm_inv (req_mgr c)
     \<and> (\<forall>r len. req_len c r = Some len \<longrightarrow> 1 \<le> len \<and> covers (block_mgr c) r len)"

text \<open>
  The batches the engine forms: every request once, the new requests first, each with its prefill
  length; the others are running. A new request may own blocks already if its KV cache was loaded
  before admission, and then they match the prefill length.
\<close>

definition batch_wf :: "cpu_manager \<Rightarrow> batch_meta \<Rightarrow> bool" where
  "batch_wf c meta \<longleftrightarrow> distinct (req_ids meta) \<and> meta_num_tokens meta = length (req_ids meta)
     \<and> num_prefill_seqs meta = num_prefill_tokens meta
     \<and> num_prefill_tokens meta + num_decode_tokens meta = length (req_ids meta)
     \<and> num_prefill_tokens meta \<le> length (init_prefill_lens meta)
     \<and> (\<forall>l \<in> set (init_prefill_lens meta). 0 \<le> l)
     \<and> (layer_id meta = layer_ids c ! 0 \<longrightarrow>
         (\<forall>i < num_prefill_tokens meta. req_len c (req_ids meta ! i) = None
           \<and> (block_tables (block_mgr c) (req_ids meta ! i) \<noteq> None \<longrightarrow>
               covers (block_mgr c) (req_ids meta ! i) (init_prefill_lens meta ! i))))
     \<and> (\<forall>i < length (req_ids meta). (layer_id meta = layer_ids c ! 0 \<longrightarrow> num_prefill_tokens meta \<le> i) \<longrightarrow>
         req_len c (req_ids meta ! i) \<noteq> None)"

lemma rm_valid_dict [simp]: "\<not> use_list m \<Longrightarrow> rm_valid m r"
  by (simp add: rm_valid_def)

lemma get_dict_eq: "\<not> use_list m \<Longrightarrow> get_decode_seq_lens m r = Ok l \<longleftrightarrow> map_of (rm_dict m) r = Some l"
  by (auto simp: get_decode_seq_lens_def get_decode_seq_lens_dict_def res_simps)

lemma update_keeps_kind: "update_decode_seq_lens m r l = Ok m' \<Longrightarrow> use_list m' = use_list m"
  by (auto simp: update_decode_seq_lens_def update_decode_seq_lens_list_def update_decode_seq_lens_dict_def res_simps
      split: if_splits)

text \<open>The loop of updates on a dictionary, over the lookup function.\<close>

lemma dict_update_loop:
  assumes "rm_inv m" and "\<not> use_list m" and "distinct ids" and "length ls = length ids"
  shows "\<exists>m'. foldM (\<lambda>m (r, l). update_decode_seq_lens m r l) m (zip ids ls) = Ok m'
    \<and> rm_inv m' \<and> \<not> use_list m'
    \<and> (\<forall>i < length ids. map_of (rm_dict m') (ids ! i) = Some (ls ! i))
    \<and> (\<forall>q. q \<notin> set ids \<longrightarrow> map_of (rm_dict m') q = map_of (rm_dict m) q)"
proof -
  obtain m' where m': "foldM (\<lambda>m (r, l). update_decode_seq_lens m r l) m (zip ids ls) = Ok m'" "rm_inv m'"
    "\<forall>i < length ids. get_decode_seq_lens m' (ids ! i) = Ok (ls ! i)"
    "\<forall>q. q \<notin> set ids \<longrightarrow> get_decode_seq_lens m' q = get_decode_seq_lens m q"
    using rm.update_loop[OF assms(1) _ assms(3,4)] assms(2) by auto
  have k: "\<not> use_list m'"
    by (rule foldM_invariant[where P = "\<lambda>m. \<not> use_list m", OF assms(2) m'(1)])
       (auto dest: update_keeps_kind split: prod.splits)
  have "map_of (rm_dict m') q = map_of (rm_dict m) q" if "q \<notin> set ids" for q
    using m'(4)[rule_format, OF that] k assms(2)
    by (auto simp: get_decode_seq_lens_def get_decode_seq_lens_dict_def dict_get_def split: option.splits)
  then show ?thesis using m' k get_dict_eq[OF k] by auto
qed

lemma foldM_map: "foldM f s (map g xs) = foldM (\<lambda>s x. f s (g x)) s xs"
  by (induction xs arbitrary: s) auto

lemma record_prefills_spec:
  assumes "rm_inv m" and "\<not> use_list m" and "distinct (ab_req_ids b)"
    and "k = ab_num_prefill_seqs b" and "k \<le> length (ab_req_ids b)" and "k \<le> length (ab_init_prefill_lens b)"
  shows "\<exists>m'. record_prefills b m = Ok m' \<and> rm_inv m' \<and> \<not> use_list m'
    \<and> (\<forall>i < k. map_of (rm_dict m') (ab_req_ids b ! i) = Some (ab_init_prefill_lens b ! i))
    \<and> (\<forall>q. q \<notin> set (take k (ab_req_ids b)) \<longrightarrow> map_of (rm_dict m') q = map_of (rm_dict m) q)"
proof -
  let ?ids = "take k (ab_req_ids b)" and ?ls = "take k (ab_init_prefill_lens b)"
  have len: "length ?ls = length ?ids" "length ?ids = k" using assms(5,6) by auto
  have eq: "record_prefills b m = foldM (\<lambda>m (r, l). update_decode_seq_lens m r l) m (zip ?ids ?ls)"
    unfolding record_prefills_def assms(4)[symmetric]
    using enumerate_loop[of 0 ?ids "ab_init_prefill_lens b" update_decode_seq_lens m] len assms(6) by simp
  show ?thesis
    unfolding eq using dict_update_loop[OF assms(1,2) distinct_take[OF assms(3)] len(1)] len(2) by auto
qed

text \<open>The C++ update extends the covering of every request of the batch by one token.\<close>

lemma bm_update_covers:
  assumes wfb: "bm_wf bm" and dist: "distinct (req_ids meta)" and n: "meta_num_tokens meta = length (req_ids meta)"
    and k: "num_prefill_tokens meta \<le> length (init_prefill_lens meta)"
    and il: "\<forall>l \<in> set (init_prefill_lens meta). 0 \<le> l"
    and new: "\<forall>i < num_prefill_tokens meta. lens ! i = init_prefill_lens meta ! i \<and>
      (block_tables bm (req_ids meta ! i) \<noteq> None \<longrightarrow> covers bm (req_ids meta ! i) (init_prefill_lens meta ! i))"
    and run: "\<forall>i < length (req_ids meta). num_prefill_tokens meta \<le> i \<longrightarrow> covers bm (req_ids meta ! i) (lens ! i)"
    and up: "bm_update_block_table bm meta lens = Ok bm'"
  shows "bm_frame bm bm' \<and> (\<forall>i < length (req_ids meta). covers bm' (req_ids meta ! i) (lens ! i + 1))
    \<and> (\<forall>q. q \<notin> set (req_ids meta) \<longrightarrow> block_tables bm' q = block_tables bm q)"
proof -
  let ?ids = "req_ids meta" and ?k = "num_prefill_tokens meta"
  obtain bm1 where a: "foldM (allocate_init meta) bm [0..<?k] = Ok bm1"
    and ap: "foldM (append_slot meta lens) bm1 [0..<length ?ids] = Ok bm'"
    using up n by (auto simp: bm_update_block_table_def res_simps)
  have al: "?k \<le> length ?ids" "bm_frame bm bm1" "\<And>i. i < ?k \<Longrightarrow> covers bm1 (?ids ! i) (init_prefill_lens meta ! i)"
    "\<And>q. q \<notin> set (take ?k ?ids) \<Longrightarrow> block_tables bm1 q = block_tables bm q"
    using allocate_loop[OF wfb a dist il k] new by auto
  have "covers bm1 (?ids ! i) (lens ! i)" if "i < length ?ids" for i
  proof (cases "i < ?k")
    case True
    then show ?thesis using al(3) new by simp
  next
    case False
    then have "?ids ! i \<notin> set (take ?k ?ids)"
      using dist that by (auto simp: in_set_conv_nth nth_eq_iff_index_eq)
    then show ?thesis using al(2,4) run False that by (simp add: covers_def bm_frame_def)
  qed
  then have "bm_frame bm1 bm' \<and> (\<forall>i < length ?ids. covers bm' (?ids ! i) (lens ! i + 1))
      \<and> (\<forall>q. q \<notin> set ?ids \<longrightarrow> block_tables bm' q = block_tables bm1 q)"
    using append_loop[OF _ ap dist] al(2) by (simp add: bm_frame_def)
  moreover have "q \<notin> set (take ?k ?ids)" if "q \<notin> set ?ids" for q using that by (meson in_set_takeD)
  ultimately show ?thesis using al(2,4) bm_frame_trans[OF al(2)] by metis
qed

lemma first_layer_lens:
  assumes "rm_inv m" and "\<not> use_list m" and dist: "distinct (req_ids meta)"
    and ps: "num_prefill_seqs meta = k" and k: "k \<le> length (req_ids meta)" "k \<le> length (init_prefill_lens meta)"
    and r1: "record_prefills (ab_build meta) m = Ok rm1" and ls: "mapM (get_decode_seq_lens rm1) (req_ids meta) = Ok lens"
  shows "rm_inv rm1" and "\<not> use_list rm1" and "length lens = length (req_ids meta)"
    and "\<forall>i < k. lens ! i = init_prefill_lens meta ! i"
    and "\<forall>i < length (req_ids meta). k \<le> i \<longrightarrow> map_of (rm_dict m) (req_ids meta ! i) = Some (lens ! i)"
    and "\<forall>q. q \<notin> set (req_ids meta) \<longrightarrow> map_of (rm_dict rm1) q = map_of (rm_dict m) q"
proof -
  let ?ids = "req_ids meta"
  obtain m' where "record_prefills (ab_build meta) m = Ok m' \<and> rm_inv m' \<and> \<not> use_list m'
    \<and> (\<forall>i < k. map_of (rm_dict m') (?ids ! i) = Some (init_prefill_lens meta ! i))
    \<and> (\<forall>q. q \<notin> set (take k ?ids) \<longrightarrow> map_of (rm_dict m') q = map_of (rm_dict m) q)"
    using record_prefills_spec[of m "ab_build meta" k] assms(1-6) by (simp only: ab_build_simps) blast
  then have rp: "rm_inv rm1" "\<not> use_list rm1" "\<forall>i < k. map_of (rm_dict rm1) (?ids ! i) = Some (init_prefill_lens meta ! i)"
    "\<forall>q. q \<notin> set (take k ?ids) \<longrightarrow> map_of (rm_dict rm1) q = map_of (rm_dict m) q"
    using r1 by simp_all
  have len: "length lens = length ?ids" using mapM_length[OF ls] .
  have ln: "map_of (rm_dict rm1) (?ids ! i) = Some (lens ! i)" if "i < length ?ids" for i
    using mapM_nth[OF ls that] get_dict_eq[OF rp(2)] by simp
  show "rm_inv rm1" "\<not> use_list rm1" "length lens = length ?ids" by (fact rp(1,2) len)+
  show "\<forall>i < k. lens ! i = init_prefill_lens meta ! i" using ln rp(3) k(1) by simp
  show "\<forall>i < length ?ids. k \<le> i \<longrightarrow> map_of (rm_dict m) (?ids ! i) = Some (lens ! i)"
  proof (intro allI impI)
    fix i assume i: "i < length ?ids" "k \<le> i"
    then have "?ids ! i \<notin> set (take k ?ids)" using dist by (auto simp: in_set_conv_nth nth_eq_iff_index_eq)
    then show "map_of (rm_dict m) (?ids ! i) = Some (lens ! i)" using rp(4) ln[OF i(1)] by simp
  qed
  show "\<forall>q. q \<notin> set ?ids \<longrightarrow> map_of (rm_dict rm1) q = map_of (rm_dict m) q"
    using rp(4) by (meson in_set_takeD)
qed

text \<open>What a first-layer update does to the invariant and to the lengths.\<close>

lemma cpu_update_first_layer:
  assumes inv: "cpu_inv c" and wf: "batch_wf c meta" and l0: "layer_id meta = layer_ids c ! 0"
    and up: "cpu_update_block_table c meta (ab_build meta) = Ok (c', b')"
  shows "cpu_inv c'" and "bm_frame (block_mgr c) (block_mgr c')"
    and "layer_ids c' = layer_ids c \<and> use_gdr_copy c' = use_gdr_copy c \<and> use_rebind c' = use_rebind c
    \<and> tensor_buffer c' = tensor_buffer c \<and> tensor_buffer_alt c' = tensor_buffer_alt c"
    and "\<exists>lens. length lens = length (req_ids meta) \<and> b' = (ab_build meta)\<lparr>ab_seq_lens := Some lens\<rparr>
        \<and> (\<forall>i < length lens. req_len c' (req_ids meta ! i) = Some (lens ! i) \<and> 1 \<le> lens ! i
            \<and> lens ! i = 1 + (if i < num_prefill_tokens meta then init_prefill_lens meta ! i
                               else the (req_len c (req_ids meta ! i))))"
    and "\<forall>q. q \<notin> set (req_ids meta) \<longrightarrow> req_len c' q = req_len c q"
proof -
  let ?ids = "req_ids meta" and ?k = "num_prefill_tokens meta" and ?il = "init_prefill_lens meta"
  have dist: "distinct ?ids" and n: "meta_num_tokens meta = length ?ids" and k: "?k \<le> length ?ids" "?k \<le> length ?il"
    and ps: "num_prefill_seqs meta = ?k" and il: "\<forall>l \<in> set ?il. 0 \<le> l"
    using wf by (auto simp: batch_wf_def)
  have new: "\<And>i. i < ?k \<Longrightarrow> block_tables (block_mgr c) (?ids ! i) \<noteq> None \<longrightarrow> covers (block_mgr c) (?ids ! i) (?il ! i)"
    and run: "\<And>i. ?k \<le> i \<Longrightarrow> i < length ?ids \<Longrightarrow> req_len c (?ids ! i) \<noteq> None"
    using wf l0 by (auto simp: batch_wf_def)
  have ex: "bm_exclusive (block_mgr c)" and wfb: "bm_wf (block_mgr c)" and ri: "rm_inv (req_mgr c)"
    and ul: "\<not> use_list (req_mgr c)"
    and cov: "\<And>r len. req_len c r = Some len \<Longrightarrow> 1 \<le> len \<and> covers (block_mgr c) r len"
    using inv by (auto simp: cpu_inv_def bm_exclusive_def)
  have "py_get (layer_ids c) 0 = Ok (layer_ids c ! 0)"
    using up by (auto simp: cpu_update_block_table_def res_simps py_get_def split: if_splits)
  then obtain rm1 lens bm rm2 where
      r1: "record_prefills (ab_build meta) (req_mgr c) = Ok rm1"
    and ls: "mapM (get_decode_seq_lens rm1) ?ids = Ok lens"
    and b: "bm_update_block_table (block_mgr c) meta lens = Ok bm"
    and r2: "foldM (\<lambda>rm (rid, l). update_decode_seq_lens rm rid (l + 1)) rm1 (zip ?ids lens) = Ok rm2"
    and c': "c' = c\<lparr>block_mgr := bm, req_mgr := rm2\<rparr>"
    and b': "b' = (ab_build meta)\<lparr>ab_seq_lens := Some (map (\<lambda>l. l + 1) lens)\<rparr>"
    using up l0 by (auto simp: cpu_update_block_table_def ab_build_def res_simps)
  note fl = first_layer_lens[OF ri ul dist ps k r1 ls]
  have len: "length lens = length ?ids" and lk: "\<And>i. i < ?k \<Longrightarrow> lens ! i = ?il ! i"
    and lr: "\<And>i. ?k \<le> i \<Longrightarrow> i < length ?ids \<Longrightarrow> req_len c (?ids ! i) = Some (lens ! i)" using fl(3-5) by auto
  have l0': "0 \<le> lens ! i" if "i < length ?ids" for i
    using lk[of i] il k that cov[of "?ids ! i" "lens ! i"] lr[of i] by (cases "i < ?k") auto
  have bm: "bm_frame (block_mgr c) bm" "\<And>i. i < length ?ids \<Longrightarrow> covers bm (?ids ! i) (lens ! i + 1)"
    "\<And>q. q \<notin> set ?ids \<Longrightarrow> block_tables bm q = block_tables (block_mgr c) q"
    using bm_update_covers[OF wfb dist n k(2) il _ _ b] lk new lr cov by auto
  have r2': "foldM (\<lambda>m (r, l). update_decode_seq_lens m r l) rm1 (zip ?ids (map (\<lambda>l. l + 1) lens)) = Ok rm2"
    using r2 by (simp add: zip_map2 foldM_map case_prod_unfold)
  have rm2: "rm_inv rm2" "\<not> use_list rm2" "\<And>i. i < length ?ids \<Longrightarrow> map_of (rm_dict rm2) (?ids ! i) = Some (lens ! i + 1)"
    "\<And>q. q \<notin> set ?ids \<Longrightarrow> map_of (rm_dict rm2) q = map_of (rm_dict rm1) q"
    using dict_update_loop[OF fl(1,2) dist, of "map (\<lambda>l. l + 1) lens"] r2' len by auto
  have other: "map_of (rm_dict rm2) q = req_len c q" if "q \<notin> set ?ids" for q
    using rm2(4)[OF that] fl(6) that by simp
  have "1 \<le> l \<and> covers bm q l" if q: "map_of (rm_dict rm2) q = Some l" for q l
  proof (cases "q \<in> set ?ids")
    case True
    then obtain i where "i < length ?ids" "q = ?ids ! i" by (auto simp: in_set_conv_nth)
    then show ?thesis using rm2(3)[of i] bm(2)[of i] l0'[of i] q by auto
  next
    case False
    then show ?thesis using other[OF False] cov[of q l] bm(1,3) q by (simp add: covers_def bm_frame_def)
  qed
  then show "cpu_inv c'"
    using inv bm(1) rm2(1,2) bm_exclusive_frame[OF ex bm(1)] by (simp add: cpu_inv_def c' bm_frame_def)
  show "\<exists>lens. length lens = length ?ids \<and> b' = (ab_build meta)\<lparr>ab_seq_lens := Some lens\<rparr>
      \<and> (\<forall>i < length lens. req_len c' (?ids ! i) = Some (lens ! i) \<and> 1 \<le> lens ! i
          \<and> lens ! i = 1 + (if i < ?k then ?il ! i else the (req_len c (?ids ! i))))"
    using len rm2(3) l0' lk lr b' by (intro exI[of _ "map (\<lambda>l. l + 1) lens"]) (auto simp: c')
  show "bm_frame (block_mgr c) (block_mgr c')" using bm(1) by (simp add: c')
  show "layer_ids c' = layer_ids c \<and> use_gdr_copy c' = use_gdr_copy c \<and> use_rebind c' = use_rebind c
    \<and> tensor_buffer c' = tensor_buffer c \<and> tensor_buffer_alt c' = tensor_buffer_alt c" by (simp add: c')
  show "\<forall>q. q \<notin> set ?ids \<longrightarrow> req_len c' q = req_len c q" using other by (simp add: c')
qed

lemma cpu_update_other_layer:
  assumes "cpu_inv c" and "layer_id meta \<noteq> layer_ids c ! 0"
    and "cpu_update_block_table c meta (ab_build meta) = Ok (c', b')"
  shows "c' = c \<and> (\<exists>lens. length lens = length (req_ids meta) \<and> b' = (ab_build meta)\<lparr>ab_seq_lens := Some lens\<rparr>
    \<and> (\<forall>i < length lens. req_len c (req_ids meta ! i) = Some (lens ! i)))"
proof -
  have ul: "\<not> use_list (req_mgr c)" using assms(1) by (simp add: cpu_inv_def)
  have "py_get (layer_ids c) 0 = Ok (layer_ids c ! 0)"
    using assms(3) by (auto simp: cpu_update_block_table_def res_simps py_get_def split: if_splits)
  then obtain lens where ls: "mapM (get_decode_seq_lens (req_mgr c)) (req_ids meta) = Ok lens" and c: "c' = c"
      and b: "b' = (ab_build meta)\<lparr>ab_seq_lens := Some lens\<rparr>"
    using assms(2,3) by (auto simp: cpu_update_block_table_def res_simps)
  then show ?thesis
    using mapM_length[OF ls] mapM_nth[OF ls] get_dict_eq[OF ul] by (intro conjI exI[of _ lens]) auto
qed

section \<open>Every reachable state\<close>

text \<open>
  The steps the engine makes: an update for a batch, the release of running requests, the reset,
  and the allocation of blocks for a request whose KV cache is loaded before admission.
\<close>

inductive cpu_step :: "cpu_manager \<Rightarrow> cpu_manager \<Rightarrow> bool" where
  update: "batch_wf c meta \<Longrightarrow> cpu_update_block_table c meta (ab_build meta) = Ok (c', b') \<Longrightarrow> cpu_step c c'"
| pack: "cpu_pack c meta b dummy = Ok (fa, c', b') \<Longrightarrow> cpu_step c c'"
| release: "cpu_release_seqs c ids = Ok c' \<Longrightarrow> cpu_step c c'"
| reset: "cpu_reset_state c = Ok c' \<Longrightarrow> cpu_step c c'"
| load: "0 \<le> len \<Longrightarrow> allocate (block_mgr c) r len = Ok bm' \<Longrightarrow> cpu_step c (c\<lparr>block_mgr := bm'\<rparr>)"

inductive cpu_reach :: "cpu_manager \<Rightarrow> cpu_manager \<Rightarrow> bool" for c0 where
  start: "cpu_reach c0 c0"
| step: "cpu_reach c0 c \<Longrightarrow> cpu_step c c' \<Longrightarrow> cpu_reach c0 c'"

lemma dict_pop_Ok:
  "distinct (map fst d) \<Longrightarrow> dict_pop d k = Ok d' \<Longrightarrow>
     distinct (map fst d') \<and> map_of d' = (map_of d)(k := None)"
  by (auto simp: dict_pop_def delete_conv' distinct_delete split: option.splits)

lemma release_reqs_Ok:
  assumes "rm_inv m" and "\<not> use_list m" and "release_reqs m ids = Ok m'"
  shows "rm_inv m' \<and> \<not> use_list m' \<and> map_of (rm_dict m') = map_of (rm_dict m) |` (- set ids)"
proof -
  obtain d where d: "foldM dict_pop (rm_dict m) ids = Ok d" and m': "m' = m\<lparr>rm_dict := d\<rparr>"
    using assms(2,3) by (auto simp: release_reqs_def release_reqs_dict_def res_simps)
  have "distinct (map fst e) \<Longrightarrow> foldM dict_pop e ids = Ok d \<Longrightarrow>
      distinct (map fst d) \<and> map_of d = map_of e |` (- set ids)" for e
  proof (induction ids arbitrary: e)
    case (Cons k ids)
    then obtain e1 where "dict_pop e k = Ok e1" "foldM dict_pop e1 ids = Ok d" by (auto simp: res_simps)
    then show ?case
      using Cons.IH[of e1] dict_pop_Ok[OF Cons.prems(1), of k e1] by (auto simp: restrict_map_def fun_eq_iff)
  qed (auto simp: restrict_map_def)
  from this[OF _ d] show ?thesis using assms(1,2) by (simp add: rm_inv_def m')
qed

lemma cpu_release_inv:
  assumes "cpu_inv c" and "cpu_release_seqs c ids = Ok c'"
  shows "cpu_inv c' \<and> bm_frame (block_mgr c) (block_mgr c') \<and> req_len c' = req_len c |` (- set ids)
    \<and> block_tables (block_mgr c') = block_tables (block_mgr c) |` (- set ids)"
proof -
  obtain bm rm where b: "batch_release (block_mgr c) ids = Ok bm" and r: "release_reqs (req_mgr c) ids = Ok rm"
    and c': "c' = c\<lparr>block_mgr := bm, req_mgr := rm\<rparr>"
    using assms(2) by (auto simp: cpu_release_seqs_def res_simps)
  have ex: "bm_exclusive (block_mgr c)" using assms(1) by (simp add: cpu_inv_def)
  then have bm: "bm_frame (block_mgr c) bm" "block_tables bm = block_tables (block_mgr c) |` (- set ids)"
    using batch_release_Ok[OF _ b] by (auto simp: bm_exclusive_def)
  have rm: "rm_inv rm" "\<not> use_list rm" "map_of (rm_dict rm) = req_len c |` (- set ids)"
    using release_reqs_Ok[OF _ _ r] assms(1) by (auto simp: cpu_inv_def)
  have "1 \<le> l \<and> covers bm q l" if "map_of (rm_dict rm) q = Some l" for q l
    using that assms(1) bm rm(3) by (auto simp: cpu_inv_def covers_def bm_frame_def restrict_map_def split: if_splits)
  then show ?thesis
    using assms(1) bm rm bm_exclusive_frame[OF ex bm(1)] by (simp add: cpu_inv_def c' bm_frame_def)
qed

lemma cpu_pack_frame:
  assumes "cpu_pack c meta b dummy = Ok (fa, c', b')"
  shows "block_mgr c' = block_mgr c" "req_mgr c' = req_mgr c" "cb_block_size c' = cb_block_size c"
    "layer_ids c' = layer_ids c"
  using assms
  by (auto simp: cpu_pack_def pack_opt_def pack_naive_def Let_def res_simps swap_batch_tensor_buffer_def
      split: if_splits prod.splits)

lemma cpu_load_inv:
  assumes "cpu_inv c" and "0 \<le> len" and "allocate (block_mgr c) r len = Ok bm'"
  shows "cpu_inv (c\<lparr>block_mgr := bm'\<rparr>) \<and> bm_frame (block_mgr c) bm'"
proof -
  have ex: "bm_exclusive (block_mgr c)" and wf: "bm_wf (block_mgr c)"
    using assms(1) by (auto simp: cpu_inv_def bm_exclusive_def)
  have none: "block_tables (block_mgr c) r = None" and bm': "bm' = grant (block_mgr c) r (nblk (bm_block_size (block_mgr c)) len)"
    using allocate_Ok[OF wf assms(2,3)] by auto
  have fr: "bm_frame (block_mgr c) bm'" unfolding bm' by (rule grant_frame[OF wf])
  have "covers bm' q l" if "covers (block_mgr c) q l" for q l
    using that none bm' by (cases "q = r") (auto simp: covers_def)
  then show ?thesis
    using assms(1) fr bm_exclusive_frame[OF ex fr] by (auto simp: cpu_inv_def bm_frame_def)
qed

lemma cpu_step_inv:
  assumes "cpu_step c c'" and "cpu_inv c"
  shows "cpu_inv c' \<and> bm_frame (block_mgr c) (block_mgr c')"
  using assms(1)
proof cases
  case (update meta b')
  have refl: "bm_frame (block_mgr c) (block_mgr c)"
    using assms(2) by (simp add: cpu_inv_def bm_exclusive_def bm_frame_refl)
  show ?thesis
  proof (cases "layer_id meta = layer_ids c ! 0")
    case True
    then show ?thesis using cpu_update_first_layer(1,2)[OF assms(2) update(1) True update(2)] by simp
  next
    case False
    then have "c' = c" using cpu_update_other_layer[OF assms(2) False update(2)] by simp
    then show ?thesis using refl assms(2) by simp
  qed
next
  case (pack meta b dummy fa b')
  then show ?thesis
    using cpu_pack_frame[OF pack] assms(2) by (auto simp: cpu_inv_def bm_exclusive_def bm_frame_refl)
next
  case (release ids)
  then show ?thesis using cpu_release_inv[OF assms(2)] by blast
next
  case reset
  then obtain c1 where c1: "cpu_release_seqs c (get_active_req_ids (req_mgr c)) = Ok c1"
    and c': "c' = c1\<lparr>req_mgr := rm_reset (req_mgr c1)\<rparr>"
    by (auto simp: cpu_reset_state_def res_simps)
  then show ?thesis
    using cpu_release_inv[OF assms(2) c1] by (auto simp: cpu_inv_def rm_reset_def rm_inv_def)
next
  case (load len r bm')
  then show ?thesis using cpu_load_inv[OF assms(2)] by auto
qed

lemma cpu_reach_inv: "cpu_reach c0 c \<Longrightarrow> cpu_inv c0 \<Longrightarrow> cpu_inv c \<and> bm_frame (block_mgr c0) (block_mgr c)"
proof (induction rule: cpu_reach.induct)
  case start
  then show ?case by (auto simp: cpu_inv_def bm_exclusive_def bm_frame_refl)
next
  case (step c c')
  then show ?case using cpu_step_inv[of c c'] bm_frame_trans by blast
qed

lemma cpu_init_inv:
  assumes "cpu_init junk lids bs nb msl mb mr gdr rebind = Ok c" and "0 < bs"
  shows "cpu_inv c" and "block_mgr c = bm_init bs nb 0"
  using assms bm_exclusive_init[OF assms(2), of nb 0]
  by (auto simp: cpu_init_def Let_def cpu_inv_def rm_init_def rm_inv_def bm_init_def)

section \<open>The metadata of a batch\<close>

text \<open>What FlashAttention is to be given, whichever routine packs it.\<close>

definition flash_ref :: "block_manager \<Rightarrow> int list \<Rightarrow> int list \<Rightarrow> flash_attn_metadata" where
  "flash_ref bm ids lens =
     (let ls = map (\<lambda>r. the (block_tables bm r)) ids; n = length ids in
      \<lparr> num_prefills = 0, fa_num_prefill_tokens = 0, fa_num_decode_tokens = n,
        fa_slot_mapping = slots_of (bm_block_size bm) ls lens, fa_seq_lens = lens,
        fa_seq_lens_tensor = lens, max_query_len = 0, max_prefill_seq_len = 0,
        max_decode_seq_len = max_or_0 lens, max_decode_query_len = 1,
        fa_query_start_loc = map int [0..<n + 1], fa_seq_start_loc = start_locs 0 lens,
        context_lens_tensor = map (\<lambda>l. l - 1) lens, fa_block_tables = map (padded (table_width ls)) ls,
        use_cuda_graph = False, enable_kv_scales_calculation = True \<rparr>)"

definition buf_sized :: "nat \<Rightarrow> nat \<Rightarrow> batch_tensor_buffer \<Rightarrow> bool" where
  "buf_sized mb mp b \<longleftrightarrow> length (tb_block_table b) = mb * mp \<and> length (tb_slot_mapping b) = mb
     \<and> length (tb_seq_lens b) = mb \<and> length (tb_context_lens b) = mb \<and> length (tb_seq_start_loc b) = mb + 1
     \<and> tb_query_start_loc b = map int [0..<mb + 1]"

lemma gdr_copy_length: "gdr_copy buf src = Ok buf' \<Longrightarrow> length buf' = length buf"
  by (auto simp: gdr_copy_def split: if_splits)

lemma rows_of_concat:
  "(\<And>x. x \<in> set xss \<Longrightarrow> length x = m) \<Longrightarrow> rows_of (length xss) m (concat xss @ w) = xss"
proof (induction xss)
  case (Cons x xss)
  have x: "length x = m" using Cons.prems by simp
  have "rows_of (length (x # xss)) m (concat (x # xss) @ w)
      = take m (x @ concat xss @ w) # map (\<lambda>i. take m (drop (Suc i * m) (x @ concat xss @ w))) [0..<length xss]"
    unfolding rows_of_def by (simp add: upt_conv_Cons map_Suc_upt[symmetric] del: upt_Suc)
  also have "\<dots> = x # rows_of (length xss) m (concat xss @ w)"
    unfolding rows_of_def using x by simp
  finally show ?case using Cons by simp
qed (simp add: rows_of_def)

lemma rows_of_flat: "rows_of (length ls) (table_width ls) (flat_table ls @ w) = map (padded (table_width ls)) ls"
  using rows_of_concat[of "map (padded (table_width ls)) ls" "table_width ls" w] padded_length table_width_ge[of _ ls]
  by (auto simp: flat_table_def)

lemma cpu_batch_lists:
  assumes inv: "cpu_inv c" and n: "meta_num_tokens meta = length (req_ids meta)"
    and len: "length lens = length (req_ids meta)"
    and lens: "\<forall>i < length lens. req_len c (req_ids meta ! i) = Some (lens ! i)"
    and ls: "ls = map (\<lambda>r. the (block_tables (block_mgr c) r)) (req_ids meta)"
  shows "batch_lists (block_mgr c) meta = Ok ls" and "batch_ok (bm_block_size (block_mgr c)) ls lens"
proof -
  have cov: "1 \<le> lens ! i \<and> covers (block_mgr c) (req_ids meta ! i) (lens ! i)" if "i < length lens" for i
    using inv lens[rule_format, OF that] unfolding cpu_inv_def by blast
  have bs: "0 < bm_block_size (block_mgr c)" using inv by (simp add: cpu_inv_def bm_exclusive_def bm_wf_def)
  have row: "block_tables (block_mgr c) (req_ids meta ! i) = Some (ls ! i)
      \<and> length (ls ! i) = nblk (bm_block_size (block_mgr c)) (lens ! i)" if "i < length lens" for i
    using cov[OF that] that len ls by (auto simp: covers_def)
  have "mapM (\<lambda>i. rbind (vec_get (req_ids meta) (int i)) (get_seq_block_ids (block_mgr c))) [0..<length (req_ids meta)]
      = Ok (map (\<lambda>i. ls ! i) [0..<length (req_ids meta)])"
    by (rule mapM_Ok_map) (use row len in \<open>auto simp: get_seq_block_ids_def\<close>)
  moreover have "map (\<lambda>i. ls ! i) [0..<length (req_ids meta)] = ls"
    using ls map_nth[of ls] by simp
  ultimately show "batch_lists (block_mgr c) meta = Ok ls" by (simp add: batch_lists_def n)
  show "batch_ok (bm_block_size (block_mgr c)) ls lens"
    using bs len ls cov row by (auto simp: batch_ok_def)
qed

text \<open>A batch that fits the buffers, with the lengths the last update stored.\<close>

definition packable :: "nat \<Rightarrow> nat \<Rightarrow> cpu_manager \<Rightarrow> batch_meta \<Rightarrow> attn_batch \<Rightarrow> int list \<Rightarrow> bool" where
  "packable mb mp c meta b lens \<longleftrightarrow> cpu_inv c \<and> buf_sized mb mp (tensor_buffer c)
     \<and> meta_num_tokens meta = length (req_ids meta) \<and> req_ids meta \<noteq> [] \<and> length (req_ids meta) \<le> mb
     \<and> b = (ab_build meta)\<lparr>ab_seq_lens := Some lens\<rparr> \<and> length lens = length (req_ids meta)
     \<and> num_prefill_seqs meta = num_prefill_tokens meta
     \<and> num_prefill_tokens meta + num_decode_tokens meta = length (req_ids meta)
     \<and> (\<forall>i < length lens. req_len c (req_ids meta ! i) = Some (lens ! i))
     \<and> table_width (map (\<lambda>r. the (block_tables (block_mgr c) r)) (req_ids meta)) \<le> mp"

lemma prepare_seq_info_gdr_eq:
  assumes "length lens = meta_num_tokens meta" and "lens \<noteq> []" and "length lens \<le> length a"
    and "length lens \<le> length b" and "length lens < length d"
  shows "prepare_seq_info_gdr meta lens a b d =
    Ok (lens @ drop (length lens) a, map (\<lambda>l. l - 1) lens @ drop (length lens) b,
        start_locs 0 lens @ drop (Suc (length lens)) d)"
proof -
  have "start_locs 0 lens \<noteq> []" using start_locs_length[of 0 lens] by (metis length_0_conv nat.distinct(1))
  then show ?thesis using assms by (simp add: prepare_seq_info_gdr_def Let_def gdr_copy_def)
qed

lemma packable_facts:
  assumes "packable mb mp c meta b lens"
    and "ls = map (\<lambda>r. the (block_tables (block_mgr c) r)) (req_ids meta)"
  shows "prepare_block_table (block_mgr c) meta lens = Ok (flat_table ls @ slots_of (bm_block_size (block_mgr c)) ls lens)"
    and "prepare_block_table_gdr (block_mgr c) meta lens (tb_block_table (tensor_buffer c)) (tb_slot_mapping (tensor_buffer c))
      = Ok (table_width ls, flat_table ls @ drop (length (flat_table ls)) (tb_block_table (tensor_buffer c)),
          slots_of (bm_block_size (block_mgr c)) ls lens @ drop (length ls) (tb_slot_mapping (tensor_buffer c)))"
    and "prepare_seq_info_gdr meta lens (tb_seq_lens (tensor_buffer c)) (tb_context_lens (tensor_buffer c))
        (tb_seq_start_loc (tensor_buffer c))
      = Ok (lens @ drop (length lens) (tb_seq_lens (tensor_buffer c)),
          map (\<lambda>l. l - 1) lens @ drop (length lens) (tb_context_lens (tensor_buffer c)),
          start_locs 0 lens @ drop (Suc (length lens)) (tb_seq_start_loc (tensor_buffer c)))"
    and "length ls = length lens" and "ls \<noteq> []" and "length ls * table_width ls \<le> mb * mp"
proof -
  note p = assms(1)[unfolded packable_def buf_sized_def]
  have bl: "batch_lists (block_mgr c) meta = Ok ls" "batch_ok (bm_block_size (block_mgr c)) ls lens"
    using cpu_batch_lists[of c meta lens ls] p assms(2) by auto
  show l: "length ls = length lens" and ne: "ls \<noteq> []" using p assms(2) by auto
  show w: "length ls * table_width ls \<le> mb * mp" using p assms(2) by (intro mult_le_mono) auto
  show "prepare_block_table (block_mgr c) meta lens = Ok (flat_table ls @ slots_of (bm_block_size (block_mgr c)) ls lens)"
    by (rule prepare_block_table_eq[OF bl])
  show "prepare_block_table_gdr (block_mgr c) meta lens (tb_block_table (tensor_buffer c)) (tb_slot_mapping (tensor_buffer c))
      = Ok (table_width ls, flat_table ls @ drop (length (flat_table ls)) (tb_block_table (tensor_buffer c)),
          slots_of (bm_block_size (block_mgr c)) ls lens @ drop (length ls) (tb_slot_mapping (tensor_buffer c)))"
    using p l w by (intro prepare_block_table_gdr_eq[OF bl ne]) (auto simp: flat_table_length)
  show "prepare_seq_info_gdr meta lens (tb_seq_lens (tensor_buffer c)) (tb_context_lens (tensor_buffer c))
        (tb_seq_start_loc (tensor_buffer c))
      = Ok (lens @ drop (length lens) (tb_seq_lens (tensor_buffer c)),
          map (\<lambda>l. l - 1) lens @ drop (length lens) (tb_context_lens (tensor_buffer c)),
          start_locs 0 lens @ drop (Suc (length lens)) (tb_seq_start_loc (tensor_buffer c)))"
    using p by (intro prepare_seq_info_gdr_eq) auto
qed

lemma slots_of_length [simp]: "length (slots_of bs ls lens) = length ls"
  by (simp add: slots_of_def)

lemma view_rows_flat:
  assumes "ls \<noteq> []"
  shows "view_rows (length ls) (flat_table ls) = Ok (map (padded (table_width ls)) ls)"
  using rows_of_flat[of ls "[]"] assms by (simp add: view_rows_def flat_table_length)

lemma pack_opt_eq:
  assumes "packable mb mp c meta b lens"
  shows "\<exists>c' b'. pack_opt c meta b = Ok (flash_ref (block_mgr c) (req_ids meta) lens, c', b')"
proof -
  define ls where "ls = map (\<lambda>r. the (block_tables (block_mgr c) r)) (req_ids meta)"
  note f = packable_facts[OF assms ls_def]
  note p = assms[unfolded packable_def buf_sized_def]
  have b: "ab_seq_lens b = Some lens" "ab_num_decode_tokens b + ab_num_prefill_tokens b = length ls"
    using p ls_def by auto
  have q: "take (length ls + 1) (tb_query_start_loc (tensor_buffer c)) = map int [0..<length ls + 1]"
    using p f(4) by (simp add: take_map del: upt_Suc)
  have len: "length ls \<le> length (tb_slot_mapping (tensor_buffer c))" "length lens \<le> length (tb_seq_lens (tensor_buffer c))"
    "length lens \<le> length (tb_context_lens (tensor_buffer c))" "length lens < length (tb_seq_start_loc (tensor_buffer c))"
    "length ls < length (tb_query_start_loc (tensor_buffer c))"
    "length ls * table_width ls \<le> length (tb_block_table (tensor_buffer c))"
    using p f(4,6) by auto
  show ?thesis
    using f(4) len q rows_of_flat[of ls]
    by (simp add: pack_opt_def b f(2,3) Let_def create_view_def rebind_2d_def rebind_1d_def flat_table_length
        flash_ref_def ls_def[symmetric] del: upt_Suc)
       (simp add: ls_def)
qed

lemma last_n_append [simp]: "length ys = n \<Longrightarrow> n \<noteq> 0 \<Longrightarrow> last_n n (xs @ ys) = ys"
  by (simp add: last_n_def)

lemma but_last_n_append [simp]: "length ys = n \<Longrightarrow> n \<noteq> 0 \<Longrightarrow> but_last_n n (xs @ ys) = xs"
  by (simp add: but_last_n_def)

lemma naive_block_table_eq:
  assumes "packable mb mp c meta b lens"
    and "ls = map (\<lambda>r. the (block_tables (block_mgr c) r)) (req_ids meta)"
  shows "\<exists>buf. naive_block_table c meta (length ls) lens False
      = Ok (map (padded (table_width ls)) ls, slots_of (bm_block_size (block_mgr c)) ls lens, buf)
    \<and> tb_seq_lens buf = tb_seq_lens (tensor_buffer c) \<and> tb_context_lens buf = tb_context_lens (tensor_buffer c)
    \<and> tb_seq_start_loc buf = tb_seq_start_loc (tensor_buffer c)
    \<and> tb_query_start_loc buf = tb_query_start_loc (tensor_buffer c)"
proof -
  note f = packable_facts[OF assms]
  show ?thesis
  proof (cases "use_gdr_copy c")
    case True
    have "take (table_width ls * length ls) (flat_table ls @ w) = flat_table ls" for w
      using flat_table_length[of ls] by (simp add: mult.commute)
    then show ?thesis
      using True f(2) view_rows_flat[OF f(5)] by (simp add: naive_block_table_def Let_def)
  next
    case False
    then show ?thesis
      using f(1,5) view_rows_flat[OF f(5)] by (simp add: naive_block_table_def Let_def)
  qed
qed

lemma pack_naive_eq:
  assumes "packable mb mp c meta b lens"
  shows "\<exists>c' b'. pack_naive c meta b False = Ok (flash_ref (block_mgr c) (req_ids meta) lens, c', b')"
proof -
  define ls where "ls = map (\<lambda>r. the (block_tables (block_mgr c) r)) (req_ids meta)"
  note f = packable_facts[OF assms ls_def]
  note p = assms[unfolded packable_def buf_sized_def]
  have b: "ab_seq_lens b = Some lens" "ab_num_decode_tokens b + ab_num_prefill_tokens b = length ls"
      "ab_num_prefill_seqs b + ab_num_decode_tokens b = length ls"
    using p ls_def by auto
  obtain buf where nb: "naive_block_table c meta (length ls) lens False
      = Ok (map (padded (table_width ls)) ls, slots_of (bm_block_size (block_mgr c)) ls lens, buf)"
    and bf: "tb_seq_lens buf = tb_seq_lens (tensor_buffer c)" "tb_context_lens buf = tb_context_lens (tensor_buffer c)"
      "tb_seq_start_loc buf = tb_seq_start_loc (tensor_buffer c)"
      "tb_query_start_loc buf = tb_query_start_loc (tensor_buffer c)"
    using naive_block_table_eq[OF assms ls_def] by blast
  have q: "take (length ls + 1) (tb_query_start_loc (tensor_buffer c)) = map int [0..<length ls + 1]"
    using p f(4) by (simp add: take_map del: upt_Suc)
  have "\<exists>buf'. naive_seq_info c buf meta (length ls) lens
      = Ok (lens, map (\<lambda>l. l - 1) lens, start_locs 0 lens, buf')
      \<and> tb_query_start_loc buf' = tb_query_start_loc buf"
    using f(3,4) p by (cases "use_gdr_copy c") (simp_all add: naive_seq_info_def bf prepare_seq_info_def)
  then obtain buf' where ns: "naive_seq_info c buf meta (length ls) lens
      = Ok (lens, map (\<lambda>l. l - 1) lens, start_locs 0 lens, buf')"
    and q': "tb_query_start_loc buf' = tb_query_start_loc (tensor_buffer c)" using bf(4) by auto
  have "length (req_ids meta) = length ls" by (simp add: ls_def)
  then show ?thesis
    using q by (simp add: pack_naive_def b Let_def nb ns q' flash_ref_def ls_def[symmetric] del: upt_Suc)
qed

section \<open>Buffers keep their size\<close>

definition bufs_sized :: "nat \<Rightarrow> nat \<Rightarrow> cpu_manager \<Rightarrow> bool" where
  "bufs_sized mb mp c \<longleftrightarrow> buf_sized mb mp (tensor_buffer c) \<and> buf_sized mb mp (tensor_buffer_alt c)"

lemma prepare_block_table_gdr_sizes:
  "prepare_block_table_gdr bm meta lens tb sb = Ok (m, tb', sb') \<Longrightarrow> length tb' = length tb \<and> length sb' = length sb"
  by (auto simp: prepare_block_table_gdr_def Let_def res_simps dest: gdr_copy_length)

lemma prepare_seq_info_gdr_sizes:
  "prepare_seq_info_gdr meta lens a b d = Ok (a', b', d') \<Longrightarrow>
     length a' = length a \<and> length b' = length b \<and> length d' = length d"
  by (auto simp: prepare_seq_info_gdr_def Let_def res_simps dest: gdr_copy_length split: if_splits)

lemma create_view_bases:
  "create_view b n m = Ok b' \<Longrightarrow> buf_sized mb mp b \<Longrightarrow> buf_sized mb mp b'"
  by (auto simp: create_view_def buf_sized_def res_simps)

lemma pack_opt_sized:
  assumes "pack_opt c meta b = Ok (fa, c', b')" and "bufs_sized mb mp c"
  shows "bufs_sized mb mp c'"
proof -
  obtain lens m bt sm sl cl ss buf where
      "prepare_block_table_gdr (block_mgr c) meta lens (tb_block_table (tensor_buffer c)) (tb_slot_mapping (tensor_buffer c))
        = Ok (m, bt, sm)"
      "prepare_seq_info_gdr meta lens (tb_seq_lens (tensor_buffer c)) (tb_context_lens (tensor_buffer c))
        (tb_seq_start_loc (tensor_buffer c)) = Ok (sl, cl, ss)"
    and v: "create_view ((tensor_buffer c)\<lparr>tb_block_table := bt, tb_slot_mapping := sm, tb_seq_lens := sl,
               tb_context_lens := cl, tb_seq_start_loc := ss\<rparr>)
             (ab_num_decode_tokens b + ab_num_prefill_tokens b) m = Ok buf"
    and c': "c' = c\<lparr>tensor_buffer := buf\<rparr>"
    using assms(1) by (auto simp: pack_opt_def Let_def res_simps)
  then have "buf_sized mb mp ((tensor_buffer c)\<lparr>tb_block_table := bt, tb_slot_mapping := sm, tb_seq_lens := sl,
               tb_context_lens := cl, tb_seq_start_loc := ss\<rparr>)"
    using assms(2) prepare_block_table_gdr_sizes prepare_seq_info_gdr_sizes
    by (simp add: bufs_sized_def buf_sized_def)
  then show ?thesis using create_view_bases[OF v] assms(2) c' by (simp add: bufs_sized_def)
qed

lemma pack_naive_sized:
  assumes "pack_naive c meta b dummy = Ok (fa, c', b')" and "bufs_sized mb mp c"
  shows "bufs_sized mb mp c'"
proof -
  obtain n k lens bt sm buf sl cl ss buf' where
      nb: "naive_block_table c meta n lens dummy = Ok (bt, sm, buf)"
    and ns: "naive_seq_info c buf meta k lens = Ok (sl, cl, ss, buf')"
    and c': "c' = c\<lparr>tensor_buffer := buf'\<rparr>"
    using assms(1) by (auto simp: pack_naive_def Let_def res_simps)
  have "buf_sized mb mp buf"
    using nb assms(2)
    by (auto simp: naive_block_table_def Let_def res_simps bufs_sized_def buf_sized_def
        dest: prepare_block_table_gdr_sizes split: if_splits)
  then have "buf_sized mb mp buf'"
    using ns by (auto simp: naive_seq_info_def res_simps buf_sized_def dest: prepare_seq_info_gdr_sizes split: if_splits)
  then show ?thesis using assms(2) c' by (simp add: bufs_sized_def)
qed

lemma cpu_pack_sized:
  "cpu_pack c meta b dummy = Ok (fa, c', b') \<Longrightarrow> bufs_sized mb mp c \<Longrightarrow> bufs_sized mb mp c'"
  using pack_opt_sized[of "swap_batch_tensor_buffer c"] pack_naive_sized[of "swap_batch_tensor_buffer c"]
  by (auto simp: cpu_pack_def Let_def bufs_sized_def swap_batch_tensor_buffer_def split: if_splits)

lemma cpu_step_sized:
  assumes "cpu_step c c'" and "bufs_sized mb mp c"
  shows "bufs_sized mb mp c'"
  using assms
  by cases (auto simp: cpu_update_block_table_def cpu_release_seqs_def cpu_reset_state_def res_simps bufs_sized_def
      dest: cpu_pack_sized[where mb = mb and mp = mp] split: if_splits)

lemma cpu_reach_sized: "cpu_reach c0 c \<Longrightarrow> bufs_sized mb mp c0 \<Longrightarrow> bufs_sized mb mp c"
  by (induction rule: cpu_reach.induct) (auto dest: cpu_step_sized)

section \<open>An update with blocks to spare returns\<close>

lemma mapM_get_dict:
  assumes "\<not> use_list m" and "\<forall>r \<in> set ids. map_of (rm_dict m) r \<noteq> None"
  shows "mapM (get_decode_seq_lens m) ids = Ok (map (\<lambda>r. the (map_of (rm_dict m) r)) ids)"
  using assms get_dict_eq[OF assms(1)] by (intro mapM_Ok_map) auto

lemma cpu_update_total:
  assumes inv: "cpu_inv c" and wf: "batch_wf c meta" and l0: "layer_ids c \<noteq> []" "layer_id meta = layer_ids c ! 0"
    and w: "in_budget B D (block_mgr c)" and fin: "finite D" and D: "set (req_ids meta) \<subseteq> D"
    and le: "\<forall>i < length (req_ids meta). nblk (bm_block_size (block_mgr c))
      (1 + (if i < num_prefill_tokens meta then init_prefill_lens meta ! i else the (req_len c (req_ids meta ! i))))
        \<le> B (req_ids meta ! i)"
  shows "\<exists>c' b'. cpu_update_block_table c meta (ab_build meta) = Ok (c', b')"
proof -
  let ?ids = "req_ids meta" and ?k = "num_prefill_tokens meta" and ?il = "init_prefill_lens meta"
  have b: "distinct ?ids" "meta_num_tokens meta = length ?ids" "num_prefill_seqs meta = ?k" "?k \<le> length ?ids"
    "?k \<le> length ?il" "\<forall>l \<in> set ?il. 0 \<le> l"
    using wf by (auto simp: batch_wf_def)
  have new: "\<forall>i < ?k. block_tables (block_mgr c) (?ids ! i) \<noteq> None \<longrightarrow> covers (block_mgr c) (?ids ! i) (?il ! i)"
    and run: "\<forall>i < length ?ids. ?k \<le> i \<longrightarrow> req_len c (?ids ! i) \<noteq> None"
    using wf l0 by (auto simp: batch_wf_def)
  have m: "rm_inv (req_mgr c)" "\<not> use_list (req_mgr c)" using inv by (auto simp: cpu_inv_def)
  have cov: "1 \<le> len \<and> covers (block_mgr c) r len" if "req_len c r = Some len" for r len
    using inv that unfolding cpu_inv_def by blast
  obtain rm1 where r1: "record_prefills (ab_build meta) (req_mgr c) = Ok rm1" and ul1: "\<not> use_list rm1"
    and rp: "\<forall>i < ?k. map_of (rm_dict rm1) (?ids ! i) = Some (?il ! i)"
      "\<forall>q. q \<notin> set (take ?k ?ids) \<longrightarrow> map_of (rm_dict rm1) q = req_len c q"
    using record_prefills_spec[of "req_mgr c" "ab_build meta" ?k] m b by auto
  have "map_of (rm_dict rm1) r \<noteq> None" if r: "r \<in> set ?ids" for r
  proof (cases "r \<in> set (take ?k ?ids)")
    case True
    then show ?thesis using rp(1) b(4) by (auto simp: in_set_conv_nth)
  next
    case False
    obtain i where i: "i < length ?ids" "r = ?ids ! i" using r by (auto simp: in_set_conv_nth)
    then have "?k \<le> i" using False b(4) by (metis in_set_conv_nth length_take min.absorb2 not_le nth_take)
    then show ?thesis using rp(2) run i False by simp
  qed
  then obtain lens where ls: "mapM (get_decode_seq_lens rm1) ?ids = Ok lens" using mapM_get_dict[OF ul1] by blast
  note fl = first_layer_lens[OF m b(1) b(3-5) r1 ls]
  have ctx: "lens ! i = (if i < ?k then ?il ! i else the (req_len c (?ids ! i)))" if "i < length ?ids" for i
    using fl(4,5) that by simp
  have c1: "\<forall>i < length ?ids. ?k \<le> i \<longrightarrow> covers (block_mgr c) (?ids ! i) (lens ! i)" using fl(5) cov by blast
  have c2: "0 \<le> lens ! i" if "i < length ?ids" for i
    using fl(4,5) b(5,6) cov[of "?ids ! i" "lens ! i"] that by (cases "i < ?k") auto
  have "\<forall>i < length ?ids. 0 \<le> lens ! i \<and> nblk (bm_block_size (block_mgr c)) (lens ! i + 1) \<le> B (?ids ! i)"
    using c2 le ctx by (simp add: add.commute)
  then obtain bm where bm: "bm_update_block_table (block_mgr c) meta lens = Ok bm"
    using bm_update_total[OF w fin b(1,2) D b(4-6) fl(3) _ c1] fl(4) new by blast
  obtain rm2 where "foldM (\<lambda>m (r, l). update_decode_seq_lens m r l) rm1 (zip ?ids (map (\<lambda>l. l + 1) lens)) = Ok rm2"
    using dict_update_loop[OF fl(1,2) b(1), of "map (\<lambda>l. l + 1) lens"] fl(3) by auto
  then have "foldM (\<lambda>rm (rid, l). update_decode_seq_lens rm rid (l + 1)) rm1 (zip ?ids lens) = Ok rm2"
    by (simp add: zip_map2 foldM_map case_prod_unfold)
  then show ?thesis
    using l0 r1 ls bm by (simp add: cpu_update_block_table_def py_get_nonneg)
qed

section \<open>Properties\<close>

lemma table_width_le: "(\<And>l. l \<in> set ls \<Longrightarrow> length l \<le> m) \<Longrightarrow> table_width ls \<le> m"
proof -
  have "k \<le> m \<Longrightarrow> (\<And>l. l \<in> set ls \<Longrightarrow> length l \<le> m) \<Longrightarrow> foldl (\<lambda>m l. max m (length l)) k ls \<le> m" for k
    by (induction ls arbitrary: k) auto
  then show "(\<And>l. l \<in> set ls \<Longrightarrow> length l \<le> m) \<Longrightarrow> table_width ls \<le> m" by (simp add: table_width_def)
qed

lemma nblk_le:
  assumes "0 < bs" and "1 \<le> len" and "len \<le> m * bs"
  shows "nblk bs len \<le> nat m"
proof -
  have "len - 1 < m * bs" using assms by linarith
  moreover have "(len - 1) div bs * bs \<le> len - 1"
    using div_mult_mod_eq[of "len - 1" bs] pos_mod_sign[OF assms(1), of "len - 1"] by linarith
  ultimately have "(len - 1) div bs * bs < m * bs" by linarith
  then have "(len - 1) div bs < m" using assms(1) by (simp add: mult_less_cancel_right)
  then show ?thesis using nblk_pos[OF assms(1), of len] assms(2) by linarith
qed

text \<open>
  A concrete run: blocks of two tokens, eight blocks, and a batch with two new requests of three
  and two tokens.
\<close>

definition demo_c0 :: cpu_manager where
  "demo_c0 = projr (cpu_init (\<lambda>_. 7) [0, 1] 2 8 16 4 4 True True)"

definition demo_meta :: batch_meta where
  "demo_meta = \<lparr> meta_num_tokens = 2, layer_id = 0, req_ids = [10, 11], init_prefill_lens = [3, 2],
     num_prefill_seqs = 2, num_prefill_tokens = 2, num_decode_tokens = 0 \<rparr>"

definition demo_c1 :: cpu_manager where
  "demo_c1 = fst (projr (cpu_update_block_table demo_c0 demo_meta (ab_build demo_meta)))"

definition demo_b1 :: attn_batch where
  "demo_b1 = snd (projr (cpu_update_block_table demo_c0 demo_meta (ab_build demo_meta)))"

lemma demo_init: "cpu_init (\<lambda>_. 7) [0, 1] 2 8 16 4 4 True True = Ok demo_c0"
  unfolding demo_c0_def by (rule Ok_projr) code_simp

lemma demo_update: "cpu_update_block_table demo_c0 demo_meta (ab_build demo_meta) = Ok (demo_c1, demo_b1)"
  unfolding demo_c1_def demo_b1_def prod.collapse by (rule Ok_projr) code_simp

lemma demo_c0_empty: "req_len demo_c0 r = None" "block_tables (block_mgr demo_c0) r = None" "layer_ids demo_c0 = [0, 1]"
  by (simp_all add: demo_c0_def cpu_init_def rm_init_def bm_init_def Let_def)

lemma demo_wf: "batch_wf demo_c0 demo_meta"
  by (simp add: batch_wf_def demo_c0_empty demo_meta_def)

lemma demo_reach: "cpu_reach demo_c0 demo_c1"
  using cpu_reach.step[OF cpu_reach.start cpu_step.update[OF demo_wf demo_update]] .

text \<open>
  C2: Whatever sequence of updates, packings, releases, resets and preloads, a KV slot belongs to
  one token: two positions of running requests, of the same request or of two, never share a slot,
  and every slot lies within the cache.
\<close>

theorem kv_slots_private:
  assumes "cpu_init junk lids bs nb msl mb mr gdr rebind = Ok c0" and "0 < bs" and "cpu_reach c0 c"
    and "req_len c r = Some len" and "0 \<le> p" and "p < len"
    and "req_len c q = Some len'" and "0 \<le> p'" and "p' < len'" and "(r, p) \<noteq> (q, p')"
  shows "slot_of bs (the (block_tables (block_mgr c) r)) p \<noteq> slot_of bs (the (block_tables (block_mgr c) q)) p'
    \<and> 0 \<le> slot_of bs (the (block_tables (block_mgr c) r)) p
    \<and> slot_of bs (the (block_tables (block_mgr c) r)) p < nb * bs"
proof -
  have inv: "cpu_inv c" and fr: "bm_frame (bm_init bs nb 0) (block_mgr c)"
    using cpu_reach_inv[OF assms(3)] cpu_init_inv[OF assms(1,2)] by auto
  have bs: "bm_block_size (block_mgr c) = bs" using fr by (simp add: bm_frame_def bm_init_def)
  have ex: "bm_exclusive (block_mgr c)" using inv by (simp add: cpu_inv_def)
  obtain l k where l: "block_tables (block_mgr c) r = Some l" "length l = nblk bs len"
    and k: "block_tables (block_mgr c) q = Some k" "length k = nblk bs len'"
    using inv assms(4,7) bs unfolding cpu_inv_def covers_def by metis
  have ne: "slot_of bs l p \<noteq> slot_of bs k p'"
    using slot_of_inj[OF ex bs[symmetric] l assms(5,6) k assms(8,9)] assms(10) by blast
  have "nat (p div bs) < length l" by (rule block_index_in[OF assms(2,5,6) l(2)])
  then have "l ! nat (p div bs) \<in># owned_of (block_tables (block_mgr c))"
    using owned_count[of "block_tables (block_mgr c)" r l "l ! nat (p div bs)"] l(1) ex
    by (simp add: bm_exclusive_def bm_wf_def) (metis count_greater_zero_iff nth_mem_mset order_less_le_trans)
  then have "l ! nat (p div bs) \<in># bm_total (bm_init bs nb 0)"
    using fr by (metis bm_frame_def bm_total_def union_iff)
  then have b: "0 \<le> l ! nat (p div bs)" "l ! nat (p div bs) < nb"
    by (auto simp: bm_total_def bm_init_def owned_of_def)
  have m: "0 \<le> p mod bs" "p mod bs < bs" using assms(2) by auto
  have "0 \<le> l ! nat (p div bs) * bs" using b(1) assms(2) by simp
  moreover have "(l ! nat (p div bs) + 1) * bs \<le> nb * bs" using b(2) assms(2) by (intro mult_right_mono) auto
  ultimately have "0 \<le> slot_of bs l p" "slot_of bs l p < nb * bs"
    using m unfolding slot_of_def by (simp_all add: distrib_right)
  then show ?thesis using ne l(1) k(1) by simp
qed

theorem kv_slots_private_witness:
  "slot_of 2 (the (block_tables (block_mgr demo_c1) 10)) 3 \<noteq> slot_of 2 (the (block_tables (block_mgr demo_c1) 11)) 1
    \<and> slot_of 2 (the (block_tables (block_mgr demo_c1) 10)) 3 < 16"
proof -
  have "req_len demo_c1 10 = Some 4" "req_len demo_c1 11 = Some 3" by code_simp+
  from kv_slots_private[OF demo_init _ demo_reach this(1) _ _ this(2), of 3 1] show ?thesis by simp
qed

text \<open>
  C4: Packing: after an update for a batch that fits the buffers, the routine chosen by the GDR
  and rebind switches returns the metadata of the reference: the block lists padded with -1, the
  slot of every request's last token, the lengths, the context lengths and the running sums. The
  optimised routine and both variants of the naive one are therefore interchangeable.
\<close>

theorem pack_is_reference:
  assumes "cpu_init junk lids bs nb msl mb mr gdr rebind = Ok c0" and "0 < bs" and "cpu_reach c0 c"
    and "batch_wf c meta" and "cpu_update_block_table c meta (ab_build meta) = Ok (c1, b1)"
    and "req_ids meta \<noteq> []" and "length (req_ids meta) \<le> mb"
    and "\<forall>l \<in> set (the (ab_seq_lens b1)). l \<le> msl div bs * bs"
  shows "\<exists>c2 b2. cpu_pack c1 meta b1 False
    = Ok (flash_ref (block_mgr c1) (req_ids meta) (the (ab_seq_lens b1)), c2, b2)"
proof -
  let ?c = "swap_batch_tensor_buffer c1" and ?mp = "nat (msl div bs)"
  have step: "cpu_step c c1" using cpu_step.update[OF assms(4,5)] .
  have inv0: "cpu_inv c" and inv: "cpu_inv c1" and fr: "bm_frame (bm_init bs nb 0) (block_mgr c1)"
    using cpu_reach_inv[OF assms(3)] cpu_reach_inv[OF cpu_reach.step[OF assms(3) step]] cpu_init_inv[OF assms(1,2)]
    by auto
  have "bufs_sized mb ?mp c0" using assms(1,2) by (auto simp: cpu_init_def Let_def bufs_sized_def buf_sized_def tb_init_def)
  then have sz: "bufs_sized mb ?mp c1" using cpu_reach_sized[OF cpu_reach.step[OF assms(3) step]] by simp
  have "\<exists>lens. length lens = length (req_ids meta) \<and> b1 = (ab_build meta)\<lparr>ab_seq_lens := Some lens\<rparr>
      \<and> (\<forall>i < length lens. req_len c1 (req_ids meta ! i) = Some (lens ! i))"
  proof (cases "layer_id meta = layer_ids c ! 0")
    case True
    from cpu_update_first_layer(4)[OF inv0 assms(4) True assms(5)] show ?thesis by blast
  next
    case False
    from cpu_update_other_layer[OF inv0 False assms(5)] show ?thesis by blast
  qed
  then obtain lens where len: "length lens = length (req_ids meta)" and b1: "b1 = (ab_build meta)\<lparr>ab_seq_lens := Some lens\<rparr>"
    and rl: "\<forall>i < length lens. req_len c1 (req_ids meta ! i) = Some (lens ! i)" by blast
  have bs: "bm_block_size (block_mgr c1) = bs" using fr by (simp add: bm_frame_def bm_init_def)
  have "length (the (block_tables (block_mgr c1) r)) \<le> ?mp" if "r \<in> set (req_ids meta)" for r
  proof -
    obtain i where i: "i < length lens" "r = req_ids meta ! i" using \<open>r \<in> set (req_ids meta)\<close> len
      by (auto simp: in_set_conv_nth)
    have "1 \<le> lens ! i \<and> covers (block_mgr c1) r (lens ! i)" using inv rl i unfolding cpu_inv_def by blast
    moreover have "lens ! i \<le> msl div bs * bs" using assms(8) b1 i by simp
    ultimately show ?thesis using nblk_le[OF assms(2), of "lens ! i" "msl div bs"] bs by (auto simp: covers_def)
  qed
  then have tw: "table_width (map (\<lambda>r. the (block_tables (block_mgr c1) r)) (req_ids meta)) \<le> ?mp"
    by (intro table_width_le) auto
  have "packable mb ?mp ?c meta b1 lens"
    using inv sz assms(4,6,7) len b1 rl tw
    by (simp add: packable_def bufs_sized_def swap_batch_tensor_buffer_def batch_wf_def cpu_inv_def)
  then show ?thesis
    using pack_opt_eq[of mb ?mp ?c meta b1 lens] pack_naive_eq[of mb ?mp ?c meta b1 lens] b1
    by (auto simp: cpu_pack_def Let_def swap_batch_tensor_buffer_def)
qed

theorem pack_is_reference_witness:
  "\<exists>c2 b2. cpu_pack demo_c1 demo_meta demo_b1 False
      = Ok (flash_ref (block_mgr demo_c1) [10, 11] [4, 3], c2, b2)
    \<and> fa_slot_mapping (flash_ref (block_mgr demo_c1) [10, 11] [4, 3]) = [3, 6]"
proof -
  have l: "the (ab_seq_lens demo_b1) = [4, 3]" by code_simp
  moreover have "fa_slot_mapping (flash_ref (block_mgr demo_c1) [10, 11] [4, 3]) = [3, 6]" by code_simp
  ultimately show ?thesis
    using pack_is_reference[OF demo_init _ cpu_reach.start demo_wf demo_update] by (simp add: demo_meta_def)
qed

end
