(* ===== verification/Gpu_Block_Manager.thy ===== *)
theory Gpu_Block_Manager
  imports Mem_Pool Block_Manager
begin

text \<open>
  \<open>GPUBlockManager\<close> of \<^verbatim>\<open>disagmoe/block_manager/block_manager.py\<close>: the block manager that keeps a
  row of slots per request in a \<open>ReqToTokenPool\<close> and takes slots from the token allocator. A
  length missing from a dictionary, \<open>None\<close> in Python, raises when a tensor is made of it. Lengths
  are at least 0.
\<close>

section \<open>State\<close>

record gpu_manager =
  gm_block_size :: int
  req_to_indice :: "int \<rightharpoonup> int"
  gm_decode_seq_lens :: "int \<rightharpoonup> int"
  req_seq_lens :: "int list"
  gm_pool :: req_to_token_pool
  gm_allocator :: kv_allocator
  gm_seq_start_loc :: "int list"
  query_start_loc_buffer :: "int list"

text \<open>The paged allocator behind \<open>assert False\<close> is never built.\<close>

definition gpu_init ::
    "(nat \<Rightarrow> int) \<Rightarrow> int \<Rightarrow> nat \<Rightarrow> nat \<Rightarrow> nat \<Rightarrow> nat \<Rightarrow> gpu_manager res" where
  "gpu_init junk bs num_gpu_blocks max_seq_len max_batch max_reqs =
     (if bs = 1 then
        Ok \<lparr> gm_block_size = bs, req_to_indice = Map.empty, gm_decode_seq_lens = Map.empty,
             req_seq_lens = map junk [0..<max_reqs], gm_pool = rt_init max_reqs max_seq_len,
             gm_allocator = tok_init num_gpu_blocks False,
             gm_seq_start_loc = replicate (max_batch + 1) 0,
             query_start_loc_buffer = map int [0..<max_batch + 1] \<rparr>
      else Raise AssertionError)"

definition gpu_reset_state :: "gpu_manager \<Rightarrow> gpu_manager" where
  "gpu_reset_state g =
     g\<lparr>gm_decode_seq_lens := Map.empty, req_to_indice := Map.empty,
       req_seq_lens := replicate (length (req_seq_lens g)) 0,
       gm_pool := rt_clear (gm_pool g), gm_allocator := tok_clear (gm_allocator g)\<rparr>"

section \<open>Release\<close>

text \<open>
  \<open>req_indices\<close> keeps the requests that have a length; the loop then pairs the unfiltered ids with
  it, so an id without a length shifts the pairs that follow.
\<close>

definition gpu_release_one :: "gpu_manager \<Rightarrow> int \<times> int \<Rightarrow> gpu_manager res" where
  "gpu_release_one g x =
     (let (rid, idx) = x in
      rbind (dict_get (gm_decode_seq_lens g) rid) (\<lambda>seq_len.
      rbind (py_get (req_to_token (gm_pool g)) idx) (\<lambda>row.
      Ok (g\<lparr>gm_allocator := tok_free (gm_allocator g) (take (nat seq_len) row),
            gm_decode_seq_lens := (gm_decode_seq_lens g)(rid := None)\<rparr>))))"

definition gpu_release_seqs :: "gpu_manager \<Rightarrow> int list \<Rightarrow> gpu_manager res" where
  "gpu_release_seqs g ids =
     rbind (mapM (\<lambda>i. given (req_to_indice g i)) (filter (\<lambda>i. gm_decode_seq_lens g i \<noteq> None) ids)) (\<lambda>idxs.
     rbind (foldM gpu_release_one
              (g\<lparr>gm_pool := rt_free (gm_pool g) idxs, gm_allocator := free_group_begin (gm_allocator g)\<rparr>)
              (zip ids idxs)) (\<lambda>g.
     Ok (g\<lparr>gm_allocator := free_group_end tok_free (gm_allocator g)\<rparr>)))"

section \<open>Update\<close>

text \<open>An allocation that answers \<open>None\<close>: the first use of the result raises \<open>e\<close>.\<close>

definition alloc_or :: "py_error \<Rightarrow> 'a option \<times> 's \<Rightarrow> ('a \<times> 's) res" where
  "alloc_or e p = (case fst p of None \<Rightarrow> Raise e | Some x \<Rightarrow> Ok (x, snd p))"

lemma alloc_or_eq_Ok [res_simps]: "alloc_or e p = Ok y \<longleftrightarrow> p = (Some (fst y), snd y)"
  by (cases p; cases y) (auto simp: alloc_or_def split: option.splits)

text \<open>One new request: its row, the slots of its prefill, its length.\<close>

definition gpu_admit :: "attn_batch \<Rightarrow> int list \<Rightarrow> gpu_manager \<Rightarrow> nat \<times> int \<Rightarrow> gpu_manager res" where
  "gpu_admit b new_indices g x =
     (let (i, rid) = x in
      rbind (py_get new_indices (int i)) (\<lambda>idx.
      rbind (py_get (ab_init_prefill_lens b) (int i)) (\<lambda>len.
      rbind (alloc_or TypeError (tok_alloc (gm_allocator g) (nat len))) (\<lambda>(locs, a).
      rbind (rt_write (gm_pool g) idx (nat len) locs) (\<lambda>p.
      Ok (g\<lparr>req_to_indice := (req_to_indice g)(rid \<mapsto> idx), gm_allocator := a, gm_pool := p,
            gm_decode_seq_lens := (gm_decode_seq_lens g)(rid \<mapsto> len)\<rparr>))))))"

definition bump_len :: "(int \<rightharpoonup> int) \<Rightarrow> int \<Rightarrow> (int \<rightharpoonup> int) res" where
  "bump_len d rid = rbind (dict_get d rid) (\<lambda>l. Ok (d(rid \<mapsto> l + 1)))"

text \<open>The body for the first layer.\<close>

definition gpu_update_first :: "gpu_manager \<Rightarrow> attn_batch \<Rightarrow> (gpu_manager \<times> attn_batch) res" where
  "gpu_update_first g b =
     (let k = ab_num_prefill_seqs b; ids = ab_req_ids b;
          num_tokens = ab_num_decode_tokens b + ab_num_prefill_tokens b in
      rbind (alloc_or TypeError (rt_alloc (gm_pool g) k)) (\<lambda>(new_indices, p).
      rbind (foldM (gpu_admit b new_indices) (g\<lparr>gm_pool := p\<rparr>) (enumerate 0 (take k ids))) (\<lambda>g.
      rbind (mapM (\<lambda>r. given (req_to_indice g r)) (drop k ids)) (\<lambda>running_indices.
      (let idxs = running_indices @ new_indices in
       rbind (mapM (\<lambda>r. given (gm_decode_seq_lens g r)) ids) (\<lambda>lens.
       rbind (foldM bump_len (gm_decode_seq_lens g) ids) (\<lambda>d.
       rbind (alloc_or AttributeError (tok_alloc (gm_allocator g) num_tokens)) (\<lambda>(locs, a).
       rbind (rt_write_loc (gm_pool g) idxs lens locs) (\<lambda>p.
       rbind (bcast (length idxs) (map (\<lambda>l. l + 1) lens)) (\<lambda>vals.
       rbind (foldM (\<lambda>l (i, v). py_set l i v) (req_seq_lens g) (zip idxs vals)) (\<lambda>rsl.
       Ok (g\<lparr>gm_decode_seq_lens := d, gm_allocator := a, gm_pool := p, req_seq_lens := rsl\<rparr>,
           b\<lparr>ab_seq_lens := Some (map (\<lambda>l. l + 1) lens),
             ab_seq_lens_tensor := Some (map (\<lambda>l. l + 1) lens),
             ab_req_indices := Some idxs\<rparr>))))))))))))"

definition gpu_update_block_table :: "gpu_manager \<Rightarrow> attn_batch \<Rightarrow> (gpu_manager \<times> attn_batch) res" where
  "gpu_update_block_table g b =
     (if ab_layer_id b = 0 then gpu_update_first g b
      else
        rbind (mapM (\<lambda>r. given (gm_decode_seq_lens g r)) (ab_req_ids b)) (\<lambda>lens.
        rbind (mapM (\<lambda>r. given (req_to_indice g r)) (ab_req_ids b)) (\<lambda>idxs.
        rbind (mapM (py_get (req_seq_lens g)) idxs) (\<lambda>lens_tensor.
        Ok (g, b\<lparr>ab_seq_lens := Some lens, ab_seq_lens_tensor := Some lens_tensor,
                 ab_req_indices := Some idxs\<rparr>)))))"

section \<open>Packing\<close>

text \<open>\<open>torch.cumsum\<close> into \<open>seq_start_loc[1 : n + 1]\<close>; the first entry stays.\<close>

definition gpu_pack ::
    "gpu_manager \<Rightarrow> attn_batch \<Rightarrow> bool \<Rightarrow> (flash_attn_metadata \<times> gpu_manager) res" where
  "gpu_pack g b dummy_cache =
     (let num_tokens = ab_num_decode_tokens b + ab_num_prefill_tokens b;
          num_seqs = ab_num_prefill_seqs b + ab_num_decode_tokens b in
      rbind (given (ab_seq_lens_tensor b)) (\<lambda>lens_tensor.
      rbind (given (ab_seq_lens b)) (\<lambda>lens.
      rbind (if length lens_tensor = num_tokens \<and> num_tokens < length (gm_seq_start_loc g)
             then Ok () else Raise RuntimeError) (\<lambda>_.
      (let context_lens = map (\<lambda>l. l - 1) lens_tensor;
           start = take 1 (gm_seq_start_loc g) @ tl (start_locs 0 lens_tensor)
                     @ drop (num_tokens + 1) (gm_seq_start_loc g);
           mx = max_or_0 lens in
       rbind (if dummy_cache then
                (if gm_block_size g = 0 then Raise ZeroDivisionError
                 else rbind (view_rows num_seqs (map int [0..<nat (int num_seqs * mx div gm_block_size g)]))
                   (\<lambda>bt. Ok (bt, map int [0..<num_tokens])))
              else
                rbind (given (ab_req_indices b)) (\<lambda>idxs.
                rbind (rt_get_block_table (gm_pool g) idxs (nat mx)) (\<lambda>bt.
                rbind (tensor_gather2 (req_to_token (gm_pool g)) idxs context_lens) (\<lambda>sm.
                Ok (bt, sm))))) (\<lambda>(bt, sm).
       Ok (\<lparr> num_prefills = 0, fa_num_prefill_tokens = 0, fa_num_decode_tokens = num_tokens,
             fa_slot_mapping = sm, fa_seq_lens = lens, fa_seq_lens_tensor = lens_tensor,
             max_query_len = 1, max_prefill_seq_len = 0, max_decode_seq_len = mx,
             max_decode_query_len = 1,
             fa_query_start_loc = take (num_tokens + 1) (query_start_loc_buffer g),
             fa_seq_start_loc = take (num_tokens + 1) start, context_lens_tensor = context_lens,
             fa_block_tables = bt, use_cuda_graph = False, enable_kv_scales_calculation = False \<rparr>,
           g\<lparr>gm_seq_start_loc := start\<rparr>)))))))"

section \<open>Rows and requests\<close>

text \<open>The loop over new requests gives the \<open>i\<close>-th one the \<open>i\<close>-th row.\<close>

lemma gpu_admit_indices:
  assumes "foldM (gpu_admit b new) g (enumerate n ids) = Ok g'" and "distinct ids" and "n + length ids \<le> length new"
  shows "(\<forall>i < length ids. req_to_indice g' (ids ! i) = Some (new ! (n + i)))
    \<and> (\<forall>q. q \<notin> set ids \<longrightarrow> req_to_indice g' q = req_to_indice g q)"
  using assms
proof (induction ids arbitrary: n g)
  case Nil
  then show ?case by simp
next
  case (Cons r ids)
  obtain g1 where a: "gpu_admit b new g (n, r) = Ok g1" and f: "foldM (gpu_admit b new) g1 (enumerate (Suc n) ids) = Ok g'"
    using Cons.prems(1) by (auto simp: res_simps)
  have n: "n < length new" using Cons.prems(3) by simp
  have g1: "req_to_indice g1 = (req_to_indice g)(r \<mapsto> new ! n)"
    using a n by (auto simp: gpu_admit_def res_simps py_get_nonneg)
  have ih: "\<forall>i < length ids. req_to_indice g' (ids ! i) = Some (new ! (Suc n + i))"
    "\<forall>q. q \<notin> set ids \<longrightarrow> req_to_indice g' q = req_to_indice g1 q"
    using Cons.IH[OF f] Cons.prems(2,3) by simp_all
  have "req_to_indice g' ((r # ids) ! i) = Some (new ! (n + i))" if "i < length (r # ids)" for i
    using that ih g1 Cons.prems(2) by (cases i) auto
  then show ?case using ih(2) g1 by auto
qed

text \<open>
  A concrete run: request 10 with a prefill of three tokens is admitted alone, then request 11 with
  a prefill of one token joins it in one batch.
\<close>

definition demo_g0 :: gpu_manager where
  "demo_g0 = projr (gpu_init (\<lambda>_. 0) 1 16 8 4 4)"

definition demo_gb1 :: attn_batch where
  "demo_gb1 = ab_build \<lparr> meta_num_tokens = 1, layer_id = 0, req_ids = [10], init_prefill_lens = [3],
     num_prefill_seqs = 1, num_prefill_tokens = 1, num_decode_tokens = 0 \<rparr>"

definition demo_gb2 :: attn_batch where
  "demo_gb2 = ab_build \<lparr> meta_num_tokens = 2, layer_id = 0, req_ids = [11, 10], init_prefill_lens = [1, - 1],
     num_prefill_seqs = 1, num_prefill_tokens = 1, num_decode_tokens = 1 \<rparr>"

definition demo_g1 :: "gpu_manager \<times> attn_batch" where
  "demo_g1 = projr (gpu_update_first demo_g0 demo_gb1)"

definition demo_g2 :: "gpu_manager \<times> attn_batch" where
  "demo_g2 = projr (gpu_update_first (fst demo_g1) demo_gb2)"

lemma demo_g1_Ok: "gpu_update_first demo_g0 demo_gb1 = Ok demo_g1"
  unfolding demo_g1_def by (rule Ok_projr) code_simp

lemma demo_g2_Ok: "gpu_update_first (fst demo_g1) demo_gb2 = Ok demo_g2"
  unfolding demo_g2_def by (rule Ok_projr) code_simp

text \<open>
  C37: The GPU block manager in a batch of new requests only, or of running requests only: the row
  indices handed to the attention kernel are those of the batch's requests, in the order of the
  lengths beside them.
\<close>

theorem gpu_pure_batch_aligned:
  assumes "gpu_update_first g b = Ok (g', b')" and "distinct (ab_req_ids b)"
    and "ab_num_prefill_seqs b = 0 \<or> ab_num_prefill_seqs b = length (ab_req_ids b)"
    and "ab_num_prefill_seqs b \<le> length (free_slots (gm_pool g))"
  shows "\<exists>idxs. ab_req_indices b' = Some idxs \<and> length idxs = length (ab_req_ids b)
    \<and> (\<forall>i < length idxs. req_to_indice g' (ab_req_ids b ! i) = Some (idxs ! i))"
proof -
  let ?k = "ab_num_prefill_seqs b" and ?ids = "ab_req_ids b"
  obtain new p where al: "rt_alloc (gm_pool g) ?k = (Some new, p)" and len: "length new = ?k"
    using assms(4) by (auto simp: rt_alloc_def)
  obtain g1 run where ad: "foldM (gpu_admit b new) (g\<lparr>gm_pool := p\<rparr>) (enumerate 0 (take ?k ?ids)) = Ok g1"
    and run: "mapM (\<lambda>r. given (req_to_indice g1 r)) (drop ?k ?ids) = Ok run"
    and idx: "ab_req_indices b' = Some (run @ new)" and g': "req_to_indice g' = req_to_indice g1"
    using assms(1) al by (auto simp: gpu_update_first_def Let_def res_simps)
  show ?thesis
    using assms(3)
  proof
    assume k: "?k = 0"
    then have "run @ new = run" and ids: "drop ?k ?ids = ?ids" using len by simp_all
    moreover have "length run = length ?ids" using mapM_length[OF run] ids by simp
    moreover have "req_to_indice g1 (?ids ! i) = Some (run ! i)" if "i < length ?ids" for i
      using mapM_nth[OF run, of i] ids that by (simp add: res_simps)
    ultimately show ?thesis using idx g' by auto
  next
    assume k: "?k = length ?ids"
    then have "run = []" using run by simp
    moreover have "\<forall>i < length ?ids. req_to_indice g1 (?ids ! i) = Some (new ! i)"
      using gpu_admit_indices[OF ad] k assms(2) len by simp
    ultimately show ?thesis using idx g' len k by auto
  qed
qed

theorem gpu_pure_batch_aligned_witness:
  "req_to_indice (fst demo_g1) 10 = Some 0 \<and> ab_req_indices (snd demo_g1) = Some [0]"
proof -
  have i: "ab_req_indices (snd demo_g1) = Some [0]" by code_simp
  have "\<exists>idxs. ab_req_indices (snd demo_g1) = Some idxs \<and> length idxs = length (ab_req_ids demo_gb1)
      \<and> (\<forall>i < length idxs. req_to_indice (fst demo_g1) (ab_req_ids demo_gb1 ! i) = Some (idxs ! i))"
    by (rule gpu_pure_batch_aligned[of demo_g0]) (simp add: demo_g1_Ok, code_simp+)
  then show ?thesis using i by (simp add: demo_gb1_def)
qed


end
