(* ===== verification/Config.thy ===== *)
theory Config
  imports Prelude
begin

text \<open>
  \<^verbatim>\<open>disagmoe/config.py\<close> and \<^verbatim>\<open>disagmoe/utils/utils.py\<close>: the model configuration with its presets, the
  counter that numbers devices and requests, and the small list helpers. A floating-point constant
  is kept as its decimal literal; no modelled code computes with one. The sizes the placement reads are
  natural numbers, the other sizes integers.
\<close>

section \<open>ModelConfig\<close>

datatype torch_dtype = bfloat16 | float8

text \<open>The literal \<open>m * 10 ^ e\<close>.\<close>

datatype decimal = Dec int int

datatype rope_value = Rope_str string | Rope_num decimal

record model_config =
  hidden_size :: nat
  num_layers :: nat
  head_dim :: nat
  num_heads :: nat
  num_kv_heads :: nat
  num_experts :: nat
  intermediate_size :: nat
  cfg_dtype :: torch_dtype
  ep_size :: nat
  tp_size :: nat
  dp_size :: nat
  cfg_rank :: nat
  cfg_layer_ids :: "nat list option"
  top_k :: nat
  max_seq_len :: int
  attn_qkv_quant :: "string option"
  moe_linear_quant :: "string option"
  num_shared_experts :: nat
  shared_expert_intermediate_size :: "nat option"
  max_position :: int
  rope_theta :: decimal
  rope_scaling :: "(string \<times> rope_value) list option"
  rms_norm_eps :: decimal
  layer_types :: "string list option"
  sliding_window :: "nat option"
  attention_bias :: bool
  attention_sinks :: bool
  router_norm :: string
  router_bias :: bool
  router_mode :: string
  swiglu_limit :: "decimal option"
  swiglu_alpha :: decimal
  expert_bias :: bool
  vocab_size :: "int option"
  eos_token_ids :: "int list option"
  weights_dir :: "string option"
  cfg_sampler :: string
  kv_source :: string
  mooncake_master :: "string option"
  kv_model_tag :: string

text \<open>The constructor with the fields that have no default, and the defaults of the others.\<close>

definition model_config_of :: "nat \<Rightarrow> nat \<Rightarrow> nat \<Rightarrow> nat \<Rightarrow> nat \<Rightarrow> nat \<Rightarrow> nat \<Rightarrow> model_config" where
  "model_config_of hs nl hdim nh nkv ne is =
     \<lparr> hidden_size = hs, num_layers = nl, head_dim = hdim, num_heads = nh, num_kv_heads = nkv,
       num_experts = ne, intermediate_size = is, cfg_dtype = bfloat16, ep_size = 1, tp_size = 1, dp_size = 1,
       cfg_rank = 0, cfg_layer_ids = None, top_k = 1, max_seq_len = 4096, attn_qkv_quant = None,
       moe_linear_quant = None, num_shared_experts = 0, shared_expert_intermediate_size = None,
       max_position = 4096 * 32, rope_theta = Dec 10000 0, rope_scaling = None, rms_norm_eps = Dec 1 (-6),
       layer_types = None, sliding_window = None, attention_bias = False, attention_sinks = False,
       router_norm = ''softmax_topk_renorm'', router_bias = False, router_mode = ''model'',
       swiglu_limit = None, swiglu_alpha = Dec 1702 (-3), expert_bias = False, vocab_size = None,
       eos_token_ids = None, weights_dir = None, cfg_sampler = ''dummy'', kv_source = ''none'',
       mooncake_master = None, kv_model_tag = ''gptoss120b'' \<rparr>"

definition num_experts_per_rank :: "model_config \<Rightarrow> nat res" where
  "num_experts_per_rank c =
     (if ep_size c = 0 then Raise ZeroDivisionError else Ok (num_experts c div ep_size c))"

definition sliding_window_of :: "model_config \<Rightarrow> int \<Rightarrow> nat option res" where
  "sliding_window_of c l =
     (case (layer_types c, sliding_window c) of
        (Some ts, Some w) \<Rightarrow>
          rbind (py_get ts l) (\<lambda>t. Ok (if t = ''sliding_attention'' then Some w else None))
      | _ \<Rightarrow> Ok None)"

section \<open>Presets\<close>

definition mixtral_config :: model_config where
  "mixtral_config = (model_config_of 4096 32 128 32 8 8 14336)\<lparr>ep_size := 8, top_k := 2\<rparr>"

definition duo_expert_mixtral :: model_config where
  "duo_expert_mixtral = (model_config_of 4096 32 128 32 8 2 14336)\<lparr>ep_size := 2\<rparr>"

definition qwen3_235b_config :: model_config where
  "qwen3_235b_config = (model_config_of 4096 94 128 64 4 128 1536)\<lparr>top_k := 8\<rparr>"

definition qwen3_30b_config :: model_config where
  "qwen3_30b_config = (model_config_of 2048 48 128 32 4 128 768)\<lparr>top_k := 8\<rparr>"

definition gptoss_120b_config :: model_config where
  "gptoss_120b_config = (model_config_of 2880 36 64 64 8 128 2880)
     \<lparr>top_k := 4, max_position := 131072, rope_theta := Dec 150000 0,
      rope_scaling := Some [(''rope_type'', Rope_str ''yarn''), (''factor'', Rope_num (Dec 32 0)),
        (''original_max_position_embeddings'', Rope_num (Dec 4096 0)), (''beta_fast'', Rope_num (Dec 32 0)), (''beta_slow'', Rope_num (Dec 1 0))],
      rms_norm_eps := Dec 1 (-5),
      layer_types := Some (map (\<lambda>i. if i mod 2 = 0 then ''sliding_attention'' else ''full_attention'') [0..<36]),
      sliding_window := Some 128, attention_bias := True, attention_sinks := True,
      router_norm := ''topk_softmax'', router_bias := True, swiglu_limit := Some (Dec 7 0), swiglu_alpha := Dec 1702 (-3),
      expert_bias := True, vocab_size := Some 201088,
      eos_token_ids := Some [200002, 199999, 200012]\<rparr>"

definition glm45air_106b_config :: model_config where
  "glm45air_106b_config = (model_config_of 4096 45 128 96 8 128 1408)\<lparr>top_k := 8\<rparr>"

definition glm45air_half_config :: model_config where
  "glm45air_half_config = (model_config_of 4096 23 128 96 8 128 1408)\<lparr>top_k := 8\<rparr>"

section \<open>Counter\<close>

record counter =
  ctr_start :: int
  ctr_counter :: int
  ctr_end :: int
  ctr_step :: int

definition ctr_init :: "int \<Rightarrow> int \<Rightarrow> int \<Rightarrow> counter" where
  "ctr_init s e d = \<lparr> ctr_start = s, ctr_counter = s, ctr_end = e, ctr_step = d \<rparr>"

definition ctr_next :: "counter \<Rightarrow> int \<times> counter" where
  "ctr_next c =
     (let i = ctr_counter c; n = i + ctr_step c in
      (i, c\<lparr>ctr_counter := (if n \<ge> ctr_end c then 0 else n)\<rparr>))"

definition ctr_reset :: "counter \<Rightarrow> counter" where
  "ctr_reset c = c\<lparr>ctr_counter := ctr_start c\<rparr>"

fun ctr_take :: "nat \<Rightarrow> counter \<Rightarrow> int list \<times> counter" where
  "ctr_take 0 c = ([], c)"
| "ctr_take (Suc n) c = (let (i, c) = ctr_next c; (is, c) = ctr_take n c in (i # is, c))"

lemma ctr_take_eq:
  assumes "ctr_step c = 1" and "0 \<le> ctr_counter c" and "ctr_counter c + int n < ctr_end c"
  shows "ctr_take n c = ([ctr_counter c..ctr_counter c + int n - 1], c\<lparr>ctr_counter := ctr_counter c + int n\<rparr>)"
  using assms
proof (induction n arbitrary: c)
  case 0
  then show ?case by simp
next
  case (Suc n)
  let ?c = "c\<lparr>ctr_counter := ctr_counter c + 1\<rparr>"
  have n: "ctr_next c = (ctr_counter c, ?c)" using Suc.prems by (simp add: ctr_next_def Let_def)
  have "ctr_take n ?c = ([ctr_counter c + 1..ctr_counter c + 1 + int n - 1], c\<lparr>ctr_counter := ctr_counter c + 1 + int n\<rparr>)"
    using Suc.IH[of ?c] Suc.prems by simp
  moreover have "[ctr_counter c..ctr_counter c + int n] = ctr_counter c # [ctr_counter c + 1..ctr_counter c + int n]"
    by (rule upto_rec1) simp
  ultimately show ?case using n by (simp add: algebra_simps)
qed

section \<open>List helpers\<close>

text \<open>\<open>make_seqlens_list\<close> and \<open>make_seqlens_cuda_tensor\<close>: running sums from 0, \<open>None\<close> for no lengths.\<close>

definition make_seqlens_cuda_tensor :: "int list \<Rightarrow> int list option" where
  "make_seqlens_cuda_tensor lens =
     (if lens = [] then None else Some (foldl (\<lambda>s l. s @ [last s + l]) [0] lens))"

definition make_seqlens_list :: "int list \<Rightarrow> int list option \<Rightarrow> int list option res" where
  "make_seqlens_list lens dst =
     (let n = length lens in
      if n = 0 then Ok None
      else
        rbind (case dst of None \<Rightarrow> Ok (replicate (n + 1) 0)
               | Some d \<Rightarrow> rbind (py_assert (length d = n + 1)) (\<lambda>_. Ok d)) (\<lambda>d.
        Ok (Some (foldl (\<lambda>d i. d[i + 1 := d ! i + lens ! i]) (d[0 := 0]) [0..<n]))))"

text \<open>\<open>get_graph_batch_size\<close>: the first bucket that holds the batch, with its index.\<close>

fun graph_batch_size_from :: "nat \<Rightarrow> nat \<Rightarrow> nat list \<Rightarrow> (nat \<times> nat) res" where
  "graph_batch_size_from i b [] = Raise AssertionError"
| "graph_batch_size_from i b (s # ss) = (if s \<ge> b then Ok (i, s) else graph_batch_size_from (i + 1) b ss)"

definition get_graph_batch_size :: "nat \<Rightarrow> nat list \<Rightarrow> (nat \<times> nat) res" where
  "get_graph_batch_size b sizes = graph_batch_size_from 0 b sizes"

lemma foldl_sums: "foldl (\<lambda>s l. s @ [last s + l]) (p @ [a]) ls = p @ [a] @ map (\<lambda>i. a + sum_list (take (Suc i) ls)) [0..<length ls]"
proof (induction ls arbitrary: p a)
  case Nil
  then show ?case by simp
next
  case (Cons l ls)
  have "foldl (\<lambda>s l. s @ [last s + l]) (p @ [a]) (l # ls) = foldl (\<lambda>s l. s @ [last s + l]) ((p @ [a]) @ [a + l]) ls" by simp
  also have "\<dots> = (p @ [a]) @ [a + l] @ map (\<lambda>i. a + l + sum_list (take (Suc i) ls)) [0..<length ls]" by (rule Cons.IH)
  finally show ?case
    by (simp add: upt_conv_Cons map_Suc_upt[symmetric] add.assoc del: upt_Suc)
qed

lemma foldl_update_sums:
  assumes "length d = length lens + 1" and "d ! 0 = 0" and "k \<le> length lens"
  shows "let e = foldl (\<lambda>d i. d[i + 1 := d ! i + lens ! i]) d [0..<k] in
    length e = length d \<and> (\<forall>i \<le> k. e ! i = sum_list (take i lens))"
  using assms(3)
proof (induction k)
  case 0
  then show ?case using assms by simp
next
  case (Suc k)
  define e where "e = foldl (\<lambda>d i. d[i + 1 := d ! i + lens ! i]) d [0..<k]"
  have e: "length e = length d" "\<forall>i \<le> k. e ! i = sum_list (take i lens)" using Suc by (auto simp: e_def Let_def)
  have "(e[k + 1 := e ! k + lens ! k]) ! i = sum_list (take i lens)" if "i \<le> Suc k" for i
    using that e Suc.prems assms(1) by (cases "i = Suc k") (auto simp: take_Suc_conv_app_nth)
  moreover have "foldl (\<lambda>d i. d[i + 1 := d ! i + lens ! i]) d [0..<Suc k] = e[k + 1 := e ! k + lens ! k]"
    by (simp add: e_def)
  ultimately show ?case unfolding Let_def using e(1) by (simp only: length_list_update) blast
qed

text \<open>The two helpers agree.\<close>

lemma make_seqlens_agree:
  assumes "lens \<noteq> []"
  shows "make_seqlens_list lens None = Ok (make_seqlens_cuda_tensor lens)"
proof -
  let ?e = "foldl (\<lambda>d i. d[i + 1 := d ! i + lens ! i]) ((replicate (length lens + 1) 0)[0 := 0]) [0..<length lens]"
  have e: "length ?e = length lens + 1" "\<forall>i \<le> length lens. ?e ! i = sum_list (take i lens)"
    using foldl_update_sums[of "(replicate (length lens + 1) 0)[0 := 0]" lens "length lens"] by (auto simp: Let_def)
  have c: "foldl (\<lambda>s l. s @ [last s + l]) [0] lens = 0 # map (\<lambda>i. sum_list (take (Suc i) lens)) [0..<length lens]"
    using foldl_sums[of "[]" 0 lens] by simp
  have "?e = 0 # map (\<lambda>i. sum_list (take (Suc i) lens)) [0..<length lens]"
  proof (rule nth_equalityI)
    show "length ?e = length (0 # map (\<lambda>i. sum_list (take (Suc i) lens)) [0..<length lens])" using e(1) by simp
    show "?e ! i = (0 # map (\<lambda>i. sum_list (take (Suc i) lens)) [0..<length lens]) ! i" if "i < length ?e" for i
      using e that by (cases i) auto
  qed
  then show ?thesis using assms c by (simp add: make_seqlens_list_def make_seqlens_cuda_tensor_def Let_def)
qed

lemma graph_batch_size_from_spec:
  "(\<exists>s \<in> set ss. b \<le> s) \<Longrightarrow> \<exists>j < length ss. graph_batch_size_from i b ss = Ok (i + j, ss ! j) \<and> b \<le> ss ! j \<and> (\<forall>k < j. ss ! k < b)"
proof (induction ss arbitrary: i)
  case (Cons s ss)
  show ?case
  proof (cases "b \<le> s")
    case True
    then show ?thesis by (intro exI[of _ 0]) simp
  next
    case False
    then obtain j where "j < length ss" "graph_batch_size_from (i + 1) b ss = Ok (i + 1 + j, ss ! j)" "b \<le> ss ! j"
        "\<forall>k < j. ss ! k < b"
      using Cons.IH[of "i + 1"] Cons.prems by auto
    then show ?thesis using False by (intro exI[of _ "Suc j"]) (auto simp: less_Suc_eq_0_disj)
  qed
qed simp

end
