(* ===== verification/Placement.thy ===== *)
theory Placement
  imports Config
begin

text \<open>
  \<^verbatim>\<open>disagmoe/utils/placement.py\<close>: which device runs which attention layers and which experts, the
  edges between devices, and the ranks. Dictionaries are association lists in insertion order.
  Device, layer and expert ids are natural numbers.
\<close>

section \<open>Dictionaries of lists\<close>

type_synonym ('k, 'v) dict = "('k \<times> 'v) list"

definition dict_item :: "('k, 'v) dict \<Rightarrow> 'k \<Rightarrow> 'v res" where
  "dict_item d k = dict_get (map_of d) k"

definition dict_getd :: "('k, 'v) dict \<Rightarrow> 'k \<Rightarrow> 'v \<Rightarrow> 'v" where
  "dict_getd d k x = (case map_of d k of None \<Rightarrow> x | Some v \<Rightarrow> v)"

text \<open>\<open>d[k].extend(xs)\<close>.\<close>

definition dict_extend :: "('k, 'v list) dict \<Rightarrow> 'k \<Rightarrow> 'v list \<Rightarrow> ('k, 'v list) dict res" where
  "dict_extend d k xs = rbind (dict_item d k) (\<lambda>l. Ok (AList.update k (l @ xs) d))"

definition dict_append :: "('k, 'v list) dict \<Rightarrow> 'k \<times> 'v \<Rightarrow> ('k, 'v list) dict res" where
  "dict_append d kx = dict_extend d (fst kx) [snd kx]"

section \<open>ModelPlacement\<close>

record model_placement =
  mp_attn :: "(nat, nat list) dict"
  mp_expert :: "(nat, (nat \<times> nat) list) dict"
  in_device_ids :: "(nat, nat list) dict"
  out_device_ids :: "(nat, nat list) dict"
  device_groups :: "(nat, nat list) dict option"
  expert_ranks :: "(nat \<times> nat, nat) dict option"
  attn_dp_ranks :: "(nat, nat) dict option"
  local_expert_counts :: "(nat, nat) dict option"
  is_hybrid :: bool

definition new_placement :: "(nat, nat list) dict \<Rightarrow> (nat, (nat \<times> nat) list) dict \<Rightarrow> (nat, nat list) dict option \<Rightarrow> model_placement" where
  "new_placement attn expert groups =
     \<lparr> mp_attn = attn, mp_expert = expert, in_device_ids = [], out_device_ids = [], device_groups = groups,
       expert_ranks = None, attn_dp_ranks = None, local_expert_counts = None, is_hybrid = False \<rparr>"

text \<open>A use of an attribute that is still \<open>None\<close> raises.\<close>

definition attr :: "'a option \<Rightarrow> 'a res" where
  "attr x = (case x of None \<Rightarrow> Raise TypeError | Some v \<Rightarrow> Ok v)"

lemma attr_simps [simp]: "attr (Some v) = Ok v" "attr None = Raise TypeError"
  by (simp_all add: attr_def)

definition expert_rank_at :: "model_placement \<Rightarrow> nat \<Rightarrow> nat res" where
  "expert_rank_at p dev =
     rbind (py_assert (map_of (mp_expert p) dev \<noteq> None)) (\<lambda>_.
     rbind (py_assert (expert_ranks p \<noteq> None)) (\<lambda>_.
     rbind (dict_item (mp_expert p) dev) (\<lambda>ids.
     rbind (mapM (dict_item (the (expert_ranks p))) ids) (\<lambda>ranks.
     rbind (py_assert (card (set ranks) = 1)) (\<lambda>_.
     py_get ranks 0)))))"

fun index_or_0 :: "nat \<Rightarrow> nat \<Rightarrow> nat list \<Rightarrow> nat" where
  "index_or_0 i x [] = 0"
| "index_or_0 i x (d # ds) = (if d = x then i else index_or_0 (i + 1) x ds)"

definition attn_rank_at :: "model_placement \<Rightarrow> nat \<Rightarrow> nat res" where
  "attn_rank_at p dev =
     rbind (py_assert (map_of (mp_attn p) dev \<noteq> None)) (\<lambda>_.
     rbind (attr (device_groups p)) (\<lambda>g.
     rbind (dict_item g dev) (\<lambda>ds. Ok (index_or_0 0 dev ds))))"

definition rank_at :: "model_placement \<Rightarrow> nat \<Rightarrow> nat res" where
  "rank_at p dev = (if map_of (mp_expert p) dev \<noteq> None then expert_rank_at p dev else attn_rank_at p dev)"

definition out_expert_ranks_at :: "model_placement \<Rightarrow> nat \<Rightarrow> (nat \<times> nat \<times> nat) list res" where
  "out_expert_ranks_at p dev =
     (case map_of (out_device_ids p) dev of
        None \<Rightarrow> Ok []
      | Some outs \<Rightarrow>
          rbind (mapM (\<lambda>d. case map_of (mp_expert p) d of
                     None \<Rightarrow> Ok []
                   | Some les \<Rightarrow> mapM (\<lambda>(l, e). rbind (attr (expert_ranks p)) (\<lambda>er.
                                   rbind (dict_item er (l, e)) (\<lambda>r. Ok (l, e, r)))) les) outs)
            (\<lambda>rs. Ok (concat rs)))"

definition attn_layer_ids_at :: "model_placement \<Rightarrow> nat \<Rightarrow> nat list" where
  "attn_layer_ids_at p dev = dict_getd (mp_attn p) dev []"

definition expert_ids_at :: "model_placement \<Rightarrow> nat \<Rightarrow> (nat \<times> nat) list" where
  "expert_ids_at p dev = dict_getd (mp_expert p) dev []"

definition unique_expert_ids_at :: "model_placement \<Rightarrow> nat \<Rightarrow> nat list" where
  "unique_expert_ids_at p dev = sort (remdups (map snd (expert_ids_at p dev)))"

definition local_num_experts_at :: "model_placement \<Rightarrow> nat \<Rightarrow> nat" where
  "local_num_experts_at p dev =
     (case local_expert_counts p of
        None \<Rightarrow> length (unique_expert_ids_at p dev)
      | Some cs \<Rightarrow> dict_getd cs dev (length (unique_expert_ids_at p dev)))"

definition attn_dp_rank_at :: "model_placement \<Rightarrow> nat \<Rightarrow> nat res" where
  "attn_dp_rank_at p dev = rbind (attr (attn_dp_ranks p)) (\<lambda>d. Ok (dict_getd d dev 0))"

definition layer_ids_at :: "model_placement \<Rightarrow> nat \<Rightarrow> nat list" where
  "layer_ids_at p dev = sort (remdups (attn_layer_ids_at p dev @ map fst (expert_ids_at p dev)))"

text \<open>\<open>add_edge\<close>: both directions, each edge once.\<close>

definition add_edge :: "model_placement \<Rightarrow> nat \<times> nat \<Rightarrow> model_placement" where
  "add_edge p sd =
     (let (src, dst) = sd;
          ins = (if map_of (in_device_ids p) dst = None then AList.update dst [] (in_device_ids p) else in_device_ids p);
          outs = (if map_of (out_device_ids p) src = None then AList.update src [] (out_device_ids p) else out_device_ids p)
      in
      if src \<notin> set (dict_getd ins dst []) then
        p\<lparr>in_device_ids := AList.update dst (dict_getd ins dst [] @ [src]) ins,
          out_device_ids := AList.update src (dict_getd outs src [] @ [dst]) outs\<rparr>
      else p\<lparr>in_device_ids := ins, out_device_ids := outs\<rparr>)"

definition is_worker_device :: "model_placement \<Rightarrow> nat \<Rightarrow> bool res" where
  "is_worker_device p dev =
     rbind (attr (device_groups p)) (\<lambda>g.
     case map_of g dev of None \<Rightarrow> Ok False | Some ds \<Rightarrow> rbind (py_get ds 0) (\<lambda>d. Ok (d \<noteq> dev)))"

definition has_attn :: "model_placement \<Rightarrow> nat \<Rightarrow> bool" where
  "has_attn p dev = (map_of (mp_attn p) dev \<noteq> None)"

definition in_device_ids_at :: "model_placement \<Rightarrow> nat \<Rightarrow> nat list" where
  "in_device_ids_at p dev = dict_getd (in_device_ids p) dev []"

definition out_device_ids_at :: "model_placement \<Rightarrow> nat \<Rightarrow> nat list" where
  "out_device_ids_at p dev = dict_getd (out_device_ids p) dev []"

section \<open>PlacementBase\<close>

record cluster_config =
  n_node :: nat
  n_gpu :: nat

text \<open>The devices that hold each layer, in the order of the dictionaries.\<close>

definition devs_by_layer :: "nat \<Rightarrow> (nat \<times> nat list) list \<Rightarrow> (nat, nat list) dict res" where
  "devs_by_layer n items =
     foldM dict_append (map (\<lambda>l. (l, [])) [0..<n]) (concat (map (\<lambda>(dev, ls). map (\<lambda>l. (l, dev)) ls) items))"

text \<open>The edges in the order of the loops: the loop body for one layer, then the last loop.\<close>

definition layer_edges :: "(nat, nat list) dict \<Rightarrow> (nat, nat list) dict \<Rightarrow> nat \<Rightarrow> (nat \<times> nat) list" where
  "layer_edges attn_devs exp_devs l =
     (if l > 0 then concat (map (\<lambda>dev. map (\<lambda>prev. (prev, dev)) (dict_getd exp_devs (l - 1) [])) (dict_getd attn_devs l []))
      else [])
     @ concat (map (\<lambda>dev. map (\<lambda>e. (dev, e)) (dict_getd exp_devs l [])) (dict_getd attn_devs l []))"

definition add_edges :: "nat \<Rightarrow> model_placement \<Rightarrow> model_placement res" where
  "add_edges n p =
     rbind (devs_by_layer n (mp_attn p)) (\<lambda>attn_devs.
     rbind (devs_by_layer n (map (\<lambda>(dev, les). (dev, map fst les)) (mp_expert p))) (\<lambda>exp_devs.
     rbind (dict_item attn_devs 0) (\<lambda>first.
     Ok (foldl add_edge p
           (concat (map (layer_edges attn_devs exp_devs) [0..<n])
            @ concat (map (\<lambda>dev. map (\<lambda>prev. (prev, dev)) (dict_getd exp_devs (n - 1) [])) first))))))"

text \<open>The rank of an expert: its device under an explicit allocation, else \<open>e // experts_per_rank\<close>.\<close>

definition update_expert_rank :: "model_config \<Rightarrow> nat list option \<Rightarrow> model_placement \<Rightarrow> model_placement res" where
  "update_expert_rank mc alloc p =
     (case alloc of
        Some _ \<Rightarrow> Ok (p\<lparr>expert_ranks := Some (foldl (\<lambda>d (k, v). AList.update k v d) []
                         (concat (map (\<lambda>(dev, les). map (\<lambda>le. (le, dev)) les) (mp_expert p))))\<rparr>)
      | None \<Rightarrow>
          if num_layers mc = 0 \<or> num_experts mc = 0 then Ok (p\<lparr>expert_ranks := Some []\<rparr>)
          else
            rbind (num_experts_per_rank mc) (\<lambda>npr.
            if npr = 0 then Raise ZeroDivisionError
            else Ok (p\<lparr>expert_ranks := Some (concat (map (\<lambda>l. map (\<lambda>e. ((l, e), e div npr)) [0..<num_experts mc])
                        [0..<num_layers mc]))\<rparr>)))"

section \<open>SinglePlacement\<close>

text \<open>One layer: \<open>rep\<close> attention devices, then one device per expert, numbered by the counter.\<close>

definition single_layer ::
    "nat \<Rightarrow> nat \<Rightarrow> counter \<times> (nat, nat list) dict \<times> (nat, (nat \<times> nat) list) dict \<Rightarrow> nat
      \<Rightarrow> counter \<times> (nat, nat list) dict \<times> (nat, (nat \<times> nat) list) dict" where
  "single_layer rep n_expert st i =
     (let (c, attn, expert) = st; (as, c) = ctr_take rep c; (es, c) = ctr_take n_expert c in
      (c, foldl (\<lambda>d a. AList.update (nat a) [i] d) attn as,
       foldl (\<lambda>d (e, j). AList.update (nat e) [(i, j)] d) expert (zip es [0..<n_expert])))"

definition single_solve :: "nat \<Rightarrow> model_config \<Rightarrow> cluster_config \<Rightarrow> model_placement res" where
  "single_solve rep mc cl =
     (let n_layer = num_layers mc; n_expert = num_experts mc in
      rbind (py_assert (n_layer * (rep + n_expert) \<le> n_node cl * n_gpu cl)) (\<lambda>_.
      (let (c, attn, expert) = foldl (single_layer rep n_expert) (ctr_init 0 2000000000 1, [], []) [0..<n_layer];
           pg = new_placement attn expert None
       in
       rbind (py_assert (length attn = n_layer * rep)) (\<lambda>_.
       rbind (py_assert (length (in_device_ids pg) = n_layer * (rep + n_expert) + 1)) (\<lambda>_.
       rbind (py_assert (length (out_device_ids pg) = n_layer * (rep + n_expert) + 1)) (\<lambda>_.
       Ok pg))))))"

section \<open>InterleavePlacement\<close>

record interleave_state =
  il_counter :: counter
  il_attn_devs :: "nat list"
  il_exp_devs :: "nat list list"
  il_groups :: "(nat, nat list) dict"

definition interleave_group :: "nat \<Rightarrow> nat \<Rightarrow> nat \<Rightarrow> interleave_state \<Rightarrow> nat \<Rightarrow> interleave_state" where
  "interleave_group tp ep npr st i =
     (let (as, c) = ctr_take tp (il_counter st);
          attn_devs = il_attn_devs st @ map nat as;
          devs = last_n tp attn_devs;
          groups = foldl (\<lambda>g dev. AList.update dev devs g) (il_groups st) devs;
          (es, c) = ctr_take ep c
      in \<lparr> il_counter = c, il_attn_devs = attn_devs,
           il_exp_devs = il_exp_devs st @ [concat (map (\<lambda>e. replicate npr (nat e)) es)],
           il_groups = groups \<rparr>)"

definition interleave_layer ::
    "nat \<Rightarrow> nat \<Rightarrow> nat \<Rightarrow> interleave_state
      \<Rightarrow> (nat, nat list) dict \<times> (nat, (nat \<times> nat) list) dict \<Rightarrow> nat
      \<Rightarrow> ((nat, nat list) dict \<times> (nat, (nat \<times> nat) list) dict) res" where
  "interleave_layer tp n_group n_expert st ae i =
     (if n_group = 0 then Raise ZeroDivisionError
      else
        rbind (py_get (il_attn_devs st) (int (i mod n_group * tp))) (\<lambda>driver.
        rbind (foldM dict_append (fst ae) (map (\<lambda>j. (driver + j, i)) [0..<tp])) (\<lambda>attn.
        rbind (foldM (\<lambda>d j. rbind (py_get (il_exp_devs st) (int (i mod n_group))) (\<lambda>row.
                       rbind (py_get row (int j)) (\<lambda>dev. dict_append d (dev, (i, j))))) (snd ae) [0..<n_expert])
          (\<lambda>expert. Ok (attn, expert)))))"

definition interleave_solve :: "model_config \<Rightarrow> cluster_config \<Rightarrow> model_placement res" where
  "interleave_solve mc cl =
     (let tp = tp_size mc; ep = ep_size mc; total = n_node cl * n_gpu cl in
      if ep + tp = 0 then Raise ZeroDivisionError
      else
        rbind (py_assert (total mod (ep + tp) = 0)) (\<lambda>_.
        (let n_group = total div (ep + tp) in
         rbind (if n_group = 0 \<or> ep = 0 then Ok 0 else num_experts_per_rank mc) (\<lambda>npr.
         (let st = foldl (interleave_group tp ep npr)
                     \<lparr> il_counter = ctr_init 0 2000000000 1, il_attn_devs = [], il_exp_devs = [], il_groups = [] \<rparr>
                     [0..<n_group];
              attn = foldl (\<lambda>d dev. AList.update dev [] d) [] (il_attn_devs st);
              expert = foldl (\<lambda>d dev. AList.update dev [] d) [] (concat (il_exp_devs st))
          in
          rbind (foldM (interleave_layer tp n_group (num_experts mc) st) (attn, expert) [0..<num_layers mc]) (\<lambda>(attn, expert).
          Ok (new_placement attn expert (Some (il_groups st)))))))))"

section \<open>PipelinePlacement\<close>

text \<open>The virtual mapping: layer ids per attention step and per expert step.\<close>

definition virtual_attn_dev :: "nat \<Rightarrow> nat \<Rightarrow> bool \<Rightarrow> nat \<Rightarrow> nat res" where
  "virtual_attn_dev n p zigzag i =
     (if zigzag then (if p = 0 then Raise ZeroDivisionError else Ok (i mod p))
      else if p = 0 \<or> n div p = 0 then Raise ZeroDivisionError
      else Ok (i div (n div p)))"

definition solve_virtual ::
    "nat \<Rightarrow> nat \<Rightarrow> nat \<Rightarrow> bool \<Rightarrow> ((nat, nat list) dict \<times> (nat, nat list) dict) res" where
  "solve_virtual n p q zigzag =
     foldM (\<lambda>(attns, experts) i.
        rbind (virtual_attn_dev n p zigzag i) (\<lambda>a.
        if q = 0 then Raise ZeroDivisionError
        else
          rbind (dict_append attns (a, i)) (\<lambda>attns.
          rbind (dict_append experts (i mod q, i)) (\<lambda>experts. Ok (attns, experts)))))
       (map (\<lambda>i. (i, [])) [0..<p], map (\<lambda>i. (i, [])) [0..<q]) [0..<n]"

definition solve_physical ::
    "model_config \<Rightarrow> nat \<Rightarrow> nat \<Rightarrow> (nat, nat list) dict \<Rightarrow> (nat, nat list) dict \<Rightarrow> model_placement res" where
  "solve_physical mc p q vattn vexpert =
     (let tp = tp_size mc; dp = dp_size mc; ep = ep_size mc; w = p * tp * dp in
      rbind (foldM (\<lambda>d (k, ls). dict_extend d k ls) (map (\<lambda>i. (i, [])) [0..<w])
               (concat (map (\<lambda>(i, ls). map (\<lambda>j. ((i * dp + j) * tp, ls)) [0..<dp]) vattn))) (\<lambda>attns.
      rbind (if q = 0 \<or> num_experts mc = 0 then Ok 1 else num_experts_per_rank mc) (\<lambda>npr.
      if npr = 0 then Raise ZeroDivisionError
      else
        rbind (foldM dict_append (map (\<lambda>i. (i, [])) [w..<w + q * ep])
                 (concat (map (\<lambda>(i, ls). concat (map (\<lambda>e. map (\<lambda>l. (w + i * ep + e div npr, (l, e))) ls)
                    [0..<num_experts mc])) vexpert))) (\<lambda>experts.
        Ok (new_placement attns experts (Some (map (\<lambda>i. (i, [i * tp..<(i + 1) * tp])) [0..<p * dp])))))))"

definition pipeline_solve :: "nat \<Rightarrow> nat \<Rightarrow> bool \<Rightarrow> model_config \<Rightarrow> cluster_config \<Rightarrow> model_placement res" where
  "pipeline_solve p q zigzag mc cl =
     rbind (py_assert (n_node cl * n_gpu cl \<ge> p * tp_size mc * dp_size mc + q * ep_size mc)) (\<lambda>_.
     rbind (solve_virtual (num_layers mc) p q zigzag) (\<lambda>(vattn, vexpert).
     solve_physical mc p q vattn vexpert))"

definition pipeline_attn_dp_rank :: "model_config \<Rightarrow> model_placement \<Rightarrow> model_placement res" where
  "pipeline_attn_dp_rank mc pl =
     (if mp_attn pl \<noteq> [] \<and> (tp_size mc = 0 \<or> dp_size mc = 0) then Raise ZeroDivisionError
      else Ok (pl\<lparr>attn_dp_ranks := Some (map (\<lambda>(dev, _). (dev, dev div tp_size mc mod dp_size mc)) (mp_attn pl))\<rparr>))"

section \<open>ColocatePlacement\<close>

fun colocate_alloc :: "nat list \<Rightarrow> nat \<Rightarrow> nat \<Rightarrow> nat list \<Rightarrow> (nat \<times> nat \<times> nat) list \<times> nat" where
  "colocate_alloc layers dev eid [] = ([], eid)"
| "colocate_alloc layers dev eid (c # cs) =
     (let here = concat (map (\<lambda>e. map (\<lambda>l. (dev, (l, e))) layers) [eid..<eid + c]);
          (rest, eid') = colocate_alloc layers (dev + 1) (eid + c) cs
      in (here @ rest, eid'))"

definition colocate_experts ::
    "nat list option \<Rightarrow> model_config \<Rightarrow> nat \<Rightarrow> (nat, (nat \<times> nat) list) dict res" where
  "colocate_experts alloc mc n =
     (let layers = [0..<num_layers mc]; n_expert = num_experts mc; empty = map (\<lambda>i. (i, [])) [0..<n] in
      (case alloc of
         Some cs \<Rightarrow>
           rbind (py_assert (length cs \<le> n)) (\<lambda>_.
           (let (pairs, eid) = colocate_alloc layers 0 0 cs in
            rbind (foldM dict_append empty pairs) (\<lambda>experts.
            rbind (py_assert (eid = n_expert)) (\<lambda>_. Ok experts))))
       | None \<Rightarrow>
           if n_expert = 0 \<or> layers = [] then Ok empty
           else
             rbind (num_experts_per_rank mc) (\<lambda>npr.
             if npr = 0 then Raise ZeroDivisionError
             else foldM dict_append empty
                    (concat (map (\<lambda>i. map (\<lambda>j. (i div npr, (j, i))) layers) [0..<n_expert])))))"

definition colocate_solve :: "nat list option \<Rightarrow> model_config \<Rightarrow> cluster_config \<Rightarrow> model_placement res" where
  "colocate_solve alloc mc cl =
     (let n = n_node cl * n_gpu cl in
      rbind (colocate_experts alloc mc n) (\<lambda>experts.
      Ok ((new_placement (map (\<lambda>i. (i, [0..<num_layers mc])) [0..<n]) experts (Some (map (\<lambda>i. (i, [i])) [0..<n])))
            \<lparr>local_expert_counts := Some (map (\<lambda>(dev, les). (dev, card (set (map snd les)))) experts),
             is_hybrid := True\<rparr>)))"

section \<open>get_model_placement\<close>

datatype strategy =
    Single nat
  | Interleave
  | Pipeline nat nat bool
  | Colocate "nat list option"

definition default_attn_dp_rank :: "model_placement \<Rightarrow> model_placement" where
  "default_attn_dp_rank p = p\<lparr>attn_dp_ranks := Some (map (\<lambda>(dev, _). (dev, 0)) (mp_attn p))\<rparr>"

definition colocate_attn_dp_rank :: "model_placement \<Rightarrow> model_placement" where
  "colocate_attn_dp_rank p = p\<lparr>attn_dp_ranks := Some (map (\<lambda>(dev, _). (dev, dev)) (mp_attn p))\<rparr>"

text \<open>
  The constructor's check and \<open>solve\<close>. An expert allocation reaches the colocate strategy only;
  \<open>get_model_placement\<close> drops it for the others.
\<close>

definition get_model_placement :: "model_config \<Rightarrow> cluster_config \<Rightarrow> strategy \<Rightarrow> model_placement res" where
  "get_model_placement mc cl st =
     (case st of
        Single rep \<Rightarrow>
          rbind (single_solve rep mc cl) (\<lambda>p. rbind (add_edges (num_layers mc) p) (\<lambda>p.
          rbind (update_expert_rank mc None p) (\<lambda>p. Ok (default_attn_dp_rank p))))
      | Interleave \<Rightarrow>
          rbind (interleave_solve mc cl) (\<lambda>p. rbind (add_edges (num_layers mc) p) (\<lambda>p.
          rbind (update_expert_rank mc None p) (\<lambda>p. Ok (default_attn_dp_rank p))))
      | Pipeline p q zigzag \<Rightarrow>
          rbind (pipeline_solve p q zigzag mc cl) (\<lambda>pl. rbind (add_edges (num_layers mc) pl) (\<lambda>pl.
          rbind (update_expert_rank mc None pl) (\<lambda>pl. pipeline_attn_dp_rank mc pl)))
      | Colocate alloc \<Rightarrow>
          rbind (case alloc of None \<Rightarrow> Ok () | Some cs \<Rightarrow> py_assert (sum_list cs = num_experts mc)) (\<lambda>_.
          rbind (colocate_solve alloc mc cl) (\<lambda>p. rbind (add_edges (num_layers mc) p) (\<lambda>p.
          rbind (update_expert_rank mc alloc p) (\<lambda>p. Ok (colocate_attn_dp_rank p))))))"

section \<open>Appending to dictionaries\<close>

lemma dict_extend_Ok:
  "dict_extend d k xs = Ok d' \<longleftrightarrow> (\<exists>l. map_of d k = Some l \<and> d' = AList.update k (l @ xs) d)"
  by (auto simp: dict_extend_def dict_item_def res_simps)

lemma dict_append_Ok [res_simps]:
  "dict_append d p = Ok d' \<longleftrightarrow> (\<exists>l. map_of d (fst p) = Some l \<and> d' = AList.update (fst p) (l @ [snd p]) d)"
  by (simp add: dict_append_def dict_extend_Ok)

lemma dict_append_all:
  assumes "foldM dict_append d ps = Ok d'"
  shows "map_of d' k = map_option (\<lambda>l. l @ map snd (filter (\<lambda>p. fst p = k) ps)) (map_of d k)"
  using assms
proof (induction ps arbitrary: d)
  case Nil
  then show ?case by (cases "map_of d k") auto
next
  case (Cons p ps)
  then obtain l where l: "map_of d (fst p) = Some l"
    and r: "foldM dict_append (AList.update (fst p) (l @ [snd p]) d) ps = Ok d'"
    by (auto simp: res_simps)
  show ?case
    using Cons.IH[OF r] l by (cases "map_of d k") (auto simp: update_conv')
qed

lemma in_snd_filter: "x \<in> set (map snd (filter (\<lambda>p. fst p = k) ps)) \<longleftrightarrow> (k, x) \<in> set ps"
  by (induction ps) auto

lemma foldM_dict_append_key:
  "foldM dict_append d ps = Ok d' \<Longrightarrow> (k, x) \<in> set ps \<Longrightarrow> map_of d k \<noteq> None"
proof (induction ps arbitrary: d)
  case (Cons p ps)
  then obtain l where l: "map_of d (fst p) = Some l"
    and r: "foldM dict_append (AList.update (fst p) (l @ [snd p]) d) ps = Ok d'"
    by (auto simp: res_simps)
  show ?case using Cons.IH[OF r] Cons.prems(2) l by (cases "fst p = k") (auto simp: update_conv')
qed simp

lemma dict_append_keys: "foldM dict_append d ps = Ok d' \<Longrightarrow> map fst d' = map fst d"
proof (induction ps arbitrary: d)
  case (Cons p ps)
  then obtain l where l: "map_of d (fst p) = Some l"
    and r: "foldM dict_append (AList.update (fst p) (l @ [snd p]) d) ps = Ok d'"
    by (auto simp: res_simps)
  have "fst p \<in> fst ` set d" using l by (metis map_of_eq_None_iff option.distinct(1))
  then show ?case using Cons.IH[OF r] by (simp add: AList.update_keys)
qed simp

lemma map_of_const: "map_of (map (\<lambda>i. (i, f i)) xs) k = (if k \<in> set xs then Some (f k) else None)"
  by (induction xs) auto

section \<open>Edges\<close>

definition edges_ok :: "model_placement \<Rightarrow> bool" where
  "edges_ok p \<longleftrightarrow> (\<forall>s d. d \<in> set (out_device_ids_at p s) \<longleftrightarrow> s \<in> set (in_device_ids_at p d))
     \<and> (\<forall>s. distinct (out_device_ids_at p s)) \<and> (\<forall>d. distinct (in_device_ids_at p d))"

lemma dict_getd_update [simp]: "dict_getd (AList.update k v d) q x = (if q = k then v else dict_getd d q x)"
  by (simp add: dict_getd_def update_conv')

lemma dict_getd_default: "map_of d k = None \<Longrightarrow> dict_getd d k x = x"
  by (simp add: dict_getd_def)

lemma add_edge_at:
  "out_device_ids_at (add_edge p (s, d)) q =
     (if q = s \<and> s \<notin> set (in_device_ids_at p d) then out_device_ids_at p s @ [d] else out_device_ids_at p q)"
  "in_device_ids_at (add_edge p (s, d)) q =
     (if q = d \<and> s \<notin> set (in_device_ids_at p d) then in_device_ids_at p d @ [s] else in_device_ids_at p q)"
  by (auto simp: add_edge_def Let_def out_device_ids_at_def in_device_ids_at_def dict_getd_default)

lemma add_edge_ok:
  assumes "edges_ok p"
  shows "edges_ok (add_edge p (s, d))"
    and "y \<in> set (out_device_ids_at (add_edge p (s, d)) x) \<longleftrightarrow> (x, y) = (s, d) \<or> y \<in> set (out_device_ids_at p x)"
  using assms by (auto simp: edges_ok_def add_edge_at)

lemma add_edge_list:
  assumes "edges_ok p"
  shows "edges_ok (foldl add_edge p es)
    \<and> (\<forall>x y. y \<in> set (out_device_ids_at (foldl add_edge p es) x) \<longleftrightarrow> (x, y) \<in> set es \<or> y \<in> set (out_device_ids_at p x))"
  using assms
proof (induction es arbitrary: p)
  case (Cons e es)
  obtain s d where e: "e = (s, d)" by (cases e)
  show ?case
    using Cons.IH[OF add_edge_ok(1)[OF Cons.prems, of s d]] add_edge_ok(2)[OF Cons.prems, of _ s d] e by auto
qed simp

lemma devs_by_layer_set:
  assumes "devs_by_layer n items = Ok devs" and "l < n"
  shows "set (dict_getd devs l []) = {dev. \<exists>ls. (dev, ls) \<in> set items \<and> l \<in> set ls}"
    and "map_of devs l \<noteq> None"
proof -
  let ?ps = "concat (map (\<lambda>(dev, ls). map (\<lambda>l. (l, dev)) ls) items)"
  have m: "map_of devs l = Some (map snd (filter (\<lambda>p. fst p = l) ?ps))"
    using dict_append_all[OF assms(1)[unfolded devs_by_layer_def], of l] assms(2) by (simp add: map_of_const)
  have "set (map snd (filter (\<lambda>p. fst p = l) ?ps)) = {dev. \<exists>ls. (dev, ls) \<in> set items \<and> l \<in> set ls}"
    by (force simp: image_iff)
  then show "set (dict_getd devs l []) = {dev. \<exists>ls. (dev, ls) \<in> set items \<and> l \<in> set ls}"
    using m by (simp add: dict_getd_def)
  show "map_of devs l \<noteq> None" using m by simp
qed

definition runs_attn :: "model_placement \<Rightarrow> nat \<Rightarrow> nat \<Rightarrow> bool" where
  "runs_attn p l dev \<longleftrightarrow> l \<in> set (attn_layer_ids_at p dev)"

definition runs_expert :: "model_placement \<Rightarrow> nat \<Rightarrow> nat \<Rightarrow> bool" where
  "runs_expert p l dev \<longleftrightarrow> l \<in> set (map fst (expert_ids_at p dev))"

lemma getd_items:
  assumes "distinct (map fst d)"
  shows "x \<in> set (dict_getd d k []) \<longleftrightarrow> (\<exists>v. (k, v) \<in> set d \<and> x \<in> set v)"
proof (cases "map_of d k")
  case None
  have "(k, v) \<notin> set d" for v
  proof
    assume "(k, v) \<in> set d"
    from map_of_is_SomeI[OF assms this] show False using None by simp
  qed
  then show ?thesis using None by (simp add: dict_getd_def)
next
  case (Some v)
  have "v' = v" if "(k, v') \<in> set d" for v' using map_of_is_SomeI[OF assms that] Some by simp
  then have "x \<in> set v \<longleftrightarrow> (\<exists>v'. (k, v') \<in> set d \<and> x \<in> set v')" using map_of_SomeD[OF Some] by blast
  then show ?thesis using Some by (simp add: dict_getd_def)
qed

lemma runs_items:
  assumes "distinct (map fst (mp_attn p))" and "distinct (map fst (mp_expert p))"
  shows "runs_attn p l dev \<longleftrightarrow> (\<exists>ls. (dev, ls) \<in> set (mp_attn p) \<and> l \<in> set ls)"
    and "runs_expert p l dev \<longleftrightarrow> (\<exists>ls. (dev, ls) \<in> set (map (\<lambda>(dev, les). (dev, map fst les)) (mp_expert p)) \<and> l \<in> set ls)"
proof -
  show "runs_attn p l dev \<longleftrightarrow> (\<exists>ls. (dev, ls) \<in> set (mp_attn p) \<and> l \<in> set ls)"
    unfolding runs_attn_def attn_layer_ids_at_def by (rule getd_items[OF assms(1)])
  let ?F = "\<lambda>(dev, les). (dev :: nat, map fst les)"
  show "runs_expert p l dev \<longleftrightarrow> (\<exists>ls. (dev, ls) \<in> set (map ?F (mp_expert p)) \<and> l \<in> set ls)"
  proof
    assume "runs_expert p l dev"
    then obtain e where "(l, e) \<in> set (dict_getd (mp_expert p) dev [])"
      unfolding runs_expert_def expert_ids_at_def by auto
    then obtain les where les: "(dev, les) \<in> set (mp_expert p)" "(l, e) \<in> set les"
      using getd_items[OF assms(2)] by blast
    have "?F (dev, les) \<in> set (map ?F (mp_expert p))" using les(1) by (simp only: set_map) (rule imageI)
    moreover have "l \<in> set (map fst les)" using les(2) by (metis fst_conv image_eqI list.set_map)
    ultimately show "\<exists>ls. (dev, ls) \<in> set (map ?F (mp_expert p)) \<and> l \<in> set ls"
      by (intro exI[of _ "map fst les"] conjI) (simp_all only: prod.case)
  next
    assume "\<exists>ls. (dev, ls) \<in> set (map ?F (mp_expert p)) \<and> l \<in> set ls"
    then obtain les e where "(dev, les) \<in> set (mp_expert p)" "(l, e) \<in> set les" by auto
    then have "(l, e) \<in> set (dict_getd (mp_expert p) dev [])" using getd_items[OF assms(2)] by blast
    then have "fst (l, e) \<in> fst ` set (dict_getd (mp_expert p) dev [])" by (rule imageI)
    then show "runs_expert p l dev" unfolding runs_expert_def expert_ids_at_def by simp
  qed
qed

text \<open>The list of edges of the two loops, as a set.\<close>

lemma edge_list_set:
  assumes "0 < n"
  shows "(s, d) \<in> set (concat (map (layer_edges A X) [0..<n])
        @ concat (map (\<lambda>dev. map (\<lambda>prev. (prev, dev)) (dict_getd X (n - 1) [])) (dict_getd A 0 [])))
    \<longleftrightarrow> (\<exists>l < n. (s \<in> set (dict_getd A l []) \<and> d \<in> set (dict_getd X l []))
          \<or> (s \<in> set (dict_getd X l []) \<and> d \<in> set (dict_getd A ((l + 1) mod n) [])))"
    (is "?L \<longleftrightarrow> ?R")
proof
  assume ?L
  then consider (prev) l where "0 < l" "l < n" "s \<in> set (dict_getd X (l - 1) [])" "d \<in> set (dict_getd A l [])"
    | (cur) l where "l < n" "s \<in> set (dict_getd A l [])" "d \<in> set (dict_getd X l [])"
    | (wrap) "s \<in> set (dict_getd X (n - 1) [])" "d \<in> set (dict_getd A 0 [])"
    by (auto simp: layer_edges_def split: if_splits)
  then show ?R
  proof cases
    case prev
    then show ?thesis by (intro exI[of _ "l - 1"]) auto
  next
    case cur
    then show ?thesis by blast
  next
    case wrap
    then show ?thesis using assms by (intro exI[of _ "n - 1"]) auto
  qed
next
  assume ?R
  then obtain l where l: "l < n" and "(s \<in> set (dict_getd A l []) \<and> d \<in> set (dict_getd X l []))
          \<or> (s \<in> set (dict_getd X l []) \<and> d \<in> set (dict_getd A ((l + 1) mod n) []))" by blast
  then consider (cur) "s \<in> set (dict_getd A l [])" "d \<in> set (dict_getd X l [])"
    | (nxt) "l + 1 < n" "s \<in> set (dict_getd X l [])" "d \<in> set (dict_getd A (l + 1) [])"
    | (wrap) "l = n - 1" "s \<in> set (dict_getd X l [])" "d \<in> set (dict_getd A 0 [])"
  proof (cases "l + 1 < n")
    case True
    then show ?thesis using that \<open>_ \<or> _\<close> by auto
  next
    case False
    then have "l = n - 1" "(l + 1) mod n = 0" using l by (auto simp: mod_if)
    then show ?thesis using that \<open>_ \<or> _\<close> by auto
  qed
  then show ?L
  proof cases
    case cur
    then have "(s, d) \<in> set (layer_edges A X l)" by (auto simp: layer_edges_def)
    then have "(s, d) \<in> set (concat (map (layer_edges A X) [0..<n]))" using l by (auto intro!: bexI[of _ l])
    then show ?thesis by simp
  next
    case nxt
    then have "(s, d) \<in> set (layer_edges A X (l + 1))" by (auto simp: layer_edges_def)
    then have "(s, d) \<in> set (concat (map (layer_edges A X) [0..<n]))" using nxt(1) by (auto intro!: bexI[of _ "l + 1"])
    then show ?thesis by simp
  next
    case wrap
    then show ?thesis by auto
  qed
qed

lemma add_edge_frame [simp]:
  "mp_attn (foldl add_edge p es) = mp_attn p" "mp_expert (foldl add_edge p es) = mp_expert p"
  "expert_ranks (foldl add_edge p es) = expert_ranks p" "device_groups (foldl add_edge p es) = device_groups p"
  by (induction es arbitrary: p) (auto simp: add_edge_def Let_def split: prod.splits)

lemma add_edges_Ok:
  assumes "add_edges n p = Ok p'"
  shows "mp_attn p' = mp_attn p \<and> mp_expert p' = mp_expert p \<and> device_groups p' = device_groups p"
  using assms by (auto simp: add_edges_def res_simps)

section \<open>The pipeline placement\<close>

lemma solve_virtual_experts:
  assumes "foldM (\<lambda>(attns, experts) i.
        rbind (virtual_attn_dev n p zigzag i) (\<lambda>a.
        if q = 0 then Raise ZeroDivisionError
        else
          rbind (dict_append attns (a, i)) (\<lambda>attns.
          rbind (dict_append experts (i mod q, i)) (\<lambda>experts. Ok (attns, experts))))) (va, ve) xs = Ok (va', ve')"
  shows "foldM dict_append ve (map (\<lambda>i. (i mod q, i)) xs) = Ok ve'"
  using assms
proof (induction xs arbitrary: va ve)
  case (Cons x xs)
  then show ?case by (auto simp: res_simps simp del: dict_append_Ok split: if_splits)
qed simp

lemma virtual_expert_layers:
  assumes "solve_virtual n p q zigzag = Ok (va, ve)"
  shows "map fst ve = [0..<q]" and "i < q \<Longrightarrow> map_of ve i = Some (filter (\<lambda>l. l mod q = i) [0..<n])"
proof -
  have f: "foldM dict_append (map (\<lambda>i. (i, [])) [0..<q]) (map (\<lambda>i. (i mod q, i)) [0..<n]) = Ok ve"
    by (rule solve_virtual_experts[OF assms[unfolded solve_virtual_def]])
  show "map fst ve = [0..<q]" using dict_append_keys[OF f] by (simp add: comp_def)
  assume "i < q"
  have "map snd (filter (\<lambda>p. fst p = i) (map (\<lambda>i. (i mod q, i)) xs)) = filter (\<lambda>l. l mod q = i) xs" for xs
    by (induction xs) auto
  then show "map_of ve i = Some (filter (\<lambda>l. l mod q = i) [0..<n])"
    using dict_append_all[OF f, of i] \<open>i < q\<close> by (simp add: map_of_const)
qed

text \<open>Where the pipeline strategy puts an expert of a layer.\<close>

definition expert_home :: "model_config \<Rightarrow> nat \<Rightarrow> nat \<Rightarrow> nat \<Rightarrow> nat \<Rightarrow> nat" where
  "expert_home mc p q l e =
     p * tp_size mc * dp_size mc + (l mod q) * ep_size mc + e div (num_experts mc div ep_size mc)"

lemma dict_append_fresh_at:
  assumes "foldM dict_append (map (\<lambda>i. (i, [])) ks) ps = Ok d"
  shows "x \<in> set (dict_getd d k []) \<longleftrightarrow> (k, x) \<in> set ps"
proof (cases "k \<in> set ks")
  case True
  then have "dict_getd d k [] = map snd (filter (\<lambda>p. fst p = k) ps)"
    using dict_append_all[OF assms, of k] by (simp add: map_of_const dict_getd_def)
  then show ?thesis by (simp only: in_snd_filter)
next
  case False
  have "(k, x) \<notin> set ps" using foldM_dict_append_key[OF assms, of k x] False by (auto simp: map_of_const)
  moreover have "dict_getd d k [] = []"
    using dict_append_all[OF assms, of k] False by (simp add: dict_getd_def map_of_const)
  ultimately show ?thesis by simp
qed

lemma virtual_expert_items:
  assumes "solve_virtual n p q zigzag = Ok (va, ve)"
  shows "(i, ls) \<in> set ve \<longleftrightarrow> i < q \<and> ls = filter (\<lambda>l. l mod q = i) [0..<n]"
proof -
  note v = virtual_expert_layers[OF assms]
  have d: "distinct (map fst ve)" using v(1) by simp
  have "(i, ls) \<in> set ve \<longleftrightarrow> map_of ve i = Some ls" using map_of_eq_Some_iff[OF d] by blast
  moreover have "map_of ve i = None" if "\<not> i < q"
  proof -
    have "i \<notin> set (map fst ve)" using v(1) that by simp
    then show ?thesis by (simp add: map_of_eq_None_iff)
  qed
  ultimately show ?thesis using v(2)[of i] by (cases "i < q") auto
qed

lemma physical_pairs:
  "(d, (l, e)) \<in> set (concat (map (\<lambda>(i, ls). concat (map (\<lambda>e. map (\<lambda>l. (f i e, (l, e))) ls) es)) ve))
    \<longleftrightarrow> e \<in> set es \<and> (\<exists>i ls. (i, ls) \<in> set ve \<and> l \<in> set ls \<and> d = f i e)"
proof (induction ve)
  case (Cons x ve)
  obtain i ls where x: "x = (i, ls)" by (cases x)
  have h: "(d, (l, e)) \<in> set (concat (map (\<lambda>e. map (\<lambda>l. (f i e, (l, e))) ls) es)) \<longleftrightarrow> e \<in> set es \<and> l \<in> set ls \<and> d = f i e"
    by auto
  show ?case by (simp only: x list.map prod.case concat.simps set_append Un_iff h Cons.IH list.set insert_iff prod.inject) blast
qed simp

lemma solve_physical_experts:
  assumes "solve_physical mc p q va ve = Ok pl" and "solve_virtual (num_layers mc) p q zigzag = Ok (va, ve)"
    and "0 < q" and "0 < num_experts mc"
  shows "(l, e) \<in> set (expert_ids_at pl d) \<longleftrightarrow> l < num_layers mc \<and> e < num_experts mc \<and> d = expert_home mc p q l e"
    and "0 < num_experts mc div ep_size mc"
proof -
  let ?w = "p * tp_size mc * dp_size mc" and ?npr = "num_experts mc div ep_size mc"
  let ?f = "\<lambda>i e. ?w + i * ep_size mc + e div ?npr"
  let ?ps = "concat (map (\<lambda>(i, ls). concat (map (\<lambda>e. map (\<lambda>l. (?f i e, (l, e))) ls) [0..<num_experts mc])) ve)"
  obtain attns experts where
      f: "foldM dict_append (map (\<lambda>i. (i, [])) [?w..<?w + q * ep_size mc]) ?ps = Ok experts"
    and pl: "pl = new_placement attns experts (Some (map (\<lambda>i. (i, [i * tp_size mc..<(i + 1) * tp_size mc])) [0..<p * dp_size mc]))"
    and npr: "0 < ?npr"
    using assms(1,3,4) by (auto simp: solve_physical_def Let_def res_simps num_experts_per_rank_def split: if_splits)
  show "0 < ?npr" by (rule npr)
  have "(l, e) \<in> set (expert_ids_at pl d) \<longleftrightarrow> (d, (l, e)) \<in> set ?ps"
    unfolding pl new_placement_def expert_ids_at_def model_placement.select_convs by (rule dict_append_fresh_at[OF f])
  also have "\<dots> \<longleftrightarrow> e \<in> set [0..<num_experts mc] \<and> (\<exists>i ls. (i, ls) \<in> set ve \<and> l \<in> set ls \<and> d = ?f i e)"
    by (rule physical_pairs)
  also have "\<dots> \<longleftrightarrow> l < num_layers mc \<and> e < num_experts mc \<and> d = expert_home mc p q l e"
    unfolding virtual_expert_items[OF assms(2)] using assms(3) by (auto simp: expert_home_def)
  finally show "(l, e) \<in> set (expert_ids_at pl d) \<longleftrightarrow> l < num_layers mc \<and> e < num_experts mc \<and> d = expert_home mc p q l e" .
qed

section \<open>Every strategy builds dictionaries with distinct keys\<close>

definition fresh_placement :: "model_placement \<Rightarrow> bool" where
  "fresh_placement p \<longleftrightarrow> in_device_ids p = [] \<and> out_device_ids p = []
     \<and> distinct (map fst (mp_attn p)) \<and> distinct (map fst (mp_expert p))"

lemma dict_extend_keys: "foldM (\<lambda>d (k, ls). dict_extend d k ls) d ps = Ok d' \<Longrightarrow> map fst d' = map fst d"
proof (induction ps arbitrary: d)
  case (Cons p ps)
  obtain k ls where p: "p = (k, ls)" by (cases p)
  then obtain l where l: "map_of d k = Some l"
    and r: "foldM (\<lambda>d (k, ls). dict_extend d k ls) (AList.update k (l @ ls) d) ps = Ok d'"
    using Cons.prems by (auto simp: dict_extend_Ok res_simps)
  have "k \<in> fst ` set d" using l by (metis map_of_eq_None_iff option.distinct(1))
  then show ?case using Cons.IH[OF r] by (simp add: AList.update_keys)
qed simp

lemma foldl_update_distinct: "distinct (map fst d) \<Longrightarrow> distinct (map fst (foldl (\<lambda>d x. AList.update (f x) (g x) d) d xs))"
  by (induction xs arbitrary: d) (simp_all add: distinct_update)

lemma interleave_layer_keys:
  assumes "interleave_layer tp ng ne st ae i = Ok ae'"
  shows "map fst (fst ae') = map fst (fst ae) \<and> map fst (snd ae') = map fst (snd ae)"
proof -
  obtain driver attn expert where a: "foldM dict_append (fst ae) (map (\<lambda>j. (driver + j, i)) [0..<tp]) = Ok attn"
    and e: "foldM (\<lambda>d j. rbind (py_get (il_exp_devs st) (int (i mod ng))) (\<lambda>row.
                       rbind (py_get row (int j)) (\<lambda>dev. dict_append d (dev, (i, j))))) (snd ae) [0..<ne] = Ok expert"
    and r: "ae' = (attn, expert)"
    using assms by (auto simp: interleave_layer_def res_simps simp del: dict_append_Ok split: if_splits)
  have "map fst expert = map fst (snd ae)"
  proof (rule foldM_invariant[where P = "\<lambda>d. map fst d = map fst (snd ae)", OF refl e])
    fix d j d' assume "map fst d = map fst (snd ae)"
      and "rbind (py_get (il_exp_devs st) (int (i mod ng))) (\<lambda>row. rbind (py_get row (int j)) (\<lambda>dev. dict_append d (dev, (i, j)))) = Ok d'"
    then obtain dev where "dict_append d (dev, (i, j)) = Ok d'" by (auto simp: rbind_eq_Ok)
    then have "foldM dict_append d [(dev, (i, j))] = Ok d'" by simp
    from dict_append_keys[OF this] show "map fst d' = map fst (snd ae)" using \<open>map fst d = map fst (snd ae)\<close> by simp
  qed
  then show ?thesis using dict_append_keys[OF a] r by simp
qed

lemma foldl_empty_distinct: "distinct (map fst (foldl (\<lambda>d dev. AList.update dev [] d) [] xs))"
  using foldl_update_distinct[where f = "\<lambda>x. x" and g = "\<lambda>_. []" and d = "[]"] by simp

lemma interleave_fresh: "ensures (interleave_solve mc cl) fresh_placement"
proof -
  let ?P = "\<lambda>ae. distinct (map fst (fst ae)) \<and> distinct (map fst (snd ae))"
  have "ensures (foldM (interleave_layer tp n ne st) (foldl (\<lambda>d dev. AList.update dev [] d) [] as,
      foldl (\<lambda>d dev. AList.update dev [] d) [] es) ls) ?P" for tp n ne st as es ls
    by (rule ensures_foldM, simp add: foldl_empty_distinct) (rule ensuresI, drule interleave_layer_keys, simp)
  then have "ensures (foldM (interleave_layer tp n ne st) (foldl (\<lambda>d dev. AList.update dev [] d) [] as,
        foldl (\<lambda>d dev. AList.update dev [] d) [] es) ls)
      (\<lambda>x. ensures (case x of (attn, expert) \<Rightarrow> Ok (new_placement attn expert g)) fresh_placement)" for tp n ne st as es ls g
    by (rule ensures_mono) (auto simp: fresh_placement_def new_placement_def)
  then show ?thesis
    unfolding interleave_solve_def Let_def
    by (simp only: ensures_if ensures_Raise ensures_rbind ensures_assert simp_thms) (simp add: ensures_def)
qed

lemma dict_append_keys_ensures: "ensures (foldM dict_append d ps) (\<lambda>d'. map fst d' = map fst d)"
  by (rule ensuresI) (rule dict_append_keys)

lemma solve_physical_fresh: "ensures (solve_physical mc p q va ve) fresh_placement"
proof -
  have e: "ensures (foldM dict_append (map (\<lambda>i. (i, [])) ks) ps) (\<lambda>d. ensures (Ok (new_placement attns d g)) fresh_placement)"
    if "distinct (map fst attns)" "distinct ks" for attns ks ps g
    by (rule ensures_mono[OF dict_append_keys_ensures]) (use that in \<open>simp add: fresh_placement_def new_placement_def comp_def\<close>)
  have "ensures (foldM (\<lambda>d (k, ls). dict_extend d k ls) (map (\<lambda>i. (i, [])) [0..<w]) ps) (\<lambda>d. distinct (map fst d))" for w ps
    by (rule ensuresI, drule dict_extend_keys) (simp add: comp_def)
  then show ?thesis
    unfolding solve_physical_def Let_def ensures_rbind
    by (rule ensures_mono) (rule ensures_any, simp only: ensures_if ensures_Raise ensures_rbind simp_thms, intro impI e, simp_all)
qed

lemma pipeline_fresh: "ensures (pipeline_solve p q zigzag mc cl) fresh_placement"
  by (auto simp: pipeline_solve_def intro!: ensures_any solve_physical_fresh)

lemma colocate_experts_keys:
  assumes "colocate_experts alloc mc n = Ok experts"
  shows "map fst experts = [0..<n]"
proof (cases "\<exists>ps. foldM dict_append (map (\<lambda>i. (i, [])) [0..<n]) ps = Ok experts")
  case True
  then obtain ps where f: "foldM dict_append (map (\<lambda>i. (i, [])) [0..<n]) ps = Ok experts" by blast
  show ?thesis using dict_append_keys[OF f] by (simp add: comp_def)
next
  case False
  then have "experts = map (\<lambda>i. (i, [])) [0..<n]"
    using assms by (auto simp: colocate_experts_def Let_def rbind_eq_Ok split: option.splits prod.splits if_splits)
  then show ?thesis by (simp add: comp_def)
qed

lemma colocate_fresh:
  assumes "colocate_solve alloc mc cl = Ok p"
  shows "fresh_placement p"
proof -
  obtain experts where e: "colocate_experts alloc mc (n_node cl * n_gpu cl) = Ok experts"
    and p: "mp_expert p = experts" "map fst (mp_attn p) = [0..<n_node cl * n_gpu cl]" "in_device_ids p = []" "out_device_ids p = []"
    using assms by (auto simp: colocate_solve_def Let_def rbind_eq_Ok new_placement_def comp_def)
  then show ?thesis using colocate_experts_keys[OF e] by (simp add: fresh_placement_def)
qed

section \<open>Properties\<close>

text \<open>Adding the edges to a fresh placement.\<close>

lemma add_edges_exact:
  assumes "add_edges n p = Ok p'" and "fresh_placement p"
  shows "edges_ok p' \<and> (d \<in> set (out_device_ids_at p' s) \<longleftrightarrow>
    (\<exists>l < n. (runs_attn p' l s \<and> runs_expert p' l d) \<or> (runs_expert p' l s \<and> runs_attn p' ((l + 1) mod n) d)))"
proof -
  obtain A X first where A: "devs_by_layer n (mp_attn p) = Ok A"
    and X: "devs_by_layer n (map (\<lambda>(dev, les). (dev, map fst les)) (mp_expert p)) = Ok X"
    and first: "map_of A 0 = Some first"
    and p': "p' = foldl add_edge p (concat (map (layer_edges A X) [0..<n])
            @ concat (map (\<lambda>dev. map (\<lambda>prev. (prev, dev)) (dict_getd X (n - 1) [])) first))"
    using assms(1) by (auto simp: add_edges_def dict_item_def rbind_eq_Ok dict_get_eq_Ok)
  have f: "first = dict_getd A 0 []" using first by (simp add: dict_getd_def)
  have n: "0 < n"
  proof (rule ccontr)
    assume "\<not> 0 < n"
    then have "map fst A = []" using dict_append_keys[OF A[unfolded devs_by_layer_def]] by simp
    then show False using first by simp
  qed
  have ok: "edges_ok p" and empty: "out_device_ids_at p x = []" for x
    using assms(2) by (auto simp: edges_ok_def fresh_placement_def out_device_ids_at_def in_device_ids_at_def dict_getd_def)
  have d: "distinct (map fst (mp_attn p))" "distinct (map fst (mp_expert p))"
    using assms(2) by (auto simp: fresh_placement_def)
  have sets: "dev \<in> set (dict_getd A l []) \<longleftrightarrow> runs_attn p' l dev" "dev \<in> set (dict_getd X l []) \<longleftrightarrow> runs_expert p' l dev"
    if "l < n" for l dev
  proof -
    have e: "runs_attn p' l dev = runs_attn p l dev" "runs_expert p' l dev = runs_expert p l dev"
      by (simp_all add: p' runs_attn_def runs_expert_def attn_layer_ids_at_def expert_ids_at_def)
    show "dev \<in> set (dict_getd A l []) \<longleftrightarrow> runs_attn p' l dev"
      unfolding e runs_items(1)[OF d] devs_by_layer_set(1)[OF A that] by blast
    show "dev \<in> set (dict_getd X l []) \<longleftrightarrow> runs_expert p' l dev"
      unfolding e runs_items(2)[OF d] devs_by_layer_set(1)[OF X that] by blast
  qed
  have "d \<in> set (out_device_ids_at p' s) \<longleftrightarrow>
      (\<exists>l < n. (s \<in> set (dict_getd A l []) \<and> d \<in> set (dict_getd X l []))
        \<or> (s \<in> set (dict_getd X l []) \<and> d \<in> set (dict_getd A ((l + 1) mod n) [])))"
    unfolding edge_list_set[OF n, symmetric] p' f
    using add_edge_list[OF ok, THEN conjunct2, rule_format, of d _ s] empty[of s] by (simp only: list.set empty_iff simp_thms)
  moreover have "(l + 1) mod n < n" for l using n by simp
  ultimately show ?thesis using sets add_edge_list[OF ok] p' by (metis (no_types, lifting))
qed

text \<open>What the last two steps of \<open>solve\<close> leave of the edges.\<close>

definition same_edges :: "model_placement \<Rightarrow> model_placement \<Rightarrow> bool" where
  "same_edges p p1 \<longleftrightarrow> in_device_ids p = in_device_ids p1 \<and> out_device_ids p = out_device_ids p1
     \<and> mp_attn p = mp_attn p1 \<and> mp_expert p = mp_expert p1"

lemma rank_steps_frame:
  "ensures (update_expert_rank mc alloc p) (same_edges p)" "ensures (pipeline_attn_dp_rank mc p) (same_edges p)"
  "same_edges p (default_attn_dp_rank p)" "same_edges p (colocate_attn_dp_rank p)"
  by (auto simp: same_edges_def update_expert_rank_def pipeline_attn_dp_rank_def default_attn_dp_rank_def
      colocate_attn_dp_rank_def rbind_eq_Ok split: option.splits if_splits intro!: ensuresI)

lemma solve_steps:
  assumes "ensures solve fresh_placement" and "\<And>p. ensures (rank p) (same_edges p)" and "\<And>p. ensures (dp p) (same_edges p)"
    and "rbind solve (\<lambda>p. rbind (add_edges n p) (\<lambda>p. rbind (rank p) dp)) = Ok p"
  shows "\<exists>p0 p1. fresh_placement p0 \<and> add_edges n p0 = Ok p1 \<and> same_edges p1 p"
proof -
  obtain p0 p1 p2 where s: "solve = Ok p0" and a: "add_edges n p0 = Ok p1" and r: "rank p1 = Ok p2" "dp p2 = Ok p"
    using assms(4) by (auto simp: rbind_eq_Ok)
  have "same_edges p1 p" using ensuresD[OF assms(2) r(1)] ensuresD[OF assms(3) r(2)] by (simp add: same_edges_def)
  then show ?thesis using ensuresD[OF assms(1) s] a by blast
qed

lemma get_model_placement_edges:
  assumes "get_model_placement mc cl st = Ok p"
  shows "\<exists>p0 p1. fresh_placement p0 \<and> add_edges (num_layers mc) p0 = Ok p1 \<and> same_edges p1 p"
proof (cases st)
  case (Single rep)
  have "\<not> (\<exists>p. single_solve rep mc cl = Ok p)"
    by (auto simp: single_solve_def Let_def rbind_eq_Ok new_placement_def res_simps split: prod.splits)
  then show ?thesis using assms Single by (auto simp: get_model_placement_def rbind_eq_Ok)
next
  case Interleave
  show ?thesis
    by (rule solve_steps[OF interleave_fresh rank_steps_frame(1) _ assms[unfolded get_model_placement_def Interleave strategy.case]])
       (simp add: rank_steps_frame)
next
  case (Pipeline a q z)
  show ?thesis
    by (rule solve_steps[OF pipeline_fresh rank_steps_frame(1,2) assms[unfolded get_model_placement_def Pipeline strategy.case]])
next
  case (Colocate alloc)
  have a: "rbind (colocate_solve alloc mc cl) (\<lambda>p. rbind (add_edges (num_layers mc) p) (\<lambda>p.
          rbind (update_expert_rank mc alloc p) (\<lambda>p. Ok (colocate_attn_dp_rank p)))) = Ok p"
    using assms[unfolded get_model_placement_def Colocate strategy.case rbind_eq_Ok[of "case alloc of None \<Rightarrow> _ | Some x \<Rightarrow> _ x"]] by blast
  show ?thesis
    by (rule solve_steps[OF ensuresI[OF colocate_fresh] rank_steps_frame(1) _ a]) (simp_all add: rank_steps_frame)
qed

text \<open>
  C35: Whatever the strategy, the edges of a placement are exactly the data flow: an edge from a
  device that runs the attention of a layer to every device that runs experts of that layer, and
  from those to every device that runs the attention of the next layer, the last layer feeding the
  first. The in- and out-lists mirror each other and hold each neighbour once.
\<close>

theorem placement_edges_exact:
  assumes "get_model_placement mc cl st = Ok p"
  shows "(d \<in> set (out_device_ids_at p s) \<longleftrightarrow>
      (\<exists>l < num_layers mc. (runs_attn p l s \<and> runs_expert p l d)
         \<or> (runs_expert p l s \<and> runs_attn p ((l + 1) mod num_layers mc) d)))
    \<and> (d \<in> set (out_device_ids_at p s) \<longleftrightarrow> s \<in> set (in_device_ids_at p d))
    \<and> distinct (out_device_ids_at p s) \<and> distinct (in_device_ids_at p d)"
proof -
  obtain p0 p1 where f: "fresh_placement p0" and a: "add_edges (num_layers mc) p0 = Ok p1" and e: "same_edges p1 p"
    using get_model_placement_edges[OF assms] by blast
  have "runs_attn p = runs_attn p1" "runs_expert p = runs_expert p1" "out_device_ids_at p = out_device_ids_at p1"
    "in_device_ids_at p = in_device_ids_at p1"
    using e by (simp_all add: same_edges_def fun_eq_iff runs_attn_def runs_expert_def attn_layer_ids_at_def expert_ids_at_def
        out_device_ids_at_def in_device_ids_at_def)
  then show ?thesis using add_edges_exact[OF a f, of d s] by (metis (no_types, lifting) edges_ok_def)
qed

definition demo_mc :: model_config where
  "demo_mc = (model_config_of 8 4 8 1 1 4 8)\<lparr>ep_size := 2, dp_size := 2\<rparr>"

definition demo_place :: model_placement where
  "demo_place = projr (get_model_placement demo_mc \<lparr> n_node = 1, n_gpu = 8 \<rparr> (Pipeline 2 2 True))"

lemma demo_place: "get_model_placement demo_mc \<lparr> n_node = 1, n_gpu = 8 \<rparr> (Pipeline 2 2 True) = Ok demo_place"
  unfolding demo_place_def by (rule Ok_projr) code_simp

theorem placement_edges_exact_witness:
  "out_device_ids_at demo_place 0 = [4, 5] \<and> 2 \<in> set (out_device_ids_at demo_place 4)
   \<and> (\<exists>l < num_layers demo_mc. (runs_attn demo_place l 4 \<and> runs_expert demo_place l 2)
        \<or> (runs_expert demo_place l 4 \<and> runs_attn demo_place ((l + 1) mod num_layers demo_mc) 2))"
proof -
  have "out_device_ids_at demo_place 0 = [4, 5]" by code_simp
  moreover have d: "2 \<in> set (out_device_ids_at demo_place 4)" by code_simp
  ultimately show ?thesis using placement_edges_exact[OF demo_place, of 2 4] by blast
qed

section \<open>Experts and ranks of the pipeline placement\<close>

lemma pipeline_steps:
  assumes "get_model_placement mc cl (Pipeline p q z) = Ok pl"
  shows "\<exists>va ve p0. solve_virtual (num_layers mc) p q z = Ok (va, ve) \<and> solve_physical mc p q va ve = Ok p0
    \<and> mp_expert pl = mp_expert p0 \<and> (\<exists>p1 p2. update_expert_rank mc None p1 = Ok p2 \<and> expert_ranks pl = expert_ranks p2)"
proof -
  obtain p0 p1 p2 where s: "pipeline_solve p q z mc cl = Ok p0" and a: "add_edges (num_layers mc) p0 = Ok p1"
    and u: "update_expert_rank mc None p1 = Ok p2" and d: "pipeline_attn_dp_rank mc p2 = Ok pl"
    using assms by (auto simp: get_model_placement_def rbind_eq_Ok)
  have "mp_expert pl = mp_expert p0"
    using add_edges_Ok[OF a] ensuresD[OF rank_steps_frame(1) u] ensuresD[OF rank_steps_frame(2) d]
    by (simp add: same_edges_def)
  moreover have "expert_ranks pl = expert_ranks p2"
    using d by (auto simp: pipeline_attn_dp_rank_def split: if_splits)
  moreover obtain va ve where "solve_virtual (num_layers mc) p q z = Ok (va, ve)" "solve_physical mc p q va ve = Ok p0"
    using s by (auto simp: pipeline_solve_def rbind_eq_Ok)
  ultimately show ?thesis using u by blast
qed

lemma map_of_product:
  "map_of (concat (map (\<lambda>l. map (\<lambda>e. ((l, e), f e)) es) ls)) (l, e) = (if l \<in> set ls \<and> e \<in> set es then Some (f e) else None)"
proof (induction ls)
  case (Cons l' ls)
  have "map_of (map (\<lambda>e. ((l', e), f e)) es) (l, e) = (if l = l' \<and> e \<in> set es then Some (f e) else None)"
    by (induction es) auto
  then show ?case using Cons.IH by (auto simp: map_add_def split: option.splits)
qed simp

lemma pipeline_experts_at:
  assumes "get_model_placement mc cl (Pipeline p q z) = Ok pl" and "0 < q" and "0 < num_experts mc"
  shows "(l, e) \<in> set (expert_ids_at pl d) \<longleftrightarrow> l < num_layers mc \<and> e < num_experts mc \<and> d = expert_home mc p q l e"
    and "0 < num_experts mc div ep_size mc"
proof -
  obtain va ve p0 where v: "solve_virtual (num_layers mc) p q z = Ok (va, ve)" and s: "solve_physical mc p q va ve = Ok p0"
    and e: "mp_expert pl = mp_expert p0"
    using pipeline_steps[OF assms(1)] by blast
  show "(l, e) \<in> set (expert_ids_at pl d) \<longleftrightarrow> l < num_layers mc \<and> e < num_experts mc \<and> d = expert_home mc p q l e"
    using solve_physical_experts(1)[OF s v assms(2,3)] e by (simp add: expert_ids_at_def)
  show "0 < num_experts mc div ep_size mc" by (rule solve_physical_experts(2)[OF s v assms(2,3)])
qed

lemma expert_home_rank:
  assumes "ep_size mc dvd num_experts mc" and "e < num_experts mc" and "0 < num_experts mc div ep_size mc"
  shows "(expert_home mc p q l e - p * tp_size mc * dp_size mc) mod ep_size mc = e div (num_experts mc div ep_size mc)"
proof -
  have "e < ep_size mc * (num_experts mc div ep_size mc)" using assms(1,2) by simp
  then have "e div (num_experts mc div ep_size mc) < ep_size mc"
    by (simp add: less_mult_imp_div_less)
  then show ?thesis by (simp add: expert_home_def)
qed

text \<open>
  C36: In a pipeline placement every expert of every layer sits on exactly one device, the one of its
  layer's expert step and of its expert rank, and no device holds anything else.
\<close>

theorem pipeline_expert_on_one_device:
  assumes "get_model_placement mc cl (Pipeline p q z) = Ok pl" and "0 < q" and "0 < num_experts mc"
  shows "(l, e) \<in> set (expert_ids_at pl d) \<longleftrightarrow> l < num_layers mc \<and> e < num_experts mc \<and> d = expert_home mc p q l e"
  by (rule pipeline_experts_at(1)[OF assms])

theorem pipeline_expert_on_one_device_witness:
  "expert_home demo_mc 2 2 3 1 = 6 \<and> (3, 1) \<in> set (expert_ids_at demo_place 6) \<and> (3, 1) \<notin> set (expert_ids_at demo_place 7)"
proof -
  have h: "expert_home demo_mc 2 2 3 1 = 6" by code_simp
  have c: "(0::nat) < 2" "0 < num_experts demo_mc" "3 < num_layers demo_mc" "1 < num_experts demo_mc" by code_simp+
  show ?thesis
    using pipeline_expert_on_one_device[OF demo_place c(1,2), of 3 1 6] pipeline_expert_on_one_device[OF demo_place c(1,2), of 3 1 7]
      h c by simp
qed

text \<open>
  C38: When the expert-parallel size divides the number of experts, \<open>expert_rank_at\<close> returns on every
  device of a pipeline placement that holds an expert, and returns the device's offset in its group:
  the assertion that all experts of a device share one rank never fails.
\<close>

theorem pipeline_expert_rank_at:
  assumes "get_model_placement mc cl (Pipeline p q z) = Ok pl" and "0 < q" and "0 < num_experts mc"
    and "ep_size mc dvd num_experts mc" and "expert_ids_at pl d \<noteq> []"
  shows "expert_rank_at pl d = Ok ((d - p * tp_size mc * dp_size mc) mod ep_size mc)"
proof -
  let ?npr = "num_experts mc div ep_size mc" and ?r = "(d - p * tp_size mc * dp_size mc) mod ep_size mc"
  note at = pipeline_experts_at[OF assms(1,2,3)]
  obtain ids where ids: "map_of (mp_expert pl) d = Some ids" "ids = expert_ids_at pl d"
    using assms(5) by (auto simp: expert_ids_at_def dict_getd_def split: option.splits)
  have npr: "0 < ?npr" by (rule at(2))
  obtain p1 p2 where u: "update_expert_rank mc None p1 = Ok p2" and er: "expert_ranks pl = expert_ranks p2"
    using pipeline_steps[OF assms(1)] by blast
  have in_ids: "l < num_layers mc \<and> e < num_experts mc \<and> e div ?npr = ?r" if "(l, e) \<in> set ids" for l e
    using that at(1)[of l e d] ids(2) expert_home_rank[OF assms(4) _ npr, of e p q l] by auto
  have ne: "ids \<noteq> []" using assms(5) ids(2) by simp
  have L: "num_layers mc \<noteq> 0" using in_ids[of "fst (hd ids)" "snd (hd ids)"] ne by (cases ids) auto
  have ranks: "expert_ranks pl = Some (concat (map (\<lambda>l. map (\<lambda>e. ((l, e), e div ?npr)) [0..<num_experts mc]) [0..<num_layers mc]))"
    using u er L assms(3) npr by (auto simp: update_expert_rank_def num_experts_per_rank_def rbind_eq_Ok split: if_splits)
  have "dict_item (the (expert_ranks pl)) le = Ok ?r" if "le \<in> set ids" for le
    using in_ids[of "fst le" "snd le"] that ranks
    by (cases le) (simp add: dict_item_def dict_get_def map_of_product)
  then have m: "mapM (dict_item (the (expert_ranks pl))) ids = Ok (map (\<lambda>_. ?r) ids)" by (rule mapM_Ok_map)
  have set1: "set (map (\<lambda>_. ?r) ids) = {?r}" using ne by (cases ids) auto
  have "py_get (map (\<lambda>_. ?r) ids) 0 = Ok ?r" using ne by (simp add: py_get_def)
  then show ?thesis
    using ids(1) m set1 ranks
    by (simp add: expert_rank_at_def dict_item_def dict_get_def del: set_map)
qed

theorem pipeline_expert_rank_at_witness: "expert_rank_at demo_place 7 = Ok 1"
proof -
  have c: "(0::nat) < 2" "0 < num_experts demo_mc" "ep_size demo_mc dvd num_experts demo_mc" "expert_ids_at demo_place 7 \<noteq> []"
    by code_simp+
  have "(7 - 2 * tp_size demo_mc * dp_size demo_mc) mod ep_size demo_mc = 1" by code_simp
  then show ?thesis using pipeline_expert_rank_at[OF demo_place c] by simp
qed

text \<open>
  C40: The default strategy cannot be used: \<open>SinglePlacement\<close> fails on every model and cluster, since
  it asserts the number of edges before any edge has been added.
\<close>

theorem single_placement_always_fails: "get_model_placement mc cl (Single rep) = Raise AssertionError"
  by (auto simp: get_model_placement_def single_solve_def new_placement_def py_assert_def Let_def split: prod.splits)

end
