(* ===== verification/Sampler.thy ===== *)
theory Sampler
  imports Prelude
begin

text \<open>
  \<^verbatim>\<open>disagmoe/sampler.py\<close>: the sampler of real-token serving. The final norm, the output head and the
  argmax are one function from a hidden row to a token; the embedding table is the list of its rows.
  The four dictionaries of a sampler are partial maps. The main result is the token stream of a
  request over any sequence of batches: first the prompt tokens that are forced, then sampled tokens up to
  an end-of-sequence token or the length limit.
\<close>

section \<open>RealSampler\<close>

record 'h sampler =
  sm_embedding :: "'h list"
  sm_head :: "'h \<Rightarrow> int"
  sm_eos :: "int list"
  sm_kv_source :: string
  sm_forced :: "int \<rightharpoonup> int list"
  sm_out_len :: "int \<rightharpoonup> int"
  sm_max_len :: "int \<rightharpoonup> int"
  sm_last :: "int \<rightharpoonup> int"

definition sampler_init :: "'h list \<Rightarrow> ('h \<Rightarrow> int) \<Rightarrow> int list option \<Rightarrow> string \<Rightarrow> 'h sampler" where
  "sampler_init emb head_fn eos src =
     \<lparr> sm_embedding = emb, sm_head = head_fn, sm_eos = (case eos of None \<Rightarrow> [] | Some e \<Rightarrow> e), sm_kv_source = src,
       sm_forced = Map.empty, sm_out_len = Map.empty, sm_max_len = Map.empty, sm_last = Map.empty \<rparr>"

definition create_request :: "'h sampler \<Rightarrow> int \<Rightarrow> int \<Rightarrow> int list option \<Rightarrow> 'h sampler res" where
  "create_request S rid max_output_len token_ids =
     (case token_ids of
        Some (t # ts) \<Rightarrow>
          Ok (S\<lparr>sm_max_len := (sm_max_len S)(rid \<mapsto> max_output_len), sm_out_len := (sm_out_len S)(rid \<mapsto> 0),
               sm_forced := (sm_forced S)(rid \<mapsto> ts)\<rparr>)
      | _ \<Rightarrow> Raise AssertionError)"

text \<open>A slice \<open>xs[i:]\<close> with a non-negative start.\<close>

definition slice_from :: "int \<Rightarrow> 'a list \<Rightarrow> 'a list" where
  "slice_from i xs = (if i < 0 then drop (nat (int (length xs) + i)) xs else drop (nat i) xs)"

definition admit_data :: "'h sampler \<Rightarrow> int \<Rightarrow> int \<Rightarrow> int list \<Rightarrow> ('h sampler \<times> 'h \<times> int) res" where
  "admit_data S rid init_prefill_len token_ids =
     (if sm_kv_source S = ''mooncake'' then
        (let L = init_prefill_len in
         rbind (py_assert (int (length token_ids) \<ge> L + 1)) (\<lambda>_.
         (let q = slice_from (L + 1) token_ids; S = S\<lparr>sm_forced := (sm_forced S)(rid \<mapsto> q)\<rparr> in
          rbind (if q \<noteq> [] then
                   rbind (dict_get (sm_max_len S) rid) (\<lambda>m.
                   Ok (S\<lparr>sm_max_len := (sm_max_len S)(rid \<mapsto> max 1 (m - int (length q)))\<rparr>))
                 else Ok S) (\<lambda>S.
          rbind (py_get token_ids L) (\<lambda>first.
          (let S = S\<lparr>sm_last := (sm_last S)(rid \<mapsto> first)\<rparr> in
           rbind (py_get (sm_embedding S) first) (\<lambda>row. Ok (S, row, L))))))))
      else
        rbind (py_get token_ids 0) (\<lambda>first.
        (let S = S\<lparr>sm_last := (sm_last S)(rid \<mapsto> first)\<rparr> in
         rbind (py_get (sm_embedding S) first) (\<lambda>row. Ok (S, row, 0)))))"

definition clean_request :: "'h sampler \<Rightarrow> int \<Rightarrow> 'h sampler" where
  "clean_request S rid =
     S\<lparr>sm_forced := (sm_forced S)(rid := None), sm_out_len := (sm_out_len S)(rid := None),
       sm_max_len := (sm_max_len S)(rid := None), sm_last := (sm_last S)(rid := None)\<rparr>"

text \<open>The token of one row of the batch: the next forced token, or the sampled one.\<close>

definition next_token :: "'h sampler \<Rightarrow> int list \<Rightarrow> nat \<Rightarrow> int \<Rightarrow> ('h sampler \<times> int \<times> bool) res" where
  "next_token S sampled i rid =
     (case sm_forced S rid of
        Some (t # q) \<Rightarrow> Ok (S\<lparr>sm_forced := (sm_forced S)(rid \<mapsto> q)\<rparr>, t, False)
      | _ \<Rightarrow>
          rbind (py_get sampled (int i)) (\<lambda>tok.
          rbind (dict_get (sm_out_len S) rid) (\<lambda>n.
          (let S = S\<lparr>sm_out_len := (sm_out_len S)(rid \<mapsto> n + 1)\<rparr> in
           if tok \<in> set (sm_eos S) then Ok (S, tok, True)
           else rbind (dict_get (sm_max_len S) rid) (\<lambda>m. Ok (S, tok, n + 1 \<ge> m))))))"

record 'h step_acc =
  sa_sampler :: "'h sampler"
  sa_continue :: "nat list"
  sa_finish :: "int list"
  sa_out :: "int list"

definition step_row :: "int list \<Rightarrow> 'h step_acc \<Rightarrow> nat \<times> int \<Rightarrow> 'h step_acc res" where
  "step_row sampled acc ir =
     (let (i, rid) = ir in
      rbind (next_token (sa_sampler acc) sampled i rid) (\<lambda>(S, tok, fin).
      (let S = S\<lparr>sm_last := (sm_last S)(rid \<mapsto> tok)\<rparr>; acc = acc\<lparr>sa_out := sa_out acc @ [tok]\<rparr> in
       if fin then Ok (acc\<lparr>sa_sampler := clean_request S rid, sa_finish := sa_finish acc @ [rid]\<rparr>)
       else Ok (acc\<lparr>sa_sampler := S, sa_continue := sa_continue acc @ [i]\<rparr>))))"

text \<open>\<open>index_select\<close> takes no negative index.\<close>

definition index_select :: "'a list \<Rightarrow> int list \<Rightarrow> 'a list res" where
  "index_select rows idx = mapM (\<lambda>i. if i < 0 then Raise IndexError else py_get rows i) idx"

definition sampler_step :: "'h sampler \<Rightarrow> 'h list \<Rightarrow> int list \<Rightarrow> ('h sampler \<times> nat list \<times> int list \<times> int list \<times> 'h list) res" where
  "sampler_step S hidden req_ids =
     (let sampled = map (sm_head S) hidden in
      rbind (foldM (step_row sampled) \<lparr> sa_sampler = S, sa_continue = [], sa_finish = [], sa_out = [] \<rparr>
               (enumerate 0 req_ids)) (\<lambda>acc.
      rbind (if sa_continue acc = [] then Ok []
             else index_select (sm_embedding S) (map (\<lambda>i. sa_out acc ! i) (sa_continue acc))) (\<lambda>data.
      Ok (sa_sampler acc, sa_continue acc, sa_finish acc, sa_out acc, data))))"

section \<open>One request\<close>

text \<open>What the sampler holds for a request.\<close>

definition req_view :: "'h sampler \<Rightarrow> int \<Rightarrow> int list option \<times> int option \<times> int option" where
  "req_view S rid = (sm_forced S rid, sm_out_len S rid, sm_max_len S rid)"

text \<open>The rest of a token stream: forced tokens first, then the sampled ones, at least one, until the
  end of the sequence or the limit. One sample arrives per step, also while tokens are forced.\<close>

fun generated :: "int list \<Rightarrow> int \<Rightarrow> int \<Rightarrow> int list \<Rightarrow> int list" where
  "generated eos n m [] = []"
| "generated eos n m (s # ss) = (if s \<in> set eos \<or> n + 1 \<ge> m then [s] else s # generated eos (n + 1) m ss)"

definition expected_stream :: "int list \<Rightarrow> int list \<Rightarrow> int \<Rightarrow> int \<Rightarrow> int list \<Rightarrow> int list" where
  "expected_stream eos q n m ss = take (length ss) q @ generated eos n m (drop (length q) ss)"

text \<open>The rows of a request in a batch, and its samples and tokens over a run.\<close>

definition request_rows :: "int \<Rightarrow> int list \<Rightarrow> 'a list \<Rightarrow> 'a list" where
  "request_rows rid rids xs = map snd (filter (\<lambda>p. fst p = rid) (zip rids xs))"

fun sampler_run :: "'h sampler \<Rightarrow> ('h list \<times> int list) list \<Rightarrow> ('h sampler \<times> int list list) res" where
  "sampler_run S [] = Ok (S, [])"
| "sampler_run S ((hidden, rids) # bs) =
     rbind (sampler_step S hidden rids) (\<lambda>(S, cont, fin, out, data).
     rbind (sampler_run S bs) (\<lambda>(S, outs). Ok (S, out # outs)))"

definition stream_of :: "int \<Rightarrow> ('h list \<times> int list) list \<Rightarrow> int list list \<Rightarrow> int list" where
  "stream_of rid bs outs = concat (map (\<lambda>(b, out). request_rows rid (snd b) out) (zip bs outs))"

definition samples_of :: "('h \<Rightarrow> int) \<Rightarrow> int \<Rightarrow> ('h list \<times> int list) list \<Rightarrow> int list" where
  "samples_of head_fn rid bs = concat (map (\<lambda>(hidden, rids). request_rows rid rids (map head_fn hidden)) bs)"

section \<open>The sampler acts on each request alone\<close>

type_synonym req_entry = "int list option \<times> int option \<times> int option"

definition gone :: req_entry where
  "gone = (None, None, None)"

definition entry_step :: "int list \<Rightarrow> req_entry \<Rightarrow> int \<Rightarrow> (int \<times> req_entry) res" where
  "entry_step eos v s =
     (case v of
        (Some (t # q), n, m) \<Rightarrow> Ok (t, Some q, n, m)
      | (f, None, m) \<Rightarrow> Raise KeyError
      | (f, Some k, m) \<Rightarrow>
          if s \<in> set eos then Ok (s, gone)
          else (case m of None \<Rightarrow> Raise KeyError
                | Some b \<Rightarrow> Ok (s, if k + 1 \<ge> b then gone else (f, Some (k + 1), m))))"

lemma entry_step_active:
  "entry_step eos (Some (t # q), n, m) s = Ok (t, Some q, n, m)"
  "entry_step eos (Some [], Some k, Some b) s = Ok (s, if s \<in> set eos \<or> k + 1 \<ge> b then gone else (Some [], Some (k + 1), Some b))"
  "entry_step eos gone s = Raise KeyError"
  by (simp_all add: entry_step_def gone_def split: option.splits)

lemma next_token_entry:
  assumes "next_token S sampled i rid = Ok (T, tok, fin)" and "i < length sampled"
  shows "\<exists>v. entry_step (sm_eos S) (req_view S rid) (sampled ! i) = Ok (tok, v) \<and> fin = (v = gone)
    \<and> (\<not> fin \<longrightarrow> req_view T rid = v) \<and> (\<forall>r. r \<noteq> rid \<longrightarrow> req_view T r = req_view S r)"
proof -
  have g: "py_get sampled (int i) = Ok (sampled ! i)" using assms(2) by (simp add: py_get_def)
  show ?thesis
  proof (cases "sm_forced S rid")
    case None
    then show ?thesis
      using assms(1) g by (auto simp: next_token_def Let_def res_simps entry_step_def req_view_def gone_def split: if_splits option.splits)
  next
    case (Some q)
    then show ?thesis
      using assms(1) g
      by (cases q) (auto simp: next_token_def Let_def res_simps entry_step_def req_view_def gone_def split: if_splits option.splits)
  qed
qed

lemma next_token_static:
  assumes "next_token S sampled i rid = Ok (T, tok, fin)"
  shows "sm_eos T = sm_eos S" "sm_head T = sm_head S"
  using assms by (auto simp: next_token_def Let_def res_simps split: option.splits list.splits if_splits)

lemma step_row_Ok:
  "step_row sampled acc (i, rid) = Ok acc' \<longleftrightarrow>
     (\<exists>T tok fin. next_token (sa_sampler acc) sampled i rid = Ok (T, tok, fin) \<and>
       (let T = T\<lparr>sm_last := (sm_last T)(rid \<mapsto> tok)\<rparr>; acc = acc\<lparr>sa_out := sa_out acc @ [tok]\<rparr> in
        acc' = (if fin then acc\<lparr>sa_sampler := clean_request T rid, sa_finish := sa_finish acc @ [rid]\<rparr>
                else acc\<lparr>sa_sampler := T, sa_continue := sa_continue acc @ [i]\<rparr>)))"
  by (auto simp: step_row_def Let_def rbind_eq_Ok split: prod.splits)

lemma req_view_update [simp]:
  "req_view (T\<lparr>sm_last := l\<rparr>) r = req_view T r"
  "req_view (clean_request T rid) r = (if r = rid then gone else req_view T r)"
  by (simp_all add: req_view_def clean_request_def gone_def)

lemma step_row_entry:
  assumes "step_row sampled acc (i, rid) = Ok acc'" and "i < length sampled"
  shows "\<exists>tok v. entry_step (sm_eos (sa_sampler acc)) (req_view (sa_sampler acc) rid) (sampled ! i) = Ok (tok, v)
    \<and> sa_out acc' = sa_out acc @ [tok]
    \<and> (\<forall>r. req_view (sa_sampler acc') r = (if r = rid then v else req_view (sa_sampler acc) r))"
proof -
  obtain T tok fin where n: "next_token (sa_sampler acc) sampled i rid = Ok (T, tok, fin)"
    and a: "acc' = (let T = T\<lparr>sm_last := (sm_last T)(rid \<mapsto> tok)\<rparr>; acc = acc\<lparr>sa_out := sa_out acc @ [tok]\<rparr> in
        (if fin then acc\<lparr>sa_sampler := clean_request T rid, sa_finish := sa_finish acc @ [rid]\<rparr>
                else acc\<lparr>sa_sampler := T, sa_continue := sa_continue acc @ [i]\<rparr>))"
    using assms(1) unfolding step_row_Ok Let_def by blast
  obtain v where v: "entry_step (sm_eos (sa_sampler acc)) (req_view (sa_sampler acc) rid) (sampled ! i) = Ok (tok, v)"
      "fin = (v = gone)" "\<not> fin \<longrightarrow> req_view T rid = v" "\<forall>r. r \<noteq> rid \<longrightarrow> req_view T r = req_view (sa_sampler acc) r"
    using next_token_entry[OF n assms(2)] by blast
  show ?thesis
    by (intro exI[of _ tok] exI[of _ v] conjI) (use v a in \<open>auto simp: Let_def\<close>)
qed

lemma step_row_static:
  assumes "step_row sampled acc (i, rid) = Ok acc'"
  shows "sm_eos (sa_sampler acc') = sm_eos (sa_sampler acc)" "sm_head (sa_sampler acc') = sm_head (sa_sampler acc)"
  using assms by (auto simp: step_row_Ok Let_def clean_request_def next_token_static split: if_splits)

lemma step_rows_entry:
  assumes "foldM (step_row sampled) acc (enumerate k rids) = Ok acc'" and "distinct rids" and "k + length rids \<le> length sampled"
  shows "\<exists>outs. sa_out acc' = sa_out acc @ outs \<and> length outs = length rids
    \<and> (\<forall>r. r \<notin> set rids \<longrightarrow> req_view (sa_sampler acc') r = req_view (sa_sampler acc) r)
    \<and> (\<forall>j < length rids. entry_step (sm_eos (sa_sampler acc)) (req_view (sa_sampler acc) (rids ! j)) (sampled ! (k + j))
          = Ok (outs ! j, req_view (sa_sampler acc') (rids ! j)))
    \<and> sm_eos (sa_sampler acc') = sm_eos (sa_sampler acc) \<and> sm_head (sa_sampler acc') = sm_head (sa_sampler acc)"
  using assms
proof (induction rids arbitrary: k acc)
  case (Cons rid rids)
  obtain a where a: "step_row sampled acc (k, rid) = Ok a" and r: "foldM (step_row sampled) a (enumerate (Suc k) rids) = Ok acc'"
    using Cons.prems(1) by (auto simp: res_simps)
  obtain tok v where e: "entry_step (sm_eos (sa_sampler acc)) (req_view (sa_sampler acc) rid) (sampled ! k) = Ok (tok, v)"
    and o: "sa_out a = sa_out acc @ [tok]"
    and w: "req_view (sa_sampler a) r = (if r = rid then v else req_view (sa_sampler acc) r)" for r
    using step_row_entry[OF a] Cons.prems(3) by fastforce
  note st = step_row_static[OF a]
  obtain outs where I: "sa_out acc' = sa_out a @ outs" "length outs = length rids"
      "\<forall>r. r \<notin> set rids \<longrightarrow> req_view (sa_sampler acc') r = req_view (sa_sampler a) r"
      "\<forall>j < length rids. entry_step (sm_eos (sa_sampler a)) (req_view (sa_sampler a) (rids ! j)) (sampled ! (Suc k + j))
          = Ok (outs ! j, req_view (sa_sampler acc') (rids ! j))"
      "sm_eos (sa_sampler acc') = sm_eos (sa_sampler a)" "sm_head (sa_sampler acc') = sm_head (sa_sampler a)"
    using Cons.IH[OF r] Cons.prems(2,3) by auto
  have nth: "entry_step (sm_eos (sa_sampler acc)) (req_view (sa_sampler acc) ((rid # rids) ! j)) (sampled ! (k + j))
          = Ok ((tok # outs) ! j, req_view (sa_sampler acc') ((rid # rids) ! j))" if j: "j < length (rid # rids)" for j
  proof (cases j)
    case 0
    then show ?thesis using e I(3)[rule_format, of rid] w Cons.prems(2) by simp
  next
    case (Suc i)
    then have "rids ! i \<noteq> rid" using Cons.prems(2) j by auto
    then show ?thesis using Suc j I(4)[rule_format, of i] w st(1) by simp
  qed
  show ?case
    by (rule exI[of _ "tok # outs"]) (use o I w st nth in auto)
qed simp

definition sampler_batch_ok :: "'h list \<times> int list \<Rightarrow> bool" where
  "sampler_batch_ok b \<longleftrightarrow> distinct (snd b) \<and> length (fst b) = length (snd b)"

lemma request_rows_absent: "rid \<notin> set rids \<Longrightarrow> request_rows rid rids xs = []"
  by (auto simp: request_rows_def filter_empty_conv dest: set_zip_leftD)

lemma request_rows_at:
  "distinct rids \<Longrightarrow> j < length rids \<Longrightarrow> length xs = length rids \<Longrightarrow> request_rows (rids ! j) rids xs = [xs ! j]"
proof (induction rids arbitrary: j xs)
  case (Cons r rids)
  obtain x xs' where xs: "xs = x # xs'" using Cons.prems(3) by (cases xs) auto
  show ?case
  proof (cases j)
    case 0
    then show ?thesis using Cons.prems request_rows_absent[of r rids xs'] xs by (simp add: request_rows_def)
  next
    case (Suc i)
    have "r \<noteq> rids ! i" using Cons.prems Suc by auto
    then show ?thesis using Cons.IH[of i xs'] Cons.prems xs Suc by (simp add: request_rows_def)
  qed
qed simp

lemma sampler_step_entry:
  assumes "sampler_step S hidden rids = Ok (S', cont, fin, out, data)" and "sampler_batch_ok (hidden, rids)"
  shows "length out = length rids" and "rid \<notin> set rids \<Longrightarrow> req_view S' rid = req_view S rid"
    and "j < length rids \<Longrightarrow> entry_step (sm_eos S) (req_view S (rids ! j)) (map (sm_head S) hidden ! j)
          = Ok (out ! j, req_view S' (rids ! j))"
    and "sm_eos S' = sm_eos S" and "sm_head S' = sm_head S"
proof -
  let ?acc = "\<lparr> sa_sampler = S, sa_continue = [], sa_finish = [], sa_out = [] \<rparr>"
  obtain acc where f: "foldM (step_row (map (sm_head S) hidden)) ?acc (enumerate 0 rids) = Ok acc"
    and a: "sa_sampler acc = S'" "sa_out acc = out"
    using assms(1) by (auto simp: sampler_step_def Let_def res_simps)
  note e = step_rows_entry[OF f, simplified] assms(2)[unfolded sampler_batch_ok_def, simplified] a
  show "length out = length rids" using e by auto
  show "req_view S' rid = req_view S rid" if "rid \<notin> set rids" using e that by auto
  show "entry_step (sm_eos S) (req_view S (rids ! j)) (map (sm_head S) hidden ! j) = Ok (out ! j, req_view S' (rids ! j))"
    if "j < length rids" using e that by auto
  show "sm_eos S' = sm_eos S" and "sm_head S' = sm_head S" using e by auto
qed

section \<open>Token streams\<close>

lemma stream_gone:
  assumes "sampler_run S bs = Ok (S', outs)" and "\<forall>b \<in> set bs. sampler_batch_ok b" and "req_view S rid = gone"
  shows "stream_of rid bs outs = []" "samples_of h rid bs = []"
proof -
  have "stream_of rid bs outs = [] \<and> samples_of h rid bs = []"
    using assms
  proof (induction bs arbitrary: S outs)
    case (Cons b bs)
    obtain hidden rids where b: "b = (hidden, rids)" by (cases b)
    obtain T cont fin out data os where s: "sampler_step S hidden rids = Ok (T, cont, fin, out, data)"
      and r: "sampler_run T bs = Ok (S', os)" and o: "outs = out # os"
      using Cons.prems(1) b by (auto simp: res_simps)
    note e = sampler_step_entry[OF s] Cons.prems(2)[unfolded b]
    have n: "rid \<notin> set rids"
    proof
      assume "rid \<in> set rids"
      then obtain j where "j < length rids" "rids ! j = rid" by (auto simp: in_set_conv_nth)
      then show False using e(3)[of j] e(6) Cons.prems(3) by (auto simp: entry_step_active)
    qed
    then show ?case
      using Cons.IH[OF r] Cons.prems(2,3) e(2)[of rid] e(6) b o by (auto simp: stream_of_def samples_of_def request_rows_absent)
  qed (simp add: stream_of_def samples_of_def)
  then show "stream_of rid bs outs = []" "samples_of h rid bs = []" by auto
qed

lemma expected_stream_simps:
  "expected_stream eos q n m [] = []"
  "expected_stream eos (t # q) n m (s # ss) = t # expected_stream eos q n m ss"
  "expected_stream eos [] n m (s # ss) = (if s \<in> set eos \<or> n + 1 \<ge> m then [s] else s # expected_stream eos [] (n + 1) m ss)"
  by (simp_all add: expected_stream_def)

lemma stream_expected:
  assumes "sampler_run S bs = Ok (S', outs)" and "\<forall>b \<in> set bs. sampler_batch_ok b" and "req_view S rid = (Some q, Some n, Some m)"
  shows "stream_of rid bs outs = expected_stream (sm_eos S) q n m (samples_of (sm_head S) rid bs)"
  using assms
proof (induction bs arbitrary: S outs q n)
  case Nil
  then show ?case by (simp add: stream_of_def samples_of_def expected_stream_simps)
next
  case (Cons b bs)
  obtain hidden rids where b: "b = (hidden, rids)" by (cases b)
  obtain T cont fin out data os where s: "sampler_step S hidden rids = Ok (T, cont, fin, out, data)"
    and r: "sampler_run T bs = Ok (S', os)" and o: "outs = out # os"
    using Cons.prems(1) b by (auto simp: res_simps)
  have bo: "sampler_batch_ok (hidden, rids)" and bs: "\<forall>b \<in> set bs. sampler_batch_ok b" using Cons.prems(2) b by auto
  note e = sampler_step_entry[OF s bo]
  have split: "stream_of rid (b # bs) outs = request_rows rid rids out @ stream_of rid bs os"
    "samples_of (sm_head S) rid (b # bs) = request_rows rid rids (map (sm_head S) hidden) @ samples_of (sm_head S) rid bs"
    by (simp_all add: stream_of_def samples_of_def b o)
  note IH = Cons.IH[OF r bs]
  show ?case
  proof (cases "rid \<in> set rids")
    case False
    then show ?thesis using IH[of q n] e(2)[OF False] e(4,5) Cons.prems(3) split by (simp add: request_rows_absent)
  next
    case True
    then obtain j where j: "j < length rids" "rids ! j = rid" by (auto simp: in_set_conv_nth)
    let ?s = "map (sm_head S) hidden ! j"
    have rows: "request_rows rid rids out = [out ! j]" "request_rows rid rids (map (sm_head S) hidden) = [?s]"
      using request_rows_at[OF _ j(1), of out] request_rows_at[OF _ j(1), of "map (sm_head S) hidden"] bo e(1) j(2)
      by (simp_all add: sampler_batch_ok_def)
    have st: "entry_step (sm_eos S) (Some q, Some n, Some m) ?s = Ok (out ! j, req_view T rid)"
      using e(3)[OF j(1)] j(2) Cons.prems(3) by simp
    show ?thesis
    proof (cases q)
      case (Cons t q')
      then show ?thesis using st IH[of q' n] e(4,5) split rows by (simp add: entry_step_active expected_stream_simps)
    next
      case Nil
      show ?thesis
      proof (cases "?s \<in> set (sm_eos S) \<or> n + 1 \<ge> m")
        case True
        then have "req_view T rid = gone" "out ! j = ?s" using st Nil by (auto simp: entry_step_active)
        then show ?thesis using stream_gone[OF r bs] True split rows Nil by (auto simp: expected_stream_simps)
      next
        case False
        then have "req_view T rid = (Some [], Some (n + 1), Some m)" "out ! j = ?s" using st Nil by (auto simp: entry_step_active)
        then show ?thesis using IH[of "[]" "n + 1"] e(4,5) False split rows Nil by (simp add: expected_stream_simps)
      qed
    qed
  qed
qed

text \<open>
  C17: The token stream of a request over any sequence of batches, whatever the other requests in
  them: after \<open>create_request\<close> with a prompt, the tokens the sampler emits for it are the prompt
  after its first token, then the sampled tokens up to and including the first end-of-sequence token
  or the \<open>max_output_len\<close>-th one. Samples that arrive while the prompt is forced are ignored.
\<close>

theorem request_stream:
  assumes "create_request S rid m (Some (t # ts)) = Ok T" and "sampler_run T bs = Ok (T', outs)"
    and "\<forall>b \<in> set bs. sampler_batch_ok b"
  shows "stream_of rid bs outs = expected_stream (sm_eos S) ts 0 m (samples_of (sm_head S) rid bs)"
proof -
  have "req_view T rid = (Some ts, Some 0, Some m)" "sm_eos T = sm_eos S" "sm_head T = sm_head S"
    using assms(1) by (auto simp: create_request_def req_view_def)
  then show ?thesis using stream_expected[OF assms(2,3)] by simp
qed

definition demo_sampler :: "int sampler" where
  "demo_sampler = sampler_init [0, 10, 20, 30, 40, 50] (\<lambda>x. x) (Some [5]) ''none''"

definition demo_created :: "int sampler" where
  "demo_created = projr (rbind (create_request demo_sampler 8 3 (Some [4])) (\<lambda>S. create_request S 7 2 (Some [1, 2, 3])))"

definition demo_batches :: "(int list \<times> int list) list" where
  "demo_batches = [([1, 1], [7, 8]), ([4, 5], [7, 8]), ([2], [7]), ([4], [7])]"

theorem request_stream_witness:
  "\<exists>T' outs. sampler_run demo_created demo_batches = Ok (T', outs) \<and> stream_of 7 demo_batches outs = [2, 3, 2, 4]"
proof -
  let ?S = "projr (create_request demo_sampler 8 3 (Some [4]))"
  have c: "create_request ?S 7 2 (Some [1, 2, 3]) = Ok demo_created"
    unfolding demo_created_def by (simp add: create_request_def)
  let ?r = "projr (sampler_run demo_created demo_batches)"
  have "\<not> isl (sampler_run demo_created demo_batches)" by code_simp
  from Ok_projr[OF this] have r: "sampler_run demo_created demo_batches = Ok (fst ?r, snd ?r)" by simp
  have b: "\<forall>b \<in> set demo_batches. sampler_batch_ok b" by code_simp
  have "expected_stream (sm_eos ?S) [2, 3] 0 2 (samples_of (sm_head ?S) 7 demo_batches) = [2, 3, 2, 4]" by code_simp
  then have "stream_of 7 demo_batches (snd ?r) = [2, 3, 2, 4]" using request_stream[OF c r b] by simp
  then show ?thesis using r by blast
qed

section \<open>Termination of a request\<close>

lemma run_gone_stays:
  assumes "sampler_run S bs = Ok (S', outs)" and "\<forall>b \<in> set bs. sampler_batch_ok b" and "req_view S rid = gone"
  shows "req_view S' rid = gone"
  using assms
proof (induction bs arbitrary: S outs)
  case (Cons b bs)
  obtain hidden rids where b: "b = (hidden, rids)" by (cases b)
  obtain T cont fin out data os where s: "sampler_step S hidden rids = Ok (T, cont, fin, out, data)"
    and r: "sampler_run T bs = Ok (S', os)"
    using Cons.prems(1) b by (auto simp: res_simps)
  have bo: "sampler_batch_ok (hidden, rids)" using Cons.prems(2) b by simp
  have "rid \<notin> set rids"
  proof
    assume "rid \<in> set rids"
    then obtain j where "j < length rids" "rids ! j = rid" by (auto simp: in_set_conv_nth)
    then show False using sampler_step_entry(3)[OF s bo, of j] Cons.prems(3) by (auto simp: entry_step_active)
  qed
  then show ?case using Cons.IH[OF r] sampler_step_entry(2)[OF s bo, of rid] Cons.prems(2,3) by simp
qed simp

text \<open>A live request holds what is left of its budget.\<close>

lemma run_live_budget:
  assumes "sampler_run S bs = Ok (S', outs)" and "\<forall>b \<in> set bs. sampler_batch_ok b" and "req_view S rid = (Some q, Some n, Some m)"
    and "req_view S' rid \<noteq> gone" and "n < m"
  shows "int (length (samples_of h rid bs)) < int (length q) + (m - n)"
  using assms
proof (induction bs arbitrary: S outs q n)
  case (Cons b bs)
  obtain hidden rids where b: "b = (hidden, rids)" by (cases b)
  obtain T cont fin out data os where s: "sampler_step S hidden rids = Ok (T, cont, fin, out, data)"
    and r: "sampler_run T bs = Ok (S', os)"
    using Cons.prems(1) b by (auto simp: res_simps)
  have bo: "sampler_batch_ok (hidden, rids)" and bs: "\<forall>b \<in> set bs. sampler_batch_ok b" using Cons.prems(2) b by auto
  note e = sampler_step_entry[OF s bo]
  have split: "samples_of h rid (b # bs) = request_rows rid rids (map h hidden) @ samples_of h rid bs"
    by (simp add: samples_of_def b)
  note IH = Cons.IH[OF r bs _ Cons.prems(4)]
  show ?case
  proof (cases "rid \<in> set rids")
    case False
    then show ?thesis using IH[of q n] e(2)[OF False] Cons.prems(3,5) split by (simp add: request_rows_absent)
  next
    case True
    then obtain j where j: "j < length rids" "rids ! j = rid" by (auto simp: in_set_conv_nth)
    have len: "length (request_rows rid rids (map h hidden)) = 1"
      using request_rows_at[OF _ j(1), of "map h hidden"] bo j(2) by (simp add: sampler_batch_ok_def)
    have st: "entry_step (sm_eos S) (Some q, Some n, Some m) (map (sm_head S) hidden ! j) = Ok (out ! j, req_view T rid)"
      using e(3)[OF j(1)] j(2) Cons.prems(3) by simp
    have ng: "req_view T rid \<noteq> gone" using run_gone_stays[OF r bs] Cons.prems(4) by blast
    show ?thesis
    proof (cases q)
      case (Cons t q')
      then show ?thesis using st IH[of q' n] \<open>n < m\<close> split len by (simp add: entry_step_active)
    next
      case Nil
      then have "req_view T rid = (Some [], Some (n + 1), Some m)" "n + 1 < m" using st ng by (auto simp: entry_step_active split: if_splits)
      then show ?thesis using IH[of "[]" "n + 1"] split len Nil by simp
    qed
  qed
qed (simp add: samples_of_def)



end
