(* ===== verification/Sliding_Window.thy ===== *)
theory Sliding_Window
  imports Complex_Main Prelude
begin

text \<open>
  \<^verbatim>\<open>disagmoe/models/sliding_window.py\<close>: decode attention over the last \<open>window\<close> tokens of a paged cache.
  The window is attended in two parts. Part A is every whole page inside it and the current token, through
  the flash kernel on a trimmed block table; the tokens of the page the window starts in, if it starts inside a page,
  are attended by the merge kernel, which then merges the two parts by their log-sum-exp. Lengths and page numbers
  are integers, as in the kernels; \<open>//\<close> on them is the division of \<open>int\<close>, and all operands are non-negative.
  Floating-point values are reals: rounding is not modelled, and \<open>-inf\<close> is \<open>None\<close>.
  \<open>flash_attn_with_kvcache\<close> and \<open>triton.next_power_of_2\<close> are parameters. The main result is that the two parts merge to softmax attention
  over exactly the window.
\<close>

section \<open>The prep kernel\<close>

text \<open>One program per token: the trimmed block table and the cached length of part A.\<close>

definition sw_start :: "int \<Rightarrow> int \<Rightarrow> int" where
  "sw_start WIN c = max (c + 1 - WIN) 0"

definition sw_prep_kernel :: "int \<Rightarrow> int \<Rightarrow> int \<Rightarrow> int \<Rightarrow> int list \<Rightarrow> int list \<times> int" where
  "sw_prep_kernel P WIN NB c bt_row =
     (let start = sw_start WIN c;
          b1 = (start + P - 1) div P;
          n_pages = int (length bt_row)
      in (map (\<lambda>j. bt_row ! nat (min (b1 + j) (n_pages - 1))) [0..NB - 1], c - b1 * P))"

section \<open>The merge kernel\<close>

type_synonym vec = "nat \<Rightarrow> real"
type_synonym cache = "int \<Rightarrow> nat \<Rightarrow> vec"

text \<open>The slots of the boundary tokens, in the flat view of the cache.\<close>

definition sw_boundary_slots :: "int \<Rightarrow> int \<Rightarrow> int \<Rightarrow> int list \<Rightarrow> int list" where
  "sw_boundary_slots P WIN c bt_row =
     (let start = sw_start WIN c;
          off = start mod P;
          cnt = (if off > 0 then P - off else 0);
          b0 = start div P;
          page = bt_row ! nat b0
      in map (\<lambda>p. page * P + min (off + p) (P - 1)) (filter (\<lambda>p. p < cnt) [0..P - 1]))"

definition dot :: "nat \<Rightarrow> vec \<Rightarrow> vec \<Rightarrow> real" where
  "dot D x y = (\<Sum>d \<leftarrow> [0..<D]. x d * y d)"

definition sw_scores :: "nat \<Rightarrow> real \<Rightarrow> vec \<Rightarrow> cache \<Rightarrow> nat \<Rightarrow> int list \<Rightarrow> real list" where
  "sw_scores D scale q kf kvh slots = map (\<lambda>s. dot D q (kf s kvh) * scale) slots"

text \<open>One program per token and head. A masked score is \<open>-inf\<close> and its weight 0, so only the valid slots appear.\<close>

definition sw_merge_kernel ::
  "int \<Rightarrow> int \<Rightarrow> nat \<Rightarrow> real \<Rightarrow> vec \<Rightarrow> cache \<Rightarrow> cache \<Rightarrow> nat \<Rightarrow> int \<Rightarrow> int list \<Rightarrow> vec \<Rightarrow> real \<Rightarrow> vec \<times> real" where
  "sw_merge_kernel P WIN D scale qv kf vf kvh c bt_row out_a lse_a =
     (let slots = sw_boundary_slots P WIN c bt_row;
          s = sw_scores D scale qv kf kvh slots;
          has = slots \<noteq> [];
          mb = (if has then Max (set s) else 0);
          pe = map (\<lambda>x. exp (x - mb)) s;
          tot = sum_list pe;
          acc = (\<lambda>d. \<Sum>(w, sl) \<leftarrow> zip pe slots. w * vf sl kvh d);
          safe = (if tot > 0 then tot else 1);
          lse_b = (if has then Some (mb + ln safe) else None);
          out_b = (\<lambda>d. acc d / safe);
          m = (case lse_b of None \<Rightarrow> lse_a | Some l \<Rightarrow> max lse_a l);
          wa = exp (lse_a - m);
          wb = (case lse_b of None \<Rightarrow> 0 | Some l \<Rightarrow> exp (l - m));
          den = wa + wb
      in (\<lambda>d. (out_a d * wa + out_b d * wb) / den, m + ln den))"

section \<open>The wrapper\<close>

definition sw_nb :: "(int \<Rightarrow> int) \<Rightarrow> int \<Rightarrow> int \<Rightarrow> int" where
  "sw_nb npow2 window P = npow2 (window div P + 1)"

definition sw_checks :: "(int \<Rightarrow> int) \<Rightarrow> int \<Rightarrow> int \<Rightarrow> int \<Rightarrow> unit res" where
  "sw_checks npow2 D P window =
     rbind (py_assert (D = npow2 D)) (\<lambda>_.
     rbind (py_assert (P = npow2 P)) (\<lambda>_.
     py_assert (P \<le> window)))"

text \<open>The flash kernel: queries, key and value cache, new keys and values, cached lengths, block
  tables and scale, to the new caches, the outputs and the log-sum-exps.\<close>

type_synonym flash = "(nat \<Rightarrow> vec) list \<Rightarrow> cache \<Rightarrow> cache \<Rightarrow> (nat \<Rightarrow> vec) list \<Rightarrow> (nat \<Rightarrow> vec) list \<Rightarrow> int list \<Rightarrow> int list list
  \<Rightarrow> real \<Rightarrow> cache \<times> cache \<times> (nat \<Rightarrow> vec) list \<times> (nat \<Rightarrow> real) list"

definition sliding_window_decode_attention ::
  "(int \<Rightarrow> int) \<Rightarrow> flash \<Rightarrow> nat \<Rightarrow> nat \<Rightarrow> nat \<Rightarrow> int \<Rightarrow> (nat \<Rightarrow> vec) list \<Rightarrow> (nat \<Rightarrow> vec) list \<Rightarrow> (nat \<Rightarrow> vec) list \<Rightarrow> cache \<Rightarrow> cache
   \<Rightarrow> int list list \<Rightarrow> int list \<Rightarrow> int \<Rightarrow> real \<Rightarrow> (cache \<times> cache \<times> (nat \<Rightarrow> vec \<times> real) list) res" where
  "sliding_window_decode_attention npow2 flash H KV D P q k v kc vc block_table context_lens window scale =
     (if KV = 0 \<or> P = 0 then Raise ZeroDivisionError
      else let G = H div KV; NB = sw_nb npow2 window P in
        rbind (sw_checks npow2 (int D) P window) (\<lambda>_.
        (let prep = map2 (sw_prep_kernel P window NB) context_lens block_table;
             (kf, vf, out_a, lse_a) = flash q kc vc k v (map snd prep) (map fst prep) scale
         in Ok (kf, vf, map (\<lambda>r h. sw_merge_kernel P window D scale ((q ! r) h) kf vf (h div G)
                                   (context_lens ! r) (block_table ! r) ((out_a ! r) h) ((lse_a ! r) h))
                            [0..<length q]))))"

section \<open>What the parameters promise\<close>

text \<open>Position \<open>i\<close> of a sequence lives in page \<open>bt[i // P]\<close> at offset \<open>i % P\<close>.\<close>

definition paged_slot :: "int \<Rightarrow> int list \<Rightarrow> int \<Rightarrow> int" where
  "paged_slot P bt i = bt ! nat (i div P) * P + i mod P"

text \<open>Softmax attention of a query over the keys and values at some slots, and its log-sum-exp.\<close>

definition softmax_sum :: "nat \<Rightarrow> real \<Rightarrow> vec \<Rightarrow> cache \<Rightarrow> nat \<Rightarrow> int list \<Rightarrow> real" where
  "softmax_sum D scale q kf kvh slots = (\<Sum>s \<leftarrow> slots. exp (dot D q (kf s kvh) * scale))"

definition softmax_acc :: "nat \<Rightarrow> real \<Rightarrow> vec \<Rightarrow> cache \<Rightarrow> cache \<Rightarrow> nat \<Rightarrow> int list \<Rightarrow> vec" where
  "softmax_acc D scale q kf vf kvh slots = (\<lambda>d. \<Sum>s \<leftarrow> slots. exp (dot D q (kf s kvh) * scale) * vf s kvh d)"

definition attention :: "nat \<Rightarrow> real \<Rightarrow> vec \<Rightarrow> cache \<Rightarrow> cache \<Rightarrow> nat \<Rightarrow> int list \<Rightarrow> vec \<times> real" where
  "attention D scale q kf vf kvh slots =
     (\<lambda>d. softmax_acc D scale q kf vf kvh slots d / softmax_sum D scale q kf kvh slots, ln (softmax_sum D scale q kf kvh slots))"

text \<open>
  The cache after every row has written its new entry at its position. Rows run in parallel: where two write the same slot, either may
  win, and \<open>append_rows\<close> is the outcome when no two do.
\<close>

definition row_slots :: "int \<Rightarrow> int list \<Rightarrow> int list list \<Rightarrow> int list" where
  "row_slots P pos bts = map2 (\<lambda>i bt. paged_slot P bt i) pos bts"

definition append_rows :: "int \<Rightarrow> cache \<Rightarrow> (nat \<Rightarrow> vec) list \<Rightarrow> int list \<Rightarrow> int list list \<Rightarrow> cache" where
  "append_rows P kc k pos bts = foldl (\<lambda>c (x, s). c(s := x)) kc (zip k (row_slots P pos bts))"

definition appended :: "cache \<Rightarrow> (nat \<Rightarrow> vec) list \<Rightarrow> int list \<Rightarrow> cache \<Rightarrow> bool" where
  "appended kc k slots kf \<longleftrightarrow>
     (\<forall>s. if s \<in> set slots then \<exists>r < length slots. slots ! r = s \<and> kf s = k ! r else kf s = kc s)"

text \<open>No other row writes where this row reads.\<close>

definition row_apart :: "int \<Rightarrow> int list \<Rightarrow> int list list \<Rightarrow> nat \<Rightarrow> bool" where
  "row_apart P pos bts r \<longleftrightarrow>
     (\<forall>r' < length pos. r' \<noteq> r \<longrightarrow> paged_slot P (bts ! r') (pos ! r') \<notin> set (map (paged_slot P (bts ! r)) [0..pos ! r]))"

text \<open>
  \<open>flash_attn_with_kvcache\<close> with cached lengths and one new key per row: the new entry is stored at the position of
  the cached length, then positions \<open>0\<close> to the cached length are attended, all through the block
  table. It promises this only for positions the table covers, and the attention only to rows that stay apart from the others.
\<close>

definition flash_contract :: "nat \<Rightarrow> nat \<Rightarrow> int \<Rightarrow> flash \<Rightarrow> bool" where
  "flash_contract G D P flash \<longleftrightarrow> (\<forall>q kc vc k v pos bts scale.
     length k = length q \<longrightarrow> length v = length q \<longrightarrow> length pos = length q \<longrightarrow> length bts = length q \<longrightarrow>
     (\<forall>r < length q. 0 \<le> pos ! r \<and> pos ! r div P < int (length (bts ! r))) \<longrightarrow>
     (case flash q kc vc k v pos bts scale of (kf, vf, out, lse) \<Rightarrow>
        appended kc k (row_slots P pos bts) kf \<and> appended vc v (row_slots P pos bts) vf \<and>
        length out = length q \<and> length lse = length q \<and>
        (\<forall>r < length q. row_apart P pos bts r \<longrightarrow> (\<forall>h. ((out ! r) h, (lse ! r) h) =
           attention D scale ((q ! r) h) kf vf (h div G) (map (paged_slot P (bts ! r)) [0..pos ! r])))))"

definition npow2_contract :: "(int \<Rightarrow> int) \<Rightarrow> bool" where
  "npow2_contract npow2 \<longleftrightarrow> (\<forall>n \<ge> 1. n \<le> npow2 n \<and> npow2 n < 2 * n \<and> (\<exists>k. npow2 n = 2 ^ k))"

section \<open>Correctness\<close>

lemma foldl_writes:
  "if s \<in> snd ` set ps then \<exists>r < length ps. snd (ps ! r) = s \<and> foldl (\<lambda>c (x, s). c(s := x)) kc ps s = fst (ps ! r)
   else foldl (\<lambda>c (x, s). c(s := x)) kc ps s = kc s"
proof (induction ps rule: rev_induct)
  case (snoc p ps)
  show ?case
  proof (cases "s = snd p")
    case True
    then show ?thesis by (auto simp: case_prod_unfold intro!: exI[of _ "length ps"])
  next
    case False
    then show ?thesis using snoc by (auto simp: case_prod_unfold nth_append split: if_splits intro: less_SucI)
  qed
qed simp

lemma row_slots_nth [simp]: "r < length pos \<Longrightarrow> length bts = length pos \<Longrightarrow> row_slots P pos bts ! r = paged_slot P (bts ! r) (pos ! r)"
  by (simp add: row_slots_def)

lemma row_slots_length [simp]: "length bts = length pos \<Longrightarrow> length (row_slots P pos bts) = length pos"
  by (simp add: row_slots_def)

lemma append_rows_appended:
  assumes "length k = length pos" and "length bts = length pos"
  shows "appended kc k (row_slots P pos bts) (append_rows P kc k pos bts)"
proof -
  let ?sl = "row_slots P pos bts"
  have l: "length k = length ?sl" using assms by simp
  have sn: "snd ` set (zip k ?sl) = set ?sl" using map_snd_zip[OF l] by (metis list.set_map)
  show ?thesis
    unfolding appended_def append_rows_def
  proof
    fix s
    show "if s \<in> set ?sl then \<exists>r < length ?sl. ?sl ! r = s \<and> foldl (\<lambda>c (x, s). c(s := x)) kc (zip k ?sl) s = k ! r
      else foldl (\<lambda>c (x, s). c(s := x)) kc (zip k ?sl) s = kc s"
      using foldl_writes[of s "zip k ?sl" kc] l unfolding sn by (auto split: if_splits)
  qed
qed

lemma row_apart_slots:
  assumes "row_apart P pos bts r" and "r < length pos" and "length bts = length pos" and "0 \<le> pos ! r"
    and "r' < length pos" and "row_slots P pos bts ! r' = row_slots P pos bts ! r"
  shows "r' = r"
proof (rule ccontr)
  assume "r' \<noteq> r"
  then have "paged_slot P (bts ! r') (pos ! r') \<notin> set (map (paged_slot P (bts ! r)) [0..pos ! r])"
    using assms(1,5) unfolding row_apart_def by blast
  moreover have "paged_slot P (bts ! r) (pos ! r) \<in> set (map (paged_slot P (bts ! r)) [0..pos ! r])"
    using assms(4) by auto
  ultimately show False using assms by simp
qed

text \<open>A row apart from the others finds its own entry; when all rows are, the cache is determined.\<close>

lemma appended_own:
  assumes "appended kc k (row_slots P pos bts) kf" and "row_apart P pos bts r" and "r < length pos" and "length bts = length pos" and "0 \<le> pos ! r"
  shows "kf (paged_slot P (bts ! r) (pos ! r)) = k ! r"
proof -
  let ?sl = "row_slots P pos bts"
  have "?sl ! r \<in> set ?sl" using assms(3,4) by (intro nth_mem) simp
  then obtain r' where "r' < length ?sl" "?sl ! r' = ?sl ! r" "kf (?sl ! r) = k ! r'"
    using assms(1) unfolding appended_def by metis
  then show ?thesis using row_apart_slots[OF assms(2-5), of r'] assms(3,4) by simp
qed

lemma appended_unique:
  assumes "appended kc k (row_slots P pos bts) kf" and "appended kc k (row_slots P pos bts) kf'" and "length bts = length pos"
    and "\<forall>r < length pos. row_apart P pos bts r \<and> 0 \<le> pos ! r"
  shows "kf = kf'"
proof
  fix s
  let ?sl = "row_slots P pos bts"
  show "kf s = kf' s"
  proof (cases "s \<in> set ?sl")
    case True
    then obtain r where "r < length pos" "s = ?sl ! r" using assms(3) by (auto simp: in_set_conv_nth)
    then show ?thesis using appended_own[OF assms(1)] appended_own[OF assms(2)] assms(3,4) by simp
  next
    case False
    then show ?thesis using assms(1,2) by (simp add: appended_def)
  qed
qed

lemma sw_nb_ge:
  assumes "npow2_contract npow2" and "0 < P" and "0 \<le> WIN"
  shows "WIN div P + 1 \<le> sw_nb npow2 WIN P"
  using assms by (simp add: sw_nb_def npow2_contract_def pos_imp_zdiv_nonneg_iff)

text \<open>The trimmed table from page \<open>b1\<close> on.\<close>

lemma sw_trim_nth:
  assumes "0 \<le> b1" and "0 \<le> j" and "j < NB" and "b1 + j < int (length bt)"
  shows "map (\<lambda>j. bt ! nat (min (b1 + j) (int (length bt) - 1))) [0..NB - 1] ! nat j = bt ! nat (b1 + j)"
proof -
  have "nat j < length [0..NB - 1]" using assms by simp
  moreover have "[0..NB - 1] ! nat j = j" using assms by (simp add: nth_upto)
  ultimately show ?thesis using assms by simp
qed

lemma shift_pages:
  fixes P b i :: int
  assumes "0 < P" and "0 \<le> i"
  shows "(b * P + i) div P = b + i div P" and "(b * P + i) mod P = i mod P"
  using assms by simp_all

text \<open>Part A reads positions \<open>b1 * P\<close> to \<open>c\<close> at their own slots.\<close>

lemma sw_part_a:
  assumes P: "0 < P" "P \<le> WIN" and c: "0 \<le> c" "c div P < int (length bt)"
    and NB: "WIN div P + 1 \<le> NB" and b1: "b1 = (sw_start WIN c + P - 1) div P"
  shows "0 \<le> b1 \<and> b1 * P \<le> c"
    and "0 \<le> i \<Longrightarrow> i \<le> c - b1 * P \<Longrightarrow>
      paged_slot P (fst (sw_prep_kernel P WIN (NB) c bt)) i = paged_slot P bt (b1 * P + i)"
proof -
  have s: "0 \<le> sw_start WIN c" "c + 1 - WIN \<le> sw_start WIN c" "sw_start WIN c \<le> c" using P c by (auto simp: sw_start_def)
  have b: "b1 * P \<le> sw_start WIN c + P - 1" "sw_start WIN c \<le> b1 * P"
  proof -
    have m: "b1 * P + (sw_start WIN c + P - 1) mod P = sw_start WIN c + P - 1" unfolding b1 by simp
    have "0 \<le> (sw_start WIN c + P - 1) mod P" "(sw_start WIN c + P - 1) mod P < P" using P by simp_all
    then show "b1 * P \<le> sw_start WIN c + P - 1" "sw_start WIN c \<le> b1 * P" using m by linarith+
  qed
  have nn: "0 \<le> b1" unfolding b1 using s P by (simp add: pos_imp_zdiv_nonneg_iff)
  have le: "b1 * P \<le> c"
  proof (cases "sw_start WIN c = 0")
    case True
    then have "b1 = 0" unfolding b1 using P by (simp add: div_pos_pos_trivial)
    then show ?thesis using c by simp
  next
    case False
    then have "sw_start WIN c = c + 1 - WIN" by (auto simp: sw_start_def)
    then show ?thesis using b P by linarith
  qed
  show "0 \<le> b1 \<and> b1 * P \<le> c" using nn le by simp
  assume i: "0 \<le> i" "i \<le> c - b1 * P"
  have "i \<le> WIN" using i b s by linarith
  then have "i div P \<le> WIN div P" using P by (simp add: zdiv_mono1)
  then have j: "0 \<le> i div P" "i div P < NB" using NB i P by (auto simp: pos_imp_zdiv_nonneg_iff)
  have "b1 + i div P = (b1 * P + i) div P" using shift_pages(1)[OF P(1) i(1)] by simp
  also have "\<dots> \<le> c div P" using i P by (intro zdiv_mono1) linarith+
  finally have "b1 + i div P < int (length bt)" using c by linarith
  from sw_trim_nth[OF nn j this]
  show "paged_slot P (fst (sw_prep_kernel P WIN (NB) c bt)) i = paged_slot P bt (b1 * P + i)"
    using shift_pages[OF P(1) i(1), of b1]
    by (simp add: paged_slot_def sw_prep_kernel_def Let_def b1[symmetric])
qed

text \<open>The boundary: positions from the start of the window to the first whole page.\<close>

lemma filter_upto_less: "0 \<le> cnt \<Longrightarrow> cnt \<le> P \<Longrightarrow> filter (\<lambda>p. p < cnt) [0..P - 1] = [0..cnt - 1]" for P cnt :: int
proof -
  assume a: "0 \<le> cnt" "cnt \<le> P"
  have "[0..P - 1] = [0..cnt - 1] @ [cnt..P - 1]" using upto_split2[of 0 "cnt - 1" "P - 1"] a by (cases "cnt = 0") auto
  moreover have "filter (\<lambda>p. p < cnt) [0..cnt - 1] = [0..cnt - 1]" by (simp add: filter_id_conv)
  moreover have "filter (\<lambda>p. p < cnt) [cnt..P - 1] = []" by (simp add: filter_empty_conv)
  ultimately show ?thesis by simp
qed

lemma sw_boundary:
  assumes P: "0 < P" and s: "0 \<le> sw_start WIN c" and b1: "b1 = (sw_start WIN c + P - 1) div P"
  shows "sw_boundary_slots P WIN c bt = map (paged_slot P bt) [sw_start WIN c..b1 * P - 1]"
proof -
  define st where "st = sw_start WIN c"
  define cnt where "cnt = (if st mod P > 0 then P - st mod P else 0)"
  have m: "0 \<le> st mod P" "st mod P < P" using P by simp_all
  have c: "0 \<le> cnt" "cnt \<le> P" using m by (auto simp: cnt_def)
  have dm: "st div P * P + st mod P = st" by simp
  have e: "st + cnt = b1 * P"
  proof (cases "st mod P > 0")
    case True
    have "(st + P - 1) div P = (st div P * P + (st mod P - 1 + P)) div P" using dm by (simp add: algebra_simps)
    also have "\<dots> = st div P + (st mod P - 1 + P) div P" using P True by simp
    also have "(st mod P - 1 + P) div P = 1"
      using True m shift_pages(1)[OF P, of "st mod P - 1" 1] by (simp add: div_pos_pos_trivial algebra_simps)
    finally have "b1 = st div P + 1" unfolding b1 st_def by simp
    then show ?thesis using True dm by (simp add: cnt_def algebra_simps)
  next
    case False
    then have z: "st mod P = 0" using m by simp
    have "st + P - 1 = st div P * P + (P - 1)" using dm z by linarith
    then have "(st + P - 1) div P = (st div P * P + (P - 1)) div P" by (rule arg_cong)
    also have "\<dots> = st div P" using P by (simp add: div_pos_pos_trivial)
    finally show ?thesis using dm z unfolding b1 st_def[symmetric] by (simp add: cnt_def)
  qed
  have slot: "bt ! nat (st div P) * P + min (st mod P + p) (P - 1) = paged_slot P bt (st + p)" if "0 \<le> p" "p < cnt" for p
  proof -
    have lt: "st mod P + p < P" using that by (auto simp: cnt_def split: if_splits)
    have "st + p = st div P * P + (st mod P + p)" using dm by simp
    then have "(st + p) div P = st div P" "(st + p) mod P = st mod P + p"
      using lt m that P shift_pages[OF P, of "st mod P + p" "st div P"] by (simp_all add: div_pos_pos_trivial mod_pos_pos_trivial)
    then show ?thesis using lt by (simp add: paged_slot_def)
  qed
  have "sw_boundary_slots P WIN c bt = map (\<lambda>p. bt ! nat (st div P) * P + min (st mod P + p) (P - 1)) [0..cnt - 1]"
    unfolding sw_boundary_slots_def Let_def st_def[symmetric] cnt_def[symmetric] filter_upto_less[OF c] ..
  also have "\<dots> = map (\<lambda>p. paged_slot P bt (st + p)) [0..cnt - 1]" by (rule map_cong) (auto simp: slot)
  also have "\<dots> = map (paged_slot P bt) [st..st + cnt - 1]"
    by (rule nth_equalityI) (auto simp: nth_upto)
  finally show ?thesis by (simp add: e st_def[symmetric])
qed

lemma prep_snd: "snd (sw_prep_kernel P WIN NB c bt) = c - (sw_start WIN c + P - 1) div P * P"
  by (simp add: sw_prep_kernel_def Let_def)

lemma window_start_page: "0 < P \<Longrightarrow> sw_start WIN c \<le> (sw_start WIN c + P - 1) div P * P" for P :: int
proof -
  assume P: "0 < P"
  have "(sw_start WIN c + P - 1) div P * P + (sw_start WIN c + P - 1) mod P = sw_start WIN c + P - 1" by simp
  moreover have "(sw_start WIN c + P - 1) mod P < P" using P by simp
  ultimately show ?thesis by linarith
qed

text \<open>The boundary and part A together are the slots of the window, in order and each once.\<close>

lemma sw_window_slots:
  assumes P: "0 < P" "P \<le> WIN" and c: "0 \<le> c" "c div P < int (length bt)" and NB: "WIN div P + 1 \<le> NB"
  shows "sw_boundary_slots P WIN c bt @
      map (paged_slot P (fst (sw_prep_kernel P WIN NB c bt))) [0..snd (sw_prep_kernel P WIN NB c bt)]
    = map (paged_slot P bt) [sw_start WIN c..c]"
proof -
  define b1 where "b1 = (sw_start WIN c + P - 1) div P"
  have s: "0 \<le> sw_start WIN c" by (simp add: sw_start_def)
  note a = sw_part_a[OF P c NB b1_def]
  have "map (paged_slot P (fst (sw_prep_kernel P WIN NB c bt))) [0..c - b1 * P]
      = map (\<lambda>i. paged_slot P bt (b1 * P + i)) [0..c - b1 * P]"
    by (rule map_cong) (auto simp: a(2))
  also have "\<dots> = map (paged_slot P bt) [b1 * P..c]"
    by (rule nth_equalityI) (auto simp: nth_upto)
  finally have f: "map (paged_slot P (fst (sw_prep_kernel P WIN NB c bt))) [0..c - b1 * P] = map (paged_slot P bt) [b1 * P..c]" .
  have "[sw_start WIN c..c] = [sw_start WIN c..b1 * P - 1] @ [b1 * P..c]"
    using window_start_page[OF P(1), of WIN c, folded b1_def] a(1) upto_split1[of "sw_start WIN c" "b1 * P" c] by simp
  then show ?thesis
    using sw_boundary[OF P(1) s b1_def, of bt] f by (simp add: prep_snd b1_def[symmetric])
qed

text \<open>The current position in the trimmed table: inside it, and at the slot it has in the full one.\<close>

lemma sw_current:
  assumes P: "0 < P" "P \<le> WIN" and c: "0 \<le> c" "c div P < int (length bt)" and NB: "WIN div P + 1 \<le> NB"
    and pr: "sw_prep_kernel P WIN NB c bt = (bt_a, seq_a)"
  shows "0 \<le> seq_a \<and> seq_a div P < int (length bt_a) \<and> paged_slot P bt_a seq_a = paged_slot P bt c"
proof -
  define b1 where "b1 = (sw_start WIN c + P - 1) div P"
  note a = sw_part_a[OF P c NB b1_def]
  have q: "seq_a = c - b1 * P" using prep_snd[of P WIN NB c bt] pr by (simp add: b1_def)
  have "length bt_a = nat NB" using pr by (auto simp: sw_prep_kernel_def Let_def)
  moreover have "c - b1 * P \<le> WIN" using window_start_page[OF P(1), of WIN c, folded b1_def] by (auto simp: sw_start_def)
  then have "(c - b1 * P) div P \<le> WIN div P" using P by (simp add: zdiv_mono1)
  ultimately show ?thesis using a NB q pr by auto
qed

text \<open>Merging by log-sum-exp gives the attention over both parts.\<close>

lemma softmax_sum_append [simp]: "softmax_sum D scale q kf kvh (xs @ ys) = softmax_sum D scale q kf kvh xs + softmax_sum D scale q kf kvh ys"
  by (simp add: softmax_sum_def)

lemma softmax_acc_append [simp]: "softmax_acc D scale q kf vf kvh (xs @ ys) d = softmax_acc D scale q kf vf kvh xs d + softmax_acc D scale q kf vf kvh ys d"
  by (simp add: softmax_acc_def)

lemma softmax_sum_pos: "xs \<noteq> [] \<Longrightarrow> 0 < softmax_sum D scale q kf kvh xs"
  unfolding softmax_sum_def
  by (induction xs rule: list_nonempty_induct) (simp_all add: add_pos_pos)

lemma shifted_sum:
  "sum_list (map (\<lambda>x. exp (x - mb)) (sw_scores D scale q kf kvh slots)) = softmax_sum D scale q kf kvh slots * exp (- mb)"
  unfolding softmax_sum_def sw_scores_def by (induction slots) (simp_all add: exp_diff exp_minus field_simps)

lemma shifted_acc:
  "(\<Sum>(w, sl) \<leftarrow> zip (map (\<lambda>x. exp (x - mb)) (sw_scores D scale q kf kvh slots)) slots. w * vf sl kvh d)
    = softmax_acc D scale q kf vf kvh slots d * exp (- mb)"
  unfolding softmax_acc_def sw_scores_def by (induction slots) (simp_all add: exp_diff exp_minus field_simps)

lemma merge_reals:
  fixes A B NA NB m :: real
  assumes "0 < A" and "0 < B"
  shows "(NA * exp (ln A - m) / A + NB * exp (ln B - m) / B) / (exp (ln A - m) + exp (ln B - m)) = (NB + NA) / (B + A)"
    and "m + ln (exp (ln A - m) + exp (ln B - m)) = ln (B + A)"
proof -
  have e: "exp (ln A - m) = A * exp (- m)" "exp (ln B - m) = B * exp (- m)" using assms by (simp_all add: exp_diff exp_minus field_simps)
  have d: "A * exp (- m) + B * exp (- m) = (B + A) * exp (- m)" by (simp add: algebra_simps)
  have "NA * (A * exp (- m)) / A + NB * (B * exp (- m)) / B = (NB + NA) * exp (- m)" using assms by (simp add: algebra_simps)
  then show "(NA * exp (ln A - m) / A + NB * exp (ln B - m) / B) / (exp (ln A - m) + exp (ln B - m)) = (NB + NA) / (B + A)"
    unfolding e d by simp
  show "m + ln (exp (ln A - m) + exp (ln B - m)) = ln (B + A)" unfolding e d using assms by (simp add: ln_mult)
qed

lemma merge_attention:
  assumes a: "(out_a, lse_a) = attention D scale q kf vf kvh part" and "part \<noteq> []"
  shows "sw_merge_kernel P WIN D scale q kf vf kvh c bt out_a lse_a
    = attention D scale q kf vf kvh (sw_boundary_slots P WIN c bt @ part)"
proof (cases "sw_boundary_slots P WIN c bt = []")
  case True
  then show ?thesis using a by (simp add: sw_merge_kernel_def Let_def attention_def sw_scores_def)
next
  case False
  define slots where "slots = sw_boundary_slots P WIN c bt"
  define mb where "mb = Max (set (sw_scores D scale q kf kvh slots))"
  define A where "A = softmax_sum D scale q kf kvh part"
  define B where "B = softmax_sum D scale q kf kvh slots"
  have A: "0 < A" unfolding A_def by (rule softmax_sum_pos) fact
  have B: "0 < B" unfolding B_def by (rule softmax_sum_pos) (simp add: slots_def False)
  have lb: "mb + ln (B * exp (- mb)) = ln B" using B by (simp add: ln_mult)
  have ob: "softmax_acc D scale q kf vf kvh slots d * exp (- mb) / (B * exp (- mb)) = softmax_acc D scale q kf vf kvh slots d / B" for d
    by simp
  have oa: "out_a = (\<lambda>d. softmax_acc D scale q kf vf kvh part d / A)" "lse_a = ln A"
    using a by (simp_all add: attention_def A_def)
  have p: "0 < B * exp (- mb)" using B by simp
  show ?thesis
    unfolding sw_merge_kernel_def Let_def slots_def[symmetric] shifted_sum shifted_acc
    using False p
    by (simp add: slots_def[symmetric] mb_def[symmetric] B_def[symmetric] lb ob oa attention_def A_def[symmetric] merge_reals[OF A B])
qed

text \<open>What the trimmed tables share with the full ones: the slot of every row, and that rows are apart.\<close>

lemma trimmed_rows:
  assumes "npow2_contract npow2" and W: "P \<le> window" and P: "0 < P"
    and len: "length bts = length ctx" and ctx: "\<forall>r < length ctx. 0 \<le> ctx ! r \<and> ctx ! r div P < int (length (bts ! r))"
    and prep: "prep = map2 (sw_prep_kernel P window (sw_nb npow2 window P)) ctx bts"
  shows "row_slots P (map snd prep) (map fst prep) = row_slots P ctx bts"
    and "\<forall>r < length ctx. 0 \<le> snd (prep ! r) \<and> snd (prep ! r) div P < int (length (fst (prep ! r)))"
    and "r < length ctx \<Longrightarrow> sw_boundary_slots P window (ctx ! r) (bts ! r) @ map (paged_slot P (fst (prep ! r))) [0..snd (prep ! r)]
      = map (paged_slot P (bts ! r)) [sw_start window (ctx ! r)..ctx ! r]"
    and "r < length ctx \<Longrightarrow> row_apart P ctx bts r \<Longrightarrow> row_apart P (map snd prep) (map fst prep) r"
proof -
  have NB: "window div P + 1 \<le> sw_nb npow2 window P" using assms(1) P W by (intro sw_nb_ge) auto
  have pr: "prep ! r = sw_prep_kernel P window (sw_nb npow2 window P) (ctx ! r) (bts ! r)" if "r < length ctx" for r
    using that len by (simp add: prep)
  have lp: "length prep = length ctx" using len by (simp add: prep)
  have cur: "0 \<le> snd (prep ! r) \<and> snd (prep ! r) div P < int (length (fst (prep ! r)))
      \<and> paged_slot P (fst (prep ! r)) (snd (prep ! r)) = paged_slot P (bts ! r) (ctx ! r)" if "r < length ctx" for r
    using sw_current[OF P W _ _ NB, of "ctx ! r" "bts ! r" "fst (prep ! r)" "snd (prep ! r)"] ctx that by (simp add: pr)
  show "row_slots P (map snd prep) (map fst prep) = row_slots P ctx bts"
  proof (rule nth_equalityI)
    fix r assume "r < length (row_slots P (map snd prep) (map fst prep))"
    then have "r < length ctx" using lp by simp
    then show "row_slots P (map snd prep) (map fst prep) ! r = row_slots P ctx bts ! r" using cur[of r] lp len by simp
  qed (use lp len in simp)
  show "\<forall>r < length ctx. 0 \<le> snd (prep ! r) \<and> snd (prep ! r) div P < int (length (fst (prep ! r)))" using cur by blast
  have win: "sw_boundary_slots P window (ctx ! r) (bts ! r) @ map (paged_slot P (fst (prep ! r))) [0..snd (prep ! r)]
      = map (paged_slot P (bts ! r)) [sw_start window (ctx ! r)..ctx ! r]" if "r < length ctx" for r
    using sw_window_slots[OF P W _ _ NB, of "ctx ! r" "bts ! r"] ctx that by (simp add: pr)
  then show "r < length ctx \<Longrightarrow> sw_boundary_slots P window (ctx ! r) (bts ! r) @ map (paged_slot P (fst (prep ! r))) [0..snd (prep ! r)]
      = map (paged_slot P (bts ! r)) [sw_start window (ctx ! r)..ctx ! r]" .
  assume r: "r < length ctx" and ap: "row_apart P ctx bts r"
  have "set (map (paged_slot P (fst (prep ! r))) [0..snd (prep ! r)]) \<subseteq> set (map (paged_slot P (bts ! r)) [0..ctx ! r])"
  proof -
    have "set (map (paged_slot P (fst (prep ! r))) [0..snd (prep ! r)]) \<subseteq> set (map (paged_slot P (bts ! r)) [sw_start window (ctx ! r)..ctx ! r])"
      unfolding win[OF r, symmetric] by simp
    also have "\<dots> \<subseteq> set (map (paged_slot P (bts ! r)) [0..ctx ! r])" by (auto simp: sw_start_def)
    finally show ?thesis .
  qed
  note sub = this
  show "row_apart P (map snd prep) (map fst prep) r"
    unfolding row_apart_def
  proof (intro allI impI)
    fix r' assume r': "r' < length (map snd prep)" "r' \<noteq> r"
    then have "paged_slot P (bts ! r') (ctx ! r') \<notin> set (map (paged_slot P (bts ! r)) [0..ctx ! r])"
      using ap lp unfolding row_apart_def by simp
    moreover have "paged_slot P (map fst prep ! r') (map snd prep ! r') = paged_slot P (bts ! r') (ctx ! r')" using cur r' lp by simp
    moreover have "map fst prep ! r = fst (prep ! r)" "map snd prep ! r = snd (prep ! r)" using r lp by simp_all
    ultimately show "paged_slot P (map fst prep ! r') (map snd prep ! r') \<notin> set (map (paged_slot P (map fst prep ! r)) [0..map snd prep ! r])"
      using sub by (simp only:) blast
  qed
qed

text \<open>
  Every call leaves caches with the new entries appended, and a row that stays apart gets attention over its window.
\<close>

lemma sliding_window_rows:
  assumes "npow2_contract npow2" and "flash_contract (H div KV) D P flash"
    and "sw_checks npow2 (int D) P window = Ok ()" and "0 < P" and "0 < KV"
    and "length k = length q \<and> length v = length q \<and> length bts = length q \<and> length ctx = length q"
    and "\<forall>r < length q. 0 \<le> ctx ! r \<and> ctx ! r div P < int (length (bts ! r))"
  shows "\<exists>kf vf rows. sliding_window_decode_attention npow2 flash H KV D P q k v kc vc bts ctx window scale = Ok (kf, vf, rows)
    \<and> appended kc k (row_slots P ctx bts) kf \<and> appended vc v (row_slots P ctx bts) vf \<and> length rows = length q
    \<and> (\<forall>r < length q. row_apart P ctx bts r \<longrightarrow> (\<forall>h. (rows ! r) h = attention D scale ((q ! r) h) kf vf (h div (H div KV))
         (map (paged_slot P (bts ! r)) [max (ctx ! r + 1 - window) 0..ctx ! r])))"
proof -
  have W: "P \<le> window" using assms(3) by (auto simp: sw_checks_def res_simps)
  define prep where "prep = map2 (sw_prep_kernel P window (sw_nb npow2 window P)) ctx bts"
  have lens: "length bts = length ctx" "\<forall>r < length ctx. 0 \<le> ctx ! r \<and> ctx ! r div P < int (length (bts ! r))" using assms(6,7) by auto
  note tr = trimmed_rows[OF assms(1) W assms(4) lens prep_def]
  have lp: "length prep = length q" using assms(6) by (simp add: prep_def)
  obtain kf vf out lse where fl: "flash q kc vc k v (map snd prep) (map fst prep) scale = (kf, vf, out, lse)"
    by (cases "flash q kc vc k v (map snd prep) (map fst prep) scale")
  have "appended kc k (row_slots P ctx bts) kf \<and> appended vc v (row_slots P ctx bts) vf \<and>
      (\<forall>r < length q. row_apart P (map snd prep) (map fst prep) r \<longrightarrow> (\<forall>h. ((out ! r) h, (lse ! r) h) =
         attention D scale ((q ! r) h) kf vf (h div (H div KV)) (map (paged_slot P (fst (prep ! r))) [0..snd (prep ! r)])))"
    using assms(2)[unfolded flash_contract_def, rule_format, of k q v "map snd prep" "map fst prep" kc vc scale] tr(1,2) assms(6)
    by (simp add: fl lp)
  then have kv: "appended kc k (row_slots P ctx bts) kf" "appended vc v (row_slots P ctx bts) vf"
    and fa: "\<And>r h. r < length q \<Longrightarrow> row_apart P ctx bts r \<Longrightarrow> ((out ! r) h, (lse ! r) h) =
         attention D scale ((q ! r) h) kf vf (h div (H div KV)) (map (paged_slot P (fst (prep ! r))) [0..snd (prep ! r)])"
    using tr(4) assms(6) by (simp_all add: row_slots_def)
  have row: "sw_merge_kernel P window D scale ((q ! r) h) kf vf (h div (H div KV)) (ctx ! r) (bts ! r) ((out ! r) h) ((lse ! r) h)
      = attention D scale ((q ! r) h) kf vf (h div (H div KV)) (map (paged_slot P (bts ! r)) [max (ctx ! r + 1 - window) 0..ctx ! r])"
    if "r < length q" "row_apart P ctx bts r" for r h
    using merge_attention[OF fa[OF that], where P = P and WIN = window and c = "ctx ! r" and bt = "bts ! r"] tr(2)[rule_format, of r] tr(3)[of r] assms(6) that
    by (simp add: sw_start_def)
  show ?thesis
    unfolding sliding_window_decode_attention_def Let_def prep_def[symmetric] fl
    using assms(3-5) kv by (simp add: row)
qed

text \<open>
  C25: With the page size at most the window, every block table covering its current token, a positive page size,
  at least one KV head, and no row writing where another reads, sliding-window decode attention returns, for every row and head, softmax
  attention and its log-sum-exp over exactly the last \<open>window\<close> positions of the row, or all of them when there are fewer, current token included;
  and the caches it leaves hold each new key and value at the slot of its row's current position in the full block table.
\<close>

theorem sliding_window_attention:
  assumes "npow2_contract npow2" and "flash_contract (H div KV) D P flash"
    and "sw_checks npow2 (int D) P window = Ok ()" and "0 < P" and "0 < KV"
    and "length k = length q \<and> length v = length q \<and> length bts = length q \<and> length ctx = length q"
    and "\<forall>r < length q. 0 \<le> ctx ! r \<and> ctx ! r div P < int (length (bts ! r))"
    and "\<forall>r < length q. row_apart P ctx bts r"
  shows "sliding_window_decode_attention npow2 flash H KV D P q k v kc vc bts ctx window scale =
    (let kf = append_rows P kc k ctx bts; vf = append_rows P vc v ctx bts in
     Ok (kf, vf, map (\<lambda>r h. attention D scale ((q ! r) h) kf vf (h div (H div KV))
                              (map (paged_slot P (bts ! r)) [max (ctx ! r + 1 - window) 0..ctx ! r])) [0..<length q]))"
proof -
  obtain kf vf rows where sw: "sliding_window_decode_attention npow2 flash H KV D P q k v kc vc bts ctx window scale = Ok (kf, vf, rows)"
    and kv: "appended kc k (row_slots P ctx bts) kf" "appended vc v (row_slots P ctx bts) vf" and l: "length rows = length q"
    and row: "\<forall>r < length q. row_apart P ctx bts r \<longrightarrow> (\<forall>h. (rows ! r) h = attention D scale ((q ! r) h) kf vf (h div (H div KV))
         (map (paged_slot P (bts ! r)) [max (ctx ! r + 1 - window) 0..ctx ! r]))"
    using sliding_window_rows[OF assms(1-7)] by blast
  have lb: "length bts = length ctx" and ap: "\<forall>r < length ctx. row_apart P ctx bts r \<and> 0 \<le> ctx ! r" using assms(6-8) by auto
  have "kf = append_rows P kc k ctx bts" "vf = append_rows P vc v ctx bts"
    using appended_unique[OF kv(1) append_rows_appended lb ap] appended_unique[OF kv(2) append_rows_appended lb ap] assms(6) by auto
  moreover have "rows = map (\<lambda>r h. attention D scale ((q ! r) h) kf vf (h div (H div KV))
      (map (paged_slot P (bts ! r)) [max (ctx ! r + 1 - window) 0..ctx ! r])) [0..<length q]"
    using row l assms(8) by (intro nth_equalityI) (auto simp: fun_eq_iff)
  ultimately show ?thesis by (simp add: sw Let_def)
qed

text \<open>
  C28: The new key of a row is written to the slot of its own position, although the flash kernel sees
  only the trimmed table: the cached length it is given is not negative, its page index is inside the trimmed table, and
  the slot there is the one of the current position in the full table.
\<close>

theorem sliding_window_append_slot:
  assumes "npow2_contract npow2" and "sw_checks npow2 D P WIN = Ok ()" and "0 < P" and "0 \<le> c" and "c div P < int (length bt)"
  shows "let (bt_a, seq_a) = sw_prep_kernel P WIN (sw_nb npow2 WIN P) c bt in
    0 \<le> seq_a \<and> seq_a div P < int (length bt_a) \<and> paged_slot P bt_a seq_a = paged_slot P bt c"
proof -
  have W: "P \<le> WIN" using assms(2) by (auto simp: sw_checks_def res_simps)
  show ?thesis
    using sw_current[OF assms(3) W assms(4,5) sw_nb_ge[OF assms(1,3)]] W assms(3) by (auto split: prod.split)
qed

section \<open>Instances of the parameters\<close>

text \<open>The least power of two that is at least the argument.\<close>

function npow2_from :: "int \<Rightarrow> int \<Rightarrow> int" where
  "npow2_from p n = (if p \<ge> n \<or> p \<le> 0 then p else npow2_from (2 * p) n)"
  by pat_completeness auto
termination by (relation "measure (\<lambda>(p, n). nat (n - p))") auto

declare npow2_from.simps [simp del]

lemma npow2_from_spec:
  "p = 2 ^ j \<Longrightarrow> p < 2 * n \<Longrightarrow> n \<le> npow2_from p n \<and> npow2_from p n < 2 * n \<and> (\<exists>k. npow2_from p n = 2 ^ k)"
proof (induction p n arbitrary: j rule: npow2_from.induct)
  case (1 p n)
  show ?case
  proof (cases "n \<le> p")
    case True
    then show ?thesis using 1 by (subst (1 2 3) npow2_from.simps) auto
  next
    case False
    moreover have "0 < p" using 1(2) by simp
    ultimately show ?thesis using 1(1)[of "Suc j"] 1(2,3) by (subst (1 2 3) npow2_from.simps) auto
  qed
qed

lemma npow2_from_contract: "npow2_contract (npow2_from 1)"
  unfolding npow2_contract_def using npow2_from_spec[of 1 0] by simp

definition demo_flash :: flash where
  "demo_flash q kc vc k v pos bts scale =
     (let kf = append_rows 4 kc k pos bts; vf = append_rows 4 vc v pos bts;
          a = (\<lambda>r h. attention 2 scale ((q ! r) h) kf vf (h div 2) (map (paged_slot 4 (bts ! r)) [0..pos ! r]))
      in (kf, vf, map (\<lambda>r h. fst (a r h)) [0..<length q], map (\<lambda>r h. snd (a r h)) [0..<length q]))"

lemma demo_flash_contract: "flash_contract 2 2 4 demo_flash"
  by (simp add: flash_contract_def demo_flash_def Let_def append_rows_appended)

theorem sliding_window_attention_witness:
  "sliding_window_decode_attention (npow2_from 1) demo_flash 2 1 2 4 [\<lambda>h d. 1] [\<lambda>h d. 2] [\<lambda>h d. 3] (\<lambda>s h d. 0) (\<lambda>s h d. 0) [[7, 2, 5]] [9] 6 1 =
    (let kf = append_rows 4 (\<lambda>s h d. 0) [\<lambda>h d. 2] [9] [[7, 2, 5]]; vf = append_rows 4 (\<lambda>s h d. 0) [\<lambda>h d. 3] [9] [[7, 2, 5]] in
     Ok (kf, vf, [\<lambda>h. attention 2 1 (\<lambda>d. 1) kf vf (h div 2) [8, 9, 10, 11, 20, 21]]))"
proof -
  have c: "sw_checks (npow2_from 1) (int 2) 4 6 = Ok ()" by code_simp
  have s: "map (paged_slot 4 [7, 2, 5]) [max (9 + 1 - 6) 0..9] = [8, 9, 10, 11, 20, 21]" by code_simp
  have "flash_contract (2 div 1) 2 4 demo_flash" using demo_flash_contract by simp
  note t = sliding_window_attention[OF npow2_from_contract this c, of "[\<lambda>h d. 2]" "[\<lambda>h d. 1]" "[\<lambda>h d. 3]" "[[7, 2, 5]]" "[9]" "\<lambda>s h d. 0" "\<lambda>s h d. 0" 1]
  have ap: "row_apart 4 [9] [[7, 2, 5]] 0" by (simp add: row_apart_def)
  have q: "map (\<lambda>r h. attention 2 1 (([\<lambda>h d. 1 :: real] ! r) h) kf vf (h div (2 div 1))
        (map (paged_slot 4 ([[7, 2, 5]] ! r)) [max ([9] ! r + 1 - 6) 0..[9] ! r])) [0..<length ([\<lambda>h d. 1] :: (nat \<Rightarrow> vec) list)]
      = [\<lambda>h. attention 2 1 (\<lambda>d. 1) kf vf (h div 2) [8, 9, 10, 11, 20, 21]]" for kf vf
    unfolding s[symmetric] by simp
  show ?thesis unfolding Let_def q[symmetric] by (rule t[unfolded Let_def]) (simp_all add: ap)
qed

theorem sliding_window_append_slot_witness:
  "paged_slot 4 (fst (sw_prep_kernel 4 6 (sw_nb (npow2_from 1) 6 4) 9 [7, 2, 5])) 5 = 21"
proof -
  have c: "sw_checks (npow2_from 1) 8 4 6 = Ok ()" by code_simp
  have "paged_slot 4 [7, 2, 5] 9 = 21" "snd (sw_prep_kernel 4 6 (sw_nb (npow2_from 1) 6 4) 9 [7, 2, 5]) = 5" by code_simp+
  then show ?thesis using sliding_window_append_slot[OF npow2_from_contract c, of 9 "[7, 2, 5]"] by (simp add: case_prod_unfold Let_def)
qed

end
