(* ===== verification/Gate.thy ===== *)
theory Gate
  imports Prelude "HOL-Library.Product_Lexorder"
begin

text \<open>
  \<^verbatim>\<open>disagmoe/models/gate.py\<close>: the router that replays recorded expert choices. A profile is the parsed Parquet
  table: its column names and its rows; parsing is outside. Loading sorts the rows by layer, request and token and
  keeps prefix sums of the tokens per request, so that a lookup is one index computation. The main result is that the
  index computation finds the recorded row. A weight is the fraction 1/k, kept as its two numbers.
\<close>

section \<open>Loading\<close>

record prow =
  pr_rid :: int
  pr_tok :: int
  pr_layer :: int
  pr_experts :: "int list"

record profile =
  pf_columns :: "string list"
  pf_rows :: "prow list"

record router =
  rt_num_experts :: int
  rt_top_k :: int
  rt_layer_id :: "int option"
  rt_num_profiled :: int
  rt_num_layers :: int
  rt_tokens_per_request :: "int list"
  rt_prefix_sum :: "int list"
  rt_total :: int
  rt_routing :: "int list list"
  rt_weight :: "int \<times> int"

definition startswith :: "string \<Rightarrow> string \<Rightarrow> bool" where
  "startswith c p = (take (length p) c = p)"

definition expert_columns :: "profile \<Rightarrow> string list" where
  "expert_columns pf = filter (\<lambda>c. startswith c ''expert_logical_k'') (pf_columns pf)"

definition check_columns :: "profile \<Rightarrow> int \<Rightarrow> unit res" where
  "check_columns pf top_k =
     (if \<not> list_all (\<lambda>c. c \<in> set (pf_columns pf)) [''rid'', ''token_index'', ''layer''] then Raise ValueError
      else if expert_columns pf = [] then Raise ValueError
      else if int (length (expert_columns pf)) \<noteq> top_k then Raise ValueError
      else Ok ())"

text \<open>How many profiled experts share a system expert.\<close>

definition num_unique_experts :: "profile \<Rightarrow> int" where
  "num_unique_experts pf = int (length (remdups (filter (\<lambda>e. e \<ge> 0) (concat (map pr_experts (pf_rows pf))))))"

definition project_group_size :: "int \<Rightarrow> int \<Rightarrow> int option res" where
  "project_group_size u n =
     (if u = n then Ok None
      else if u > n then
        (if n = 0 then Raise ZeroDivisionError
         else if u mod n = 0 then Ok (Some (u div n)) else Raise ValueError)
      else Raise ValueError)"

definition project_row :: "int option \<Rightarrow> int list \<Rightarrow> int list" where
  "project_row g es = (case g of None \<Rightarrow> es | Some k \<Rightarrow> map (\<lambda>e. if e \<ge> 0 then e div k else e) es)"

definition layer_rows :: "int option \<Rightarrow> prow list \<Rightarrow> prow list" where
  "layer_rows lid rows = (case lid of None \<Rightarrow> rows | Some l \<Rightarrow> filter (\<lambda>r. pr_layer r = l) rows)"

definition rids_of :: "prow list \<Rightarrow> int list" where
  "rids_of rows = sort (remdups (map pr_rid rows))"

definition token_count :: "prow list \<Rightarrow> int \<Rightarrow> int" where
  "token_count rows rid = int (length (remdups (map pr_tok (filter (\<lambda>r. pr_rid r = rid) rows))))"

definition prow_key :: "prow \<Rightarrow> int \<times> int \<times> int" where
  "prow_key r = (pr_layer r, pr_rid r, pr_tok r)"

fun prefix_sums :: "int \<Rightarrow> int list \<Rightarrow> int list" where
  "prefix_sums a [] = [a]"
| "prefix_sums a (x # xs) = a # prefix_sums (a + x) xs"

definition load_profile :: "profile \<Rightarrow> int \<Rightarrow> int \<Rightarrow> int option \<Rightarrow> router res" where
  "load_profile pf num_experts top_k lid =
     rbind (check_columns pf top_k) (\<lambda>_.
     rbind (project_group_size (num_unique_experts pf) num_experts) (\<lambda>g.
     (let rows = layer_rows lid (pf_rows pf); n = int (length (rids_of rows)) in
      rbind (case lid of Some _ \<Rightarrow> Ok 1
             | None \<Rightarrow> if rows = [] then Raise ValueError else Ok (Max (set (map pr_layer rows)) + 1)) (\<lambda>num_layers.
      rbind (foldM (\<lambda>ts rid. py_set ts rid (token_count rows rid)) (replicate (nat n) 0) (rids_of rows)) (\<lambda>tokens.
      (let sums = prefix_sums 0 tokens in
       Ok \<lparr> rt_num_experts = num_experts, rt_top_k = top_k, rt_layer_id = lid, rt_num_profiled = n,
            rt_num_layers = num_layers, rt_tokens_per_request = tokens, rt_prefix_sum = sums, rt_total = last sums,
            rt_routing = map (\<lambda>r. project_row g (pr_experts r)) (sort_key prow_key rows),
            rt_weight = (1, if top_k > 1 then top_k else 1) \<rparr>))))))"

definition router_init :: "('b list \<Rightarrow> profile option) \<Rightarrow> 'b list \<Rightarrow> int \<Rightarrow> int \<Rightarrow> int option \<Rightarrow> router res" where
  "router_init parse bytes num_experts top_k lid =
     (if bytes = [] then Raise ValueError
      else case parse bytes of None \<Rightarrow> Raise RuntimeError | Some pf \<Rightarrow> load_profile pf num_experts top_k lid)"

section \<open>Routing\<close>

definition py_mod :: "int \<Rightarrow> int \<Rightarrow> int res" where
  "py_mod a b = (if b = 0 then Raise ZeroDivisionError else Ok (a mod b))"

definition route_one :: "router \<Rightarrow> int \<Rightarrow> int \<times> int \<Rightarrow> int list res" where
  "route_one R layer_id rt =
     (let (rid, tok) = rt in
      rbind (py_mod rid (rt_num_profiled R)) (\<lambda>mrid.
      rbind (py_get (rt_tokens_per_request R) mrid) (\<lambda>cnt.
      rbind (py_mod tok cnt) (\<lambda>mtok.
      rbind (py_get (rt_prefix_sum R) mrid) (\<lambda>base.
      py_get (rt_routing R) (case rt_layer_id R of Some _ \<Rightarrow> base + mtok | None \<Rightarrow> layer_id * rt_total R + base + mtok))))))"

definition route :: "router \<Rightarrow> int list \<Rightarrow> int list \<Rightarrow> int \<Rightarrow> int \<Rightarrow> ((int \<times> int) list list \<times> int list list) res" where
  "route R request_ids token_indices layer_id top_k =
     (if top_k \<noteq> rt_top_k R then Raise ValueError
      else rbind (mapM (route_one R layer_id) (zip request_ids token_indices)) (\<lambda>ids.
           Ok (map (\<lambda>_. replicate (nat top_k) (rt_weight R)) ids, ids)))"

section \<open>Complete profiles\<close>

text \<open>
  A profile is complete for \<open>L\<close> layers when every request 0 to n-1 has the tokens 0 to c(rid)-1 at every layer, each once.
\<close>

definition complete_keys :: "int list \<Rightarrow> nat \<Rightarrow> (nat \<Rightarrow> nat) \<Rightarrow> (int \<times> int \<times> int) list" where
  "complete_keys layers n c = concat (map (\<lambda>l. concat (map (\<lambda>r. map (\<lambda>t. (l, int r, int t)) [0..<c r]) [0..<n])) layers)"

definition complete_profile :: "int list \<Rightarrow> nat \<Rightarrow> (nat \<Rightarrow> nat) \<Rightarrow> prow list \<Rightarrow> bool" where
  "complete_profile layers n c rows \<longleftrightarrow> mset (map prow_key rows) = mset (complete_keys layers n c) \<and> (\<forall>r < n. 0 < c r)"

definition key_block :: "nat \<Rightarrow> (nat \<Rightarrow> nat) \<Rightarrow> int \<Rightarrow> (int \<times> int \<times> int) list" where
  "key_block n c l = concat (map (\<lambda>r. map (\<lambda>t. (l, int r, int t)) [0..<c r]) [0..<n])"

lemma complete_keys_blocks: "complete_keys layers n c = concat (map (key_block n c) layers)"
  by (simp add: complete_keys_def key_block_def[abs_def])

lemma key_block_set: "set (key_block n c l) = {(l, int r, int t) | r t. r < n \<and> t < c r}"
  by (auto simp: key_block_def)

lemma key_block_Suc: "key_block (Suc n) c l = key_block n c l @ map (\<lambda>t. (l, int n, int t)) [0..<c n]"
  by (simp add: key_block_def)

lemma key_block_sorted: "sorted_wrt (<) (key_block n c l)"
proof (induction n)
  case (Suc n)
  have "sorted_wrt (<) (map (\<lambda>t. (l, int n, int t)) [0..<c n])" by (simp add: sorted_wrt_map)
  then show ?case using Suc by (auto simp: key_block_Suc sorted_wrt_append key_block_set)
qed (simp add: key_block_def)

lemma key_block_length: "length (key_block n c l) = sum_list (map c [0..<n])"
  by (induction n) (simp_all add: key_block_Suc, simp add: key_block_def)

lemma key_block_nth:
  "r < n \<Longrightarrow> t < c r \<Longrightarrow> key_block n c l ! (sum_list (map c [0..<r]) + t) = (l, int r, int t)"
proof (induction n)
  case (Suc n)
  show ?case
  proof (cases "r < n")
    case True
    have "sum_list (map c [0..<r]) + c r \<le> sum_list (map c [0..<n])"
    proof -
      have "[0..<n] = [0..<r] @ [r] @ [Suc r..<n]" using True upt_add_eq_append[of 0 r "n - r"] by (simp add: upt_conv_Cons)
      then show ?thesis by simp
    qed
    then show ?thesis using Suc True by (simp add: key_block_Suc nth_append key_block_length)
  next
    case False
    then have "r = n" using Suc.prems by simp
    then show ?thesis using Suc.prems by (simp add: key_block_Suc nth_append key_block_length)
  qed
qed simp

lemma complete_keys_sorted: "sorted_wrt (<) layers \<Longrightarrow> sorted_wrt (<) (complete_keys layers n c)"
proof (induction layers)
  case (Cons l ls)
  have "x < y" if "x \<in> set (key_block n c l)" "y \<in> set (complete_keys ls n c)" for x y
    using that Cons.prems by (auto simp: complete_keys_blocks key_block_set)
  then show ?case using Cons key_block_sorted[of n c l] by (simp add: complete_keys_blocks sorted_wrt_append)
qed (simp add: complete_keys_def)

lemma concat_nth_uniform:
  "\<forall>xs \<in> set xss. length xs = k \<Longrightarrow> i < length xss \<Longrightarrow> j < k \<Longrightarrow> concat xss ! (i * k + j) = xss ! i ! j"
proof (induction xss arbitrary: i)
  case (Cons xs xss)
  then show ?case by (cases i) (auto simp: nth_append add.assoc)
qed simp

lemma complete_keys_nth:
  assumes "i < length layers" and "r < n" and "t < c r"
  shows "complete_keys layers n c ! (i * sum_list (map c [0..<n]) + (sum_list (map c [0..<r]) + t)) = (layers ! i, int r, int t)"
proof -
  have "sum_list (map c [0..<r]) + t < sum_list (map c [0..<n])"
  proof -
    have "[0..<n] = [0..<r] @ [r] @ [Suc r..<n]" using assms(2) upt_add_eq_append[of 0 r "n - r"] by (simp add: upt_conv_Cons)
    then show ?thesis using assms(3) by simp
  qed
  then show ?thesis
    unfolding complete_keys_blocks
    using concat_nth_uniform[of "map (key_block n c) layers" "sum_list (map c [0..<n])" i] assms key_block_nth[of r n t c, OF assms(2,3)]
    by (simp add: key_block_length)
qed

lemma complete_keys_length: "length (complete_keys layers n c) = length layers * sum_list (map c [0..<n])"
  unfolding complete_keys_blocks by (induction layers) (simp_all add: key_block_length)

lemma prefix_sums_nth:
  "i \<le> length xs \<Longrightarrow> prefix_sums a xs ! i = a + sum_list (take i xs)"
proof (induction xs arbitrary: a i)
  case (Cons x xs)
  then show ?case by (cases i) auto
qed simp

lemma prefix_sums_length [simp]: "length (prefix_sums a xs) = Suc (length xs)"
  by (induction xs arbitrary: a) auto

lemma prefix_sums_last: "last (prefix_sums a xs) = a + sum_list xs"
proof -
  have "prefix_sums a xs \<noteq> []" by (cases xs) auto
  then show ?thesis using prefix_sums_nth[of "length xs" xs a] by (simp add: last_conv_nth)
qed

section \<open>What loading leaves\<close>

lemma set_keys_imp:
  assumes "complete_profile layers n c rows"
  shows "prow_key ` set rows = {(l, int r, int t) | l r t. l \<in> set layers \<and> r < n \<and> t < c r}"
proof -
  have "set (map prow_key rows) = set (complete_keys layers n c)"
    using assms by (metis complete_profile_def set_mset_mset)
  also have "\<dots> = {(l, int r, int t) | l r t. l \<in> set layers \<and> r < n \<and> t < c r}"
    by (auto simp: complete_keys_blocks key_block_set)
  finally show ?thesis by simp
qed

lemma row_keys:
  assumes "complete_profile layers n c rows" and "layers \<noteq> []"
  shows "pr_rid ` set rows = int ` {0..<n}" "r < n \<Longrightarrow> pr_tok ` {x \<in> set rows. pr_rid x = int r} = int ` {0..<c r}"
proof -
  note k = set_keys_imp[OF assms(1)]
  obtain l where l: "l \<in> set layers" using assms(2) by (cases layers) auto
  have ex: "\<exists>x \<in> set rows. prow_key x = (l, int r, int t)" if "r < n" "t < c r" for r t
  proof -
    have "(l, int r, int t) \<in> prow_key ` set rows" unfolding k using that l by blast
    then show ?thesis by (metis imageE)
  qed
  have inn: "\<exists>r t. r < n \<and> t < c r \<and> pr_rid x = int r \<and> pr_tok x = int t" if "x \<in> set rows" for x
  proof -
    have "prow_key x \<in> {(l, int r, int t) | l r t. l \<in> set layers \<and> r < n \<and> t < c r}" using that k by blast
    then show ?thesis by (auto simp: prow_key_def)
  qed
  show "pr_rid ` set rows = int ` {0..<n}"
  proof
    show "pr_rid ` set rows \<subseteq> int ` {0..<n}" using inn by fastforce
    show "int ` {0..<n} \<subseteq> pr_rid ` set rows"
    proof
      fix x assume "x \<in> int ` {0..<n}"
      then obtain r where r: "x = int r" "r < n" by auto
      then obtain y where "y \<in> set rows" "prow_key y = (l, int r, int 0)" using ex[of r 0] assms(1) by (auto simp: complete_profile_def)
      then show "x \<in> pr_rid ` set rows" using r by (auto simp: prow_key_def image_iff intro!: bexI[of _ y])
    qed
  qed
  show "pr_tok ` {x \<in> set rows. pr_rid x = int r} = int ` {0..<c r}" if r: "r < n"
  proof
    show "pr_tok ` {x \<in> set rows. pr_rid x = int r} \<subseteq> int ` {0..<c r}" using inn by fastforce
    show "int ` {0..<c r} \<subseteq> pr_tok ` {x \<in> set rows. pr_rid x = int r}"
    proof
      fix x assume "x \<in> int ` {0..<c r}"
      then obtain t where t: "x = int t" "t < c r" by auto
      then obtain y where "y \<in> set rows" "prow_key y = (l, int r, int t)" using ex[of r t] r by auto
      then show "x \<in> pr_tok ` {x \<in> set rows. pr_rid x = int r}" using t by (auto simp: prow_key_def image_iff intro!: exI[of _ y])
    qed
  qed
qed

lemma rids_complete:
  assumes "complete_profile layers n c rows" and "layers \<noteq> []"
  shows "rids_of rows = map int [0..<n]"
proof (rule sorted_distinct_set_unique)
  show "set (rids_of rows) = set (map int [0..<n])" using row_keys(1)[OF assms] by (simp add: rids_of_def)
qed (auto simp: rids_of_def distinct_map sorted_map)

lemma token_count_complete:
  assumes "complete_profile layers n c rows" and "layers \<noteq> []" and "r < n"
  shows "token_count rows (int r) = int (c r)"
proof -
  have "set (map pr_tok (filter (\<lambda>x. pr_rid x = int r) rows)) = int ` {0..<c r}"
    using row_keys(2)[OF assms(1,2,3)] by auto
  then have "card (set (map pr_tok (filter (\<lambda>x. pr_rid x = int r) rows))) = c r" by (simp add: card_image)
  then show ?thesis by (simp add: token_count_def length_remdups_card_conv)
qed

lemma set_all:
  assumes "k \<le> n" and "length ts = n"
  shows "foldM (\<lambda>ts rid. py_set ts rid (f rid)) ts (map int [0..<k]) = Ok (map (\<lambda>i. f (int i)) [0..<k] @ drop k ts)"
  using assms
proof (induction k)
  case (Suc k)
  have "py_set (map (\<lambda>i. f (int i)) [0..<k] @ drop k ts) (int k) (f (int k))
      = Ok ((map (\<lambda>i. f (int i)) [0..<k] @ drop k ts)[k := f (int k)])"
    using Suc.prems by (simp add: py_set_def)
  moreover have "(map (\<lambda>i. f (int i)) [0..<k] @ drop k ts)[k := f (int k)] = map (\<lambda>i. f (int i)) [0..<Suc k] @ drop (Suc k) ts"
  proof -
    have "drop k ts = ts ! k # drop (Suc k) ts" using Suc.prems by (simp add: Cons_nth_drop_Suc)
    then show ?thesis by (simp add: list_update_append)
  qed
  ultimately show ?case using Suc by simp
qed simp

lemma layer_filter_complete:
  assumes "complete_profile layers n c rows" and "l \<in> set layers" and "distinct layers"
  shows "complete_profile [l] n c (filter (\<lambda>r. pr_layer r = l) rows)"
proof -
  have "filter_mset (\<lambda>k. fst k = l) (mset (complete_keys layers n c)) = mset (key_block n c l)"
    using assms(2,3)
  proof (induction layers)
    case (Cons x xs)
    have same: "filter (\<lambda>k. fst k = l) (key_block n c l) = key_block n c l"
      by (auto simp: filter_id_conv key_block_set)
    have other: "filter (\<lambda>k. fst k = l) (key_block n c x) = []" if "x \<noteq> l"
      using that by (auto simp: filter_empty_conv key_block_set)
    have none: "filter (\<lambda>k. fst k = l) (complete_keys xs n c) = []" if "l \<notin> set xs"
      using that by (auto simp: filter_empty_conv complete_keys_blocks key_block_set)
    show ?case
    proof (cases "x = l")
      case True
      then show ?thesis using same none Cons.prems(2) by (simp add: complete_keys_blocks flip: mset_filter)
    next
      case False
      then show ?thesis using other Cons by (simp add: complete_keys_blocks flip: mset_filter)
    qed
  qed simp
  moreover have "mset (map prow_key (filter (\<lambda>r. pr_layer r = l) rows)) = filter_mset (\<lambda>k. fst k = l) (mset (map prow_key rows))"
    by (induction rows) (auto simp: prow_key_def)
  ultimately show ?thesis using assms(1) by (simp add: complete_profile_def complete_keys_blocks)
qed

lemma load_complete:
  assumes "load_profile pf ne k lid = Ok R" and "complete_profile layers n c (layer_rows lid (pf_rows pf))" and "layers \<noteq> []"
  shows "\<exists>g. project_group_size (num_unique_experts pf) ne = Ok g \<and> rt_layer_id R = lid \<and> rt_num_profiled R = int n
    \<and> rt_tokens_per_request R = map (\<lambda>i. int (c i)) [0..<n] \<and> rt_prefix_sum R = prefix_sums 0 (map (\<lambda>i. int (c i)) [0..<n])
    \<and> rt_total R = int (sum_list (map c [0..<n]))
    \<and> rt_routing R = map (\<lambda>r. project_row g (pr_experts r)) (sort_key prow_key (layer_rows lid (pf_rows pf)))"
proof -
  let ?rows = "layer_rows lid (pf_rows pf)"
  obtain g tokens where g: "project_group_size (num_unique_experts pf) ne = Ok g"
    and t: "foldM (\<lambda>ts rid. py_set ts rid (token_count ?rows rid)) (replicate (length (rids_of ?rows)) 0) (rids_of ?rows) = Ok tokens"
    and R: "rt_layer_id R = lid" "rt_num_profiled R = int (length (rids_of ?rows))" "rt_tokens_per_request R = tokens"
      "rt_prefix_sum R = prefix_sums 0 tokens" "rt_total R = last (prefix_sums 0 tokens)"
      "rt_routing R = map (\<lambda>r. project_row g (pr_experts r)) (sort_key prow_key ?rows)"
    using assms(1) by (auto simp: load_profile_def Let_def rbind_eq_Ok)
  have r: "rids_of ?rows = map int [0..<n]" by (rule rids_complete[OF assms(2,3)])
  have "tokens = map (\<lambda>i. token_count ?rows (int i)) [0..<n]"
    using t set_all[of n n "replicate n 0" "token_count ?rows"] by (simp add: r)
  then have tok: "tokens = map (\<lambda>i. int (c i)) [0..<n]" using token_count_complete[OF assms(2,3)] by simp
  have "sum_list (map (\<lambda>i. int (c i)) xs) = int (sum_list (map c xs))" for xs by (induction xs) auto
  then show ?thesis using g R r tok by (simp add: prefix_sums_last)
qed

text \<open>The sorted rows of a complete profile, by their keys.\<close>

lemma sorted_rows_keys:
  assumes "complete_profile layers n c rows" and "sorted_wrt (<) layers"
  shows "map prow_key (sort_key prow_key rows) = complete_keys layers n c" and "inj_on prow_key (set rows)"
proof -
  have s: "sorted_wrt (<) (complete_keys layers n c)" by (rule complete_keys_sorted[OF assms(2)])
  have m: "mset (map prow_key rows) = mset (complete_keys layers n c)" using assms(1) by (simp add: complete_profile_def)
  have "sort (map prow_key rows) = complete_keys layers n c"
    by (rule properties_for_sort) (use m s in \<open>auto simp: strict_sorted_iff\<close>)
  moreover have "map prow_key (sort_key prow_key rows) = sort (map prow_key rows)"
    by (rule properties_for_sort[symmetric]) simp_all
  ultimately show "map prow_key (sort_key prow_key rows) = complete_keys layers n c" by simp
  have "distinct (map prow_key rows)" using m s by (metis mset_eq_imp_distinct_iff strict_sorted_iff)
  then show "inj_on prow_key (set rows)" by (simp add: distinct_map)
qed

lemma sorted_row_at:
  assumes "complete_profile layers n c rows" and "sorted_wrt (<) layers" and "i < length layers" and "r < n" and "t < c r"
    and "row \<in> set rows" and "prow_key row = (layers ! i, int r, int t)"
  shows "i * sum_list (map c [0..<n]) + (sum_list (map c [0..<r]) + t) < length rows"
    and "sort_key prow_key rows ! (i * sum_list (map c [0..<n]) + (sum_list (map c [0..<r]) + t)) = row"
proof -
  let ?j = "i * sum_list (map c [0..<n]) + (sum_list (map c [0..<r]) + t)"
  note k = sorted_rows_keys[OF assms(1,2)]
  have len: "length rows = length layers * sum_list (map c [0..<n])"
    using arg_cong[OF k(1), of length] by (simp add: complete_keys_length)
  have b: "sum_list (map c [0..<r]) + t < sum_list (map c [0..<n])"
  proof -
    have "[0..<n] = [0..<r] @ [r] @ [Suc r..<n]" using assms(4) upt_add_eq_append[of 0 r "n - r"] by (simp add: upt_conv_Cons)
    then show ?thesis using assms(5) by simp
  qed
  have "?j < Suc i * sum_list (map c [0..<n])" using b by simp
  also have "\<dots> \<le> length layers * sum_list (map c [0..<n])" using assms(3) by (intro mult_le_mono1) simp
  finally show j: "?j < length rows" using len by simp
  have "prow_key (sort_key prow_key rows ! ?j) = map prow_key (sort_key prow_key rows) ! ?j" using j by simp
  also have "\<dots> = prow_key row" unfolding k(1) using complete_keys_nth[OF assms(3,4), of t c] assms(5,7) by simp
  finally have "prow_key (sort_key prow_key rows ! ?j) = prow_key row" .
  moreover have "sort_key prow_key rows ! ?j \<in> set rows" using j by (metis length_sort nth_mem set_sort)
  ultimately show "sort_key prow_key rows ! ?j = row" using k(2) assms(6) by (auto dest: inj_onD)
qed

lemma route_one_at:
  assumes "load_profile pf ne k lid = Ok R" and "complete_profile layers n c (layer_rows lid (pf_rows pf))"
    and "sorted_wrt (<) layers" and "i < length layers" and "0 < n"
    and "case lid of Some _ \<Rightarrow> i = 0 | None \<Rightarrow> layer = int i"
    and "row \<in> set (layer_rows lid (pf_rows pf))" and "r = nat (rid mod int n)"
    and "prow_key row = (layers ! i, int r, tok mod int (c r))"
    and "project_group_size (num_unique_experts pf) ne = Ok g"
  shows "route_one R layer (rid, tok) = Ok (project_row g (pr_experts row))"
proof -
  let ?rows = "layer_rows lid (pf_rows pf)"
  have ne: "layers \<noteq> []" using assms(4) by auto
  have R: "rt_layer_id R = lid" "rt_num_profiled R = int n" "rt_tokens_per_request R = map (\<lambda>i. int (c i)) [0..<n]"
      "rt_prefix_sum R = prefix_sums 0 (map (\<lambda>i. int (c i)) [0..<n])" "rt_total R = int (sum_list (map c [0..<n]))"
      "rt_routing R = map (\<lambda>r. project_row g (pr_experts r)) (sort_key prow_key ?rows)"
    using load_complete[OF assms(1,2) ne] assms(10) by auto
  have r: "r < n" "int r = rid mod int n" using assms(5,8) by (auto simp: nat_less_iff)
  have cr: "0 < c r" using assms(2) r(1) by (simp add: complete_profile_def)
  define t where "t = nat (tok mod int (c r))"
  have t: "t < c r" "int t = tok mod int (c r)" using cr by (auto simp: t_def nat_less_iff)
  define j where "j = i * sum_list (map c [0..<n]) + (sum_list (map c [0..<r]) + t)"
  have key: "prow_key row = (layers ! i, int r, int t)" using assms(9) t by simp
  note at = sorted_row_at[OF assms(2,3,4) r(1) t(1) assms(7) key, folded j_def]
  have sums: "sum_list (take r (map (\<lambda>i. int (c i)) [0..<n])) = int (sum_list (map c [0..<r]))"
  proof -
    have "take r [0..<n] = [0..<r]" using r(1) by simp
    moreover have "sum_list (map (\<lambda>i. int (c i)) xs) = int (sum_list (map c xs))" for xs by (induction xs) auto
    ultimately show ?thesis by (simp add: take_map)
  qed
  have base: "py_get (rt_prefix_sum R) (int r) = Ok (int (sum_list (map c [0..<r])))"
    using py_get_nat[of r "rt_prefix_sum R"] r(1) sums by (simp add: R prefix_sums_nth)
  have cnt: "py_get (rt_tokens_per_request R) (int r) = Ok (int (c r))"
    using py_get_nat[of r "rt_tokens_per_request R"] r(1) by (simp add: R)
  have idx: "(case lid of Some _ \<Rightarrow> int (sum_list (map c [0..<r])) + int t
      | None \<Rightarrow> layer * rt_total R + int (sum_list (map c [0..<r])) + int t) = int j"
    using assms(6) by (auto simp: R(5) j_def split: option.splits)
  have "py_get (rt_routing R) (int j) = Ok (project_row g (pr_experts row))"
    using py_get_nat[of j "rt_routing R"] at by (simp add: R(6))
  then show ?thesis
    unfolding route_one_def Let_def py_mod_def prod.case R(1,2) r(2)[symmetric]
    using assms(5) cr base cnt idx by (simp add: t(2)[symmetric])
qed

text \<open>
  C30: On a complete profile the router returns, for every request and token, the experts recorded for the request
  modulo the number of profiled requests and the token modulo that request's number of tokens, at the asked layer,
  grouped when the profile has more experts than the system: the flattened index never leaves the table and never
  lands on another row.
\<close>

theorem route_returns_recorded_row:
  assumes "load_profile pf ne k lid = Ok R" and "complete_profile (map int [0..<L]) n c (pf_rows pf)" and "0 < n"
    and "lid = None \<or> lid = Some layer" and "row \<in> set (pf_rows pf)" and "pr_layer row = layer"
    and "pr_rid row = rid mod int n" and "pr_tok row = tok mod int (c (nat (rid mod int n)))"
    and "project_group_size (num_unique_experts pf) ne = Ok g"
  shows "route_one R layer (rid, tok) = Ok (project_row g (pr_experts row))"
proof -
  let ?ls = "map int [0..<L]" and ?r = "nat (rid mod int n)"
  have "prow_key row \<in> prow_key ` set (pf_rows pf)" using assms(5) by simp
  then have l: "layer \<in> set ?ls" unfolding set_keys_imp[OF assms(2)] using assms(6) by (auto simp: prow_key_def)
  then have i: "nat layer < length ?ls" "?ls ! nat layer = layer" by auto
  have srt: "sorted_wrt (<) ?ls" by (simp add: sorted_wrt_map)
  have key: "prow_key row = (layer, int ?r, tok mod int (c ?r))" using assms(3,6,7,8) by (simp add: prow_key_def)
  show ?thesis
  proof (cases lid)
    case None
    have "complete_profile ?ls n c (layer_rows lid (pf_rows pf))" "row \<in> set (layer_rows lid (pf_rows pf))"
      using assms(2,5) None by (simp_all add: layer_rows_def)
    moreover have "case lid of Some _ \<Rightarrow> nat layer = 0 | None \<Rightarrow> layer = int (nat layer)" using l None by auto
    ultimately show ?thesis
      using route_one_at[OF assms(1) _ srt i(1) assms(3) _ _ refl _ assms(9)] key i(2) by metis
  next
    case (Some l')
    then have lid: "lid = Some layer" using assms(4) by simp
    have "complete_profile [layer] n c (filter (\<lambda>r. pr_layer r = layer) (pf_rows pf))"
      by (rule layer_filter_complete[OF assms(2) l]) (simp add: distinct_map)
    then have "complete_profile [layer] n c (layer_rows lid (pf_rows pf))" "row \<in> set (layer_rows lid (pf_rows pf))"
      using assms(5,6) by (simp_all add: layer_rows_def lid)
    moreover have "case lid of Some _ \<Rightarrow> 0 = (0::nat) | None \<Rightarrow> layer = int 0" using lid by simp
    moreover have "prow_key row = ([layer] ! 0, int ?r, tok mod int (c ?r))" using key by simp
    ultimately show ?thesis
      using route_one_at[OF assms(1) _ _ _ assms(3) _ _ refl _ assms(9), of "[layer]" c 0] by simp
  qed
qed

definition demo_profile :: profile where
  "demo_profile = \<lparr> pf_columns = [''rid'', ''layer'', ''token_index'', ''expert_logical_k0''],
     pf_rows = map (\<lambda>(r, t, l, e). \<lparr> pr_rid = r, pr_tok = t, pr_layer = l, pr_experts = [e] \<rparr>)
       [(1, 0, 1, 3), (0, 1, 0, 1), (0, 0, 0, 0), (1, 0, 0, 2), (0, 0, 1, 2), (0, 1, 1, 0)] \<rparr>"

theorem route_returns_recorded_row_witness:
  "route_one (projr (load_profile demo_profile 2 1 None)) 1 (4, 5) = Ok [0]"
proof -
  let ?c = "\<lambda>r::nat. if r = 0 then 2 else 1 :: nat"
  let ?R = "projr (load_profile demo_profile 2 1 None)"
  let ?row = "\<lparr> pr_rid = 0, pr_tok = 1, pr_layer = 1, pr_experts = [0] \<rparr>"
  have "\<not> isl (load_profile demo_profile 2 1 None)" by code_simp
  then have R: "load_profile demo_profile 2 1 None = Ok ?R" by (rule Ok_projr)
  have "sort (map prow_key (pf_rows demo_profile)) = sort (complete_keys (map int [0..<2]) 2 ?c)" by code_simp
  then have "mset (map prow_key (pf_rows demo_profile)) = mset (complete_keys (map int [0..<2]) 2 ?c)" by (metis mset_sort)
  then have c: "complete_profile (map int [0..<2]) 2 ?c (pf_rows demo_profile)" by (simp add: complete_profile_def)
  have row: "?row \<in> set (pf_rows demo_profile)" by code_simp
  have g: "project_group_size (num_unique_experts demo_profile) 2 = Ok (Some 2)" by code_simp
  have "project_row (Some 2) (pr_experts ?row) = [0]" by code_simp
  then show ?thesis using route_returns_recorded_row[OF R c _ _ row, of 1 4 5 "Some 2"] g by simp
qed

end
