(* ===== verification/Metadata.thy ===== *)
theory Metadata
  imports Cpp_Block_Manager
begin

text \<open>
  \<^verbatim>\<open>csrc/include/metadata.hpp\<close> and \<^verbatim>\<open>csrc/include/vector_utils.hpp\<close>: the metadata that travels with every batch of
  tokens, and the sorting, merging and splitting between attention and expert workers. A C++ vector access out of
  range is undefined behaviour; here it is an \<open>IndexError\<close>, so that a theorem with an \<open>Ok\<close> result also says that no access is out of range.
  \<open>shape\<close> is kept as its two entries. \<open>std::sort\<close> is a parameter with the contract of the standard, since the order of
  equivalent elements is unspecified. The weights are any type with a zero.
  The results: \<open>sort_by_expert\<close> is a stable counting sort that keeps every token's fields together,
  \<open>merge_by_expert\<close> is that sort of the concatenated batches, and the attention operations put prefill tokens first.
\<close>

section \<open>Vectors\<close>

definition vec_set :: "'a list \<Rightarrow> int \<Rightarrow> 'a \<Rightarrow> 'a list res" where
  "vec_set xs i x = (if 0 \<le> i \<and> i < int (length xs) then Ok (xs[nat i := x]) else Raise IndexError)"

definition slice_vector :: "'a list \<Rightarrow> int \<Rightarrow> int \<Rightarrow> 'a list res" where
  "slice_vector a l r =
     (if a = [] \<or> l = r then Ok []
      else rbind (c_assert (l \<le> r \<and> 0 \<le> l \<and> r \<le> int (length a))) (\<lambda>_. Ok (take (nat (r - l)) (drop (nat l) a))))"

definition repeat_vector :: "'a list \<Rightarrow> int \<Rightarrow> 'a list" where
  "repeat_vector a k = concat (map (replicate (nat k)) a)"

definition permute_vector :: "'a::zero list \<Rightarrow> int list \<Rightarrow> 'a list res" where
  "permute_vector data positions =
     (if data = [] then Ok []
      else foldM (\<lambda>result i. rbind (vec_get positions (int i)) (\<lambda>p. rbind (vec_get data (int i)) (\<lambda>x. vec_set result p x)))
             (replicate (length data) 0) [0..<length positions])"

definition index_select_vector :: "'a list \<Rightarrow> int list \<Rightarrow> 'a list res" where
  "index_select_vector data indices = (if data = [] then Ok [] else mapM (vec_get data) indices)"

text \<open>The range of an iterator pair must lie inside the vector.\<close>

fun split_from :: "'a list \<Rightarrow> int \<Rightarrow> int list \<Rightarrow> 'a list list res" where
  "split_from vec base [] = Ok []"
| "split_from vec base (s # sizes) =
     (if 0 \<le> s \<and> base + s \<le> int (length vec)
      then rbind (split_from vec (base + s) sizes) (\<lambda>rest. Ok (take (nat s) (drop (nat base) vec) # rest))
      else Raise IndexError)"

definition split_vector_by_size :: "'a list \<Rightarrow> int list \<Rightarrow> 'a list list res" where
  "split_vector_by_size vec sizes = (if vec = [] then Ok (replicate (length sizes) []) else split_from vec 0 sizes)"

section \<open>BatchMetadata\<close>

datatype batch_tag = ATTENTION | EXPERT | TOKENIZER

record 'w metadata =
  md_tag :: batch_tag
  md_rows :: int
  md_dim :: int
  md_dtype :: string
  md_layer :: int
  md_reqs :: "int list"
  md_exps :: "int list"
  md_weights :: "'w list"
  md_ranks :: "int list"
  md_prefills :: "int list"
  md_prefill_seqs :: "int option"
  md_prefill_tokens :: "int option"
  md_decode_tokens :: "int option"

definition attention_batch_safe_check :: "'w metadata \<Rightarrow> bool" where
  "attention_batch_safe_check m \<longleftrightarrow>
     md_prefill_tokens m \<noteq> None \<and> md_prefill_seqs m \<noteq> None \<and> md_decode_tokens m \<noteq> None \<and> md_prefill_tokens m = md_prefill_seqs m"

definition num_element :: "'w metadata \<Rightarrow> int" where
  "num_element m = foldl (*) 1 [md_rows m, md_dim m]"

text \<open>\<open>value()\<close> of an empty optional throws.\<close>

definition opt_value :: "'a option \<Rightarrow> 'a res" where
  "opt_value x = (case x of None \<Rightarrow> Raise RuntimeError | Some v \<Rightarrow> Ok v)"

definition prefill_data_size :: "'w metadata \<Rightarrow> int res" where
  "prefill_data_size m = rbind (opt_value (md_prefill_tokens m)) (\<lambda>n. Ok (n * md_dim m * 2))"

definition decode_data_size :: "'w metadata \<Rightarrow> int res" where
  "decode_data_size m = rbind (opt_value (md_decode_tokens m)) (\<lambda>n. Ok (n * md_dim m * 2))"

definition step_layer :: "'w metadata \<Rightarrow> 'w metadata" where
  "step_layer m = m\<lparr>md_layer := md_layer m + 1\<rparr>"

definition set_finish_signal :: "'w metadata \<Rightarrow> int list \<Rightarrow> 'w metadata res" where
  "set_finish_signal m continue_ids =
     rbind (foldM (\<lambda>ls x. vec_set ls x (- 1)) (map (\<lambda>_. 0) (md_prefills m)) continue_ids) (\<lambda>ls. Ok (m\<lparr>md_prefills := ls\<rparr>))"

definition get_expert_batch_sizes :: "'w metadata \<Rightarrow> int \<Rightarrow> int list res" where
  "get_expert_batch_sizes m n_expert =
     rbind (c_assert (n_expert > 0)) (\<lambda>_.
     foldM (\<lambda>b eid. rbind (vec_get b eid) (\<lambda>c. vec_set b eid (c + 1))) (replicate (nat n_expert) 0) (md_exps m))"

text \<open>The stack array of the CUDA variant has \<open>MAX_N_EXPERTS\<close> entries.\<close>

definition get_expert_batch_sizes_cuda :: "nat \<Rightarrow> 'w metadata \<Rightarrow> int \<Rightarrow> int list \<Rightarrow> int list res" where
  "get_expert_batch_sizes_cuda max_n_experts m n_expert local_to_global =
     rbind (c_assert (n_expert > 0)) (\<lambda>_.
     rbind (get_expert_batch_sizes m n_expert) (\<lambda>sizes.
     rbind (foldM (\<lambda>b i. rbind (vec_get local_to_global (int i)) (\<lambda>g.
                         rbind (c_assert (0 \<le> g \<and> g < n_expert)) (\<lambda>_.
                         rbind (vec_get sizes g) (\<lambda>c. vec_set b (int i) c))))
              (replicate max_n_experts 0) [0..<length local_to_global]) (\<lambda>b.
     Ok (take (length local_to_global) b))))"

definition get_token_expert_indices :: "'w metadata \<Rightarrow> int list \<Rightarrow> int list res" where
  "get_token_expert_indices m global_to_local =
     mapM (\<lambda>i. rbind (vec_get (md_exps m) i) (\<lambda>e. rbind (vec_get global_to_local e) (\<lambda>l.
               rbind (c_assert (l \<noteq> - 1)) (\<lambda>_. Ok l)))) [0..md_rows m - 1]"

definition get_finished_indices :: "'w metadata \<Rightarrow> nat list" where
  "get_finished_indices m = filter (\<lambda>i. md_prefills m ! i = 0) [0..<length (md_prefills m)]"

definition md_slice :: "'w metadata \<Rightarrow> int \<Rightarrow> int \<Rightarrow> 'w metadata res" where
  "md_slice m l r =
     (if r - l = md_rows m then Ok m
      else rbind (slice_vector (md_reqs m) l r) (\<lambda>reqs.
           rbind (slice_vector (md_exps m) l r) (\<lambda>exps.
           rbind (slice_vector (md_weights m) l r) (\<lambda>ws.
           rbind (slice_vector (md_ranks m) l r) (\<lambda>ranks.
           rbind (slice_vector (md_prefills m) l r) (\<lambda>pre.
           Ok (m\<lparr>md_rows := r - l, md_reqs := reqs, md_exps := exps, md_weights := ws, md_ranks := ranks, md_prefills := pre,
                 md_prefill_seqs := None, md_prefill_tokens := None, md_decode_tokens := None\<rparr>)))))))"

definition permute_token_infos :: "'w::zero metadata \<Rightarrow> int list \<Rightarrow> 'w metadata res" where
  "permute_token_infos m positions =
     (if positions = [] then Ok m
      else rbind (c_assert (md_rows m = int (length positions))) (\<lambda>_.
           rbind (permute_vector (md_reqs m) positions) (\<lambda>reqs.
           rbind (permute_vector (md_exps m) positions) (\<lambda>exps.
           rbind (permute_vector (md_ranks m) positions) (\<lambda>ranks.
           rbind (permute_vector (md_prefills m) positions) (\<lambda>pre.
           rbind (permute_vector (md_weights m) positions) (\<lambda>ws.
           Ok (m\<lparr>md_reqs := reqs, md_exps := exps, md_ranks := ranks, md_prefills := pre, md_weights := ws\<rparr>))))))))"

definition duplicate_topk :: "'w metadata \<Rightarrow> int \<Rightarrow> 'w metadata" where
  "duplicate_topk m topk =
     (if topk = 1 then m
      else m\<lparr>md_reqs := repeat_vector (md_reqs m) topk, md_prefills := repeat_vector (md_prefills m) topk,
             md_ranks := repeat_vector (md_ranks m) topk, md_weights := repeat_vector (md_weights m) topk,
             md_rows := md_rows m * topk\<rparr>)"

definition chunk_step :: "int list \<Rightarrow> int list \<times> int \<Rightarrow> int \<Rightarrow> (int list \<times> int) res" where
  "chunk_step index_vec st i =
     (let (sizes, last) = st in
      rbind (vec_get index_vec i) (\<lambda>a. rbind (vec_get index_vec (i - 1)) (\<lambda>b.
      Ok (if a \<noteq> b then (sizes @ [i - last], i) else (sizes, last)))))"

definition get_chunk_sizes :: "'w metadata \<Rightarrow> int list res" where
  "get_chunk_sizes m =
     (let index_vec = (if md_tag m = EXPERT then md_exps m else md_ranks m) in
      rbind (foldM (chunk_step index_vec) ([], 0) [1..md_rows m - 1]) (\<lambda>(sizes, last). Ok (sizes @ [md_rows m - last])))"

definition attention_less :: "'w metadata \<Rightarrow> nat \<Rightarrow> nat \<Rightarrow> bool" where
  "attention_less m i j =
     (if md_ranks m ! i \<noteq> md_ranks m ! j then md_ranks m ! i < md_ranks m ! j
      else if md_prefills m ! i = - 1 \<or> md_prefills m ! j = - 1 then md_prefills m ! i > md_prefills m ! j
      else md_reqs m ! i < md_reqs m ! j)"

definition sort_by_attention :: "((nat \<Rightarrow> nat \<Rightarrow> bool) \<Rightarrow> nat list \<Rightarrow> nat list) \<Rightarrow> 'w::zero metadata \<Rightarrow> ('w metadata \<times> int list) res" where
  "sort_by_attention std_sort m =
     (let n = length (md_reqs m); rank = std_sort (attention_less m) [0..<n] in
      rbind (foldM (\<lambda>p i. rbind (vec_get rank (int i)) (\<lambda>r. vec_set p (int r) (int i))) (replicate n 0) [0..<n]) (\<lambda>positions.
      rbind (permute_token_infos m positions) (\<lambda>m'. Ok (m', positions))))"

text \<open>The counting sort: how many tokens each expert has, then running sums, then one position per token.\<close>

definition max_num_experts :: nat where
  "max_num_experts = 128"

definition count_experts :: "int list \<Rightarrow> int list \<Rightarrow> int list res" where
  "count_experts cnts eids = foldM (\<lambda>c eid. rbind (vec_get c eid) (\<lambda>x. vec_set c eid (x + 1))) cnts eids"

definition accumulate_counts :: "int list \<Rightarrow> int list res" where
  "accumulate_counts cnts =
     foldM (\<lambda>c i. rbind (vec_get c i) (\<lambda>x. rbind (vec_get c (i - 1)) (\<lambda>y. vec_set c i (x + y)))) cnts [1..int max_num_experts - 1]"

definition take_position :: "int list \<times> int \<Rightarrow> int \<Rightarrow> ((int list \<times> int) \<times> int) res" where
  "take_position st eid =
     (let (cnts, first) = st in
      if eid = 0 then Ok ((cnts, first + 1), first)
      else rbind (vec_get cnts (eid - 1)) (\<lambda>p. rbind (vec_set cnts (eid - 1) (p + 1)) (\<lambda>cnts. Ok ((cnts, first), p))))"

definition sort_by_expert :: "'w::zero metadata \<Rightarrow> ('w metadata \<times> int list) res" where
  "sort_by_expert m =
     rbind (count_experts (replicate max_num_experts 0) (md_exps m)) (\<lambda>cnts.
     rbind (accumulate_counts cnts) (\<lambda>cnts.
     rbind (foldM (\<lambda>(st, positions) i.
              rbind (vec_get (md_exps m) i) (\<lambda>eid. rbind (take_position st eid) (\<lambda>(st, p).
              rbind (vec_set positions i p) (\<lambda>positions. Ok (st, positions)))))
              ((cnts, 0), replicate (nat (md_rows m)) 0) [0..md_rows m - 1]) (\<lambda>(st, positions).
     rbind (permute_token_infos m positions) (\<lambda>m'. Ok (m', positions)))))"

definition md_index_select :: "'w metadata \<Rightarrow> int list \<Rightarrow> 'w metadata res" where
  "md_index_select m indices =
     rbind (index_select_vector (md_reqs m) indices) (\<lambda>reqs.
     rbind (index_select_vector (md_exps m) indices) (\<lambda>exps.
     rbind (index_select_vector (md_weights m) indices) (\<lambda>ws.
     rbind (index_select_vector (md_ranks m) indices) (\<lambda>ranks.
     rbind (index_select_vector (md_prefills m) indices) (\<lambda>pre.
     Ok (m\<lparr>md_rows := int (length indices), md_reqs := reqs, md_exps := exps, md_weights := ws, md_ranks := ranks,
           md_prefills := pre, md_prefill_seqs := None, md_prefill_tokens := None, md_decode_tokens := None\<rparr>))))))"

definition split_part :: "'w metadata \<Rightarrow> int \<times> int list \<times> int list \<times> 'w list \<times> int list \<times> int list \<Rightarrow> 'w metadata" where
  "split_part m part =
     (let (size, reqs, exps, ws, ranks, pre) = part;
          p = m\<lparr>md_rows := size, md_reqs := reqs, md_exps := exps, md_weights := ws, md_ranks := ranks, md_prefills := pre,
                md_prefill_seqs := None, md_prefill_tokens := None, md_decode_tokens := None\<rparr>;
          n = int (length (filter (\<lambda>l. l \<noteq> - 1) pre))
      in if md_tag m = ATTENTION then p\<lparr>md_prefill_seqs := Some n, md_prefill_tokens := Some n, md_decode_tokens := Some (size - n)\<rparr>
         else p)"

definition split_with_sizes :: "'w metadata \<Rightarrow> int list \<Rightarrow> 'w metadata list res" where
  "split_with_sizes m sizes =
     rbind (split_vector_by_size (md_reqs m) sizes) (\<lambda>reqs.
     rbind (split_vector_by_size (md_exps m) sizes) (\<lambda>exps.
     rbind (split_vector_by_size (md_ranks m) sizes) (\<lambda>ranks.
     rbind (split_vector_by_size (md_prefills m) sizes) (\<lambda>pre.
     rbind (split_vector_by_size (md_weights m) sizes) (\<lambda>ws.
     Ok (map (split_part m) (zip sizes (zip reqs (zip exps (zip ws (zip ranks pre)))))))))))"

definition split_by_indices :: "'w metadata \<Rightarrow> int list \<Rightarrow> 'w metadata list res" where
  "split_by_indices m positions = split_with_sizes m (map2 (\<lambda>a b. b - a) positions (tl positions))"

section \<open>Merging\<close>

record 'w merge_state =
  mg_counts :: "int list \<times> int"
  mg_idx :: nat
  mg_positions :: "int list"
  mg_reqs :: "int list"
  mg_exps :: "int list"
  mg_ranks :: "int list"
  mg_prefills :: "int list"
  mg_weights :: "'w list"

definition merge_token :: "'w merge_state \<Rightarrow> 'w metadata \<times> int \<Rightarrow> 'w merge_state res" where
  "merge_token st mi =
     (let (m, i) = mi in
      rbind (vec_get (md_exps m) i) (\<lambda>e.
      rbind (take_position (mg_counts st) e) (\<lambda>(c, pos).
      rbind (vec_set (mg_positions st) (int (mg_idx st)) pos) (\<lambda>positions.
      rbind (rbind (vec_get (md_reqs m) i) (vec_set (mg_reqs st) pos)) (\<lambda>reqs.
      rbind (vec_set (mg_exps st) pos e) (\<lambda>exps.
      rbind (rbind (vec_get (md_ranks m) i) (vec_set (mg_ranks st) pos)) (\<lambda>ranks.
      rbind (rbind (vec_get (md_prefills m) i) (vec_set (mg_prefills st) pos)) (\<lambda>pre.
      rbind (if md_weights m = [] then Ok (mg_weights st)
             else rbind (vec_get (md_weights m) i) (vec_set (mg_weights st) pos)) (\<lambda>ws.
      Ok \<lparr> mg_counts = c, mg_idx = mg_idx st + 1, mg_positions = positions, mg_reqs = reqs, mg_exps = exps, mg_ranks = ranks,
           mg_prefills = pre, mg_weights = ws \<rparr>)))))))))"

definition merge_by_expert :: "'w::zero metadata list \<Rightarrow> ('w metadata \<times> int list) res" where
  "merge_by_expert metas =
     (if metas = [] then Raise IndexError
      else let total = sum_list (map md_rows metas); z = replicate (nat total) 0 in
        rbind (foldM (\<lambda>c m. rbind (c_assert (md_rows m = int (length (md_exps m)))) (\<lambda>_. count_experts c (md_exps m)))
                 (replicate max_num_experts 0) metas) (\<lambda>cnts.
        rbind (accumulate_counts cnts) (\<lambda>cnts.
        rbind (foldM (\<lambda>st m. foldM (\<lambda>st i. merge_token st (m, i)) st [0..md_rows m - 1])
                 \<lparr> mg_counts = (cnts, 0), mg_idx = 0, mg_positions = z, mg_reqs = z, mg_exps = z, mg_ranks = z, mg_prefills = z,
                   mg_weights = replicate (nat total) 0 \<rparr> metas) (\<lambda>st.
        Ok (\<lparr> md_tag = EXPERT, md_rows = total, md_dim = md_dim (hd metas), md_dtype = md_dtype (hd metas), md_layer = md_layer (hd metas),
              md_reqs = mg_reqs st, md_exps = mg_exps st, md_weights = mg_weights st, md_ranks = mg_ranks st,
              md_prefills = mg_prefills st, md_prefill_seqs = None, md_prefill_tokens = None, md_decode_tokens = None \<rparr>,
            mg_positions st)))))"

text \<open>The rows \<open>l\<close> to \<open>r - 1\<close> of the request ids and prefill lengths of a batch.\<close>

definition attention_rows :: "'w metadata \<Rightarrow> int \<Rightarrow> int \<Rightarrow> (int \<times> int) list res" where
  "attention_rows m l r =
     mapM (\<lambda>i. rbind (vec_get (md_reqs m) i) (\<lambda>q. rbind (vec_get (md_prefills m) i) (\<lambda>p. Ok (q, p)))) [l..r - 1]"

definition merge_by_attention :: "'w metadata list \<Rightarrow> 'w metadata res" where
  "merge_by_attention metas =
     rbind (mapM (\<lambda>m. rbind (c_assert (attention_batch_safe_check m)) (\<lambda>_.
                     attention_rows m 0 (the (md_prefill_seqs m)))) metas) (\<lambda>pre.
     rbind (mapM (\<lambda>m. attention_rows m (the (md_prefill_seqs m)) (the (md_prefill_seqs m) + the (md_decode_tokens m))) metas) (\<lambda>dec.
     if metas = [] then Raise IndexError
     else let rows = concat pre @ concat dec in
       Ok \<lparr> md_tag = ATTENTION, md_rows = int (length rows), md_dim = md_dim (hd metas), md_dtype = md_dtype (hd metas),
            md_layer = md_layer (hd metas), md_reqs = map fst rows, md_exps = [], md_weights = [], md_ranks = [],
            md_prefills = map snd rows,
            md_prefill_seqs = Some (sum_list (map (the \<circ> md_prefill_seqs) metas)),
            md_prefill_tokens = Some (sum_list (map (the \<circ> md_prefill_tokens) metas)),
            md_decode_tokens = Some (sum_list (map (the \<circ> md_decode_tokens) metas)) \<rparr>))"

text \<open>A token of \<open>TokenTopKInfo\<close>: sequence, prefill length, attention rank and the widths of its tensors.\<close>

record topk_token =
  tk_seq :: int
  tk_prefill :: int
  tk_rank :: int
  tk_dims :: "int list"

definition pack_topk_tokens :: "int \<Rightarrow> topk_token list \<Rightarrow> 'w metadata res" where
  "pack_topk_tokens layer tokens =
     (case tokens of [] \<Rightarrow> Raise IndexError
      | t # _ \<Rightarrow> rbind (vec_get (tk_dims t) 0) (\<lambda>dim.
          (let n = int (length (filter (\<lambda>t. tk_prefill t \<noteq> - 1) tokens)) in
           Ok \<lparr> md_tag = ATTENTION, md_rows = int (length tokens), md_dim = dim, md_dtype = ''bf16'', md_layer = layer,
                md_reqs = map tk_seq tokens, md_exps = [], md_weights = [], md_ranks = map tk_rank tokens,
                md_prefills = map tk_prefill tokens, md_prefill_seqs = Some n, md_prefill_tokens = Some n,
                md_decode_tokens = Some (int (length tokens) - n) \<rparr>)))"

section \<open>Writing at given positions\<close>

lemma vec_set_in [simp]: "i < length xs \<Longrightarrow> vec_set xs (int i) x = Ok (xs[i := x])"
  by (simp add: vec_set_def)

lemma vec_set_eq_Ok [res_simps]: "vec_set xs i x = Ok ys \<longleftrightarrow> 0 \<le> i \<and> i < int (length xs) \<and> ys = xs[nat i := x]"
  by (auto simp: vec_set_def)

text \<open>A list of positions is a bijection onto the indices of the batch.\<close>

definition bij_positions :: "int list \<Rightarrow> bool" where
  "bij_positions ps \<longleftrightarrow> distinct ps \<and> set ps = {0..<int (length ps)}"

lemma bij_positionsI:
  assumes "distinct ps" and "\<And>p. p \<in> set ps \<Longrightarrow> 0 \<le> p \<and> p < int (length ps)"
  shows "bij_positions ps"
proof -
  have "set ps \<subseteq> {0..<int (length ps)}" using assms(2) by auto
  moreover have "card (set ps) = card {0..<int (length ps)}" using distinct_card[OF assms(1)] by simp
  ultimately show ?thesis using assms(1) card_subset_eq[of "{0..<int (length ps)}" "set ps"] by (simp add: bij_positions_def)
qed

lemma bij_positions_range: "bij_positions ps \<Longrightarrow> i < length ps \<Longrightarrow> 0 \<le> ps ! i \<and> ps ! i < int (length ps)"
  using nth_mem[of i ps] by (auto simp: bij_positions_def)

lemma bij_positions_inj: "bij_positions ps \<Longrightarrow> i < length ps \<Longrightarrow> j < length ps \<Longrightarrow> nat (ps ! i) = nat (ps ! j) \<Longrightarrow> i = j"
  using bij_positions_range[of ps i] bij_positions_range[of ps j] nth_eq_iff_index_eq[of ps i j]
  by (simp add: bij_positions_def eq_nat_nat_iff)

lemma bij_positions_onto: "bij_positions ps \<Longrightarrow> k < length ps \<Longrightarrow> \<exists>i < length ps. nat (ps ! i) = k"
proof -
  assume "bij_positions ps" and "k < length ps"
  then have "int k \<in> set ps" by (simp add: bij_positions_def)
  then show ?thesis by (auto simp: in_set_conv_nth)
qed

definition placed :: "nat \<Rightarrow> int list \<Rightarrow> 'a list \<Rightarrow> 'a list \<Rightarrow> bool" where
  "placed j ps data r \<longleftrightarrow> length r = length ps \<and> (\<forall>i < j. r ! nat (ps ! i) = data ! i)"

lemma placed_0: "length r = length ps \<Longrightarrow> placed 0 ps data r"
  by (simp add: placed_def)

lemma placed_step:
  assumes "bij_positions ps" and "placed j ps data r" and "j < length ps"
  shows "vec_set r (ps ! j) (data ! j) = Ok (r[nat (ps ! j) := data ! j])"
    and "placed (Suc j) ps data (r[nat (ps ! j) := data ! j])"
proof -
  have r: "0 \<le> ps ! j" "nat (ps ! j) < length r"
    using bij_positions_range[OF assms(1,3)] assms(2) by (auto simp: placed_def)
  show "vec_set r (ps ! j) (data ! j) = Ok (r[nat (ps ! j) := data ! j])" using r by (auto simp: vec_set_def)
  show "placed (Suc j) ps data (r[nat (ps ! j) := data ! j])"
    unfolding placed_def
  proof (intro conjI allI impI)
    show "length (r[nat (ps ! j) := data ! j]) = length ps" using assms(2) by (simp add: placed_def)
    fix i assume i: "i < Suc j"
    show "r[nat (ps ! j) := data ! j] ! nat (ps ! i) = data ! i"
    proof (cases "i = j")
      case False
      then have "nat (ps ! i) \<noteq> nat (ps ! j)" using bij_positions_inj[OF assms(1), of i j] i assms(3) by auto
      then show ?thesis using False i assms(2) by (simp add: placed_def)
    qed (use r in simp)
  qed
qed

lemma placed_unique:
  assumes "bij_positions ps" and "placed (length ps) ps data r" and "placed (length ps) ps data r'"
  shows "r = r'"
proof (rule nth_equalityI)
  show "length r = length r'" using assms by (simp add: placed_def)
  fix k assume "k < length r"
  then obtain i where "i < length ps" "nat (ps ! i) = k" using bij_positions_onto[OF assms(1), of k] assms(2) by (auto simp: placed_def)
  then show "r ! k = r' ! k" using assms(2,3) by (auto simp: placed_def)
qed

lemma permute_vector_placed:
  assumes "bij_positions ps" and "length data = length ps"
  shows "\<exists>r. permute_vector data ps = Ok r \<and> placed (length ps) ps data r"
proof (cases "data = []")
  case True
  then show ?thesis using assms by (simp add: permute_vector_def placed_def)
next
  case False
  have "\<exists>r. foldM (\<lambda>result i. rbind (vec_get ps (int i)) (\<lambda>p. rbind (vec_get data (int i)) (\<lambda>x. vec_set result p x)))
      (replicate (length data) 0) [0..<j] = Ok r \<and> placed j ps data r" if "j \<le> length ps" for j
    using that
  proof (induction j)
    case 0
    then show ?case using assms by (simp add: placed_0)
  next
    case (Suc j)
    then show ?case using placed_step[OF assms(1), of j data] assms(2) by auto
  qed
  then show ?thesis using False by (simp add: permute_vector_def)
qed

section \<open>The counting sort\<close>

definition below :: "int list \<Rightarrow> int \<Rightarrow> nat" where
  "below es e = length (filter (\<lambda>x. x < e) es)"

definition stable_position :: "int list \<Rightarrow> nat \<Rightarrow> int" where
  "stable_position es i = int (below es (es ! i) + count_list (take i es) (es ! i))"

definition expert_ids_ok :: "int list \<Rightarrow> bool" where
  "expert_ids_ok es \<longleftrightarrow> (\<forall>e \<in> set es. 0 \<le> e \<and> e < int max_num_experts)"

lemma count_experts_eq:
  assumes "expert_ids_ok es" and "length cs = max_num_experts"
  shows "count_experts cs es = Ok (map (\<lambda>k. cs ! k + int (count_list es (int k))) [0..<max_num_experts])"
  using assms
proof (induction es arbitrary: cs)
  case Nil
  then show ?case by (auto simp: count_experts_def intro: nth_equalityI)
next
  case (Cons e es)
  have e: "0 \<le> e" "nat e < length cs" using Cons.prems by (auto simp: expert_ids_ok_def)
  let ?cs = "cs[nat e := cs ! nat e + 1]"
  have "count_experts cs (e # es) = count_experts ?cs es"
    using e vec_get_in[of "nat e" cs] vec_set_in[of "nat e" cs] by (simp add: count_experts_def)
  also have "\<dots> = Ok (map (\<lambda>k. ?cs ! k + int (count_list es (int k))) [0..<max_num_experts])"
    using Cons by (intro Cons.IH) (auto simp: expert_ids_ok_def)
  also have "map (\<lambda>k. ?cs ! k + int (count_list es (int k))) [0..<max_num_experts]
      = map (\<lambda>k. cs ! k + int (count_list (e # es) (int k))) [0..<max_num_experts]"
    by (rule map_cong) (use e Cons.prems(2) in \<open>auto simp: nth_list_update\<close>)
  finally show ?case .
qed

lemma accumulate_eq:
  assumes "length cs = max_num_experts"
  shows "accumulate_counts cs = Ok (map (\<lambda>k. sum_list (take (Suc k) cs)) [0..<max_num_experts])"
proof -
  let ?f = "\<lambda>c i. rbind (vec_get c i) (\<lambda>x. rbind (vec_get c (i - 1)) (\<lambda>y. vec_set c i (x + y)))"
  have "foldM ?f cs [1..int j] = Ok (map (\<lambda>k. if k \<le> j then sum_list (take (Suc k) cs) else cs ! k) [0..<max_num_experts])"
    if "j < max_num_experts" for j
    using that
  proof (induction j)
    case 0
    have "map (\<lambda>k. if k \<le> 0 then sum_list (take (Suc k) cs) else cs ! k) [0..<max_num_experts] = cs"
      using assms 0 by (intro nth_equalityI) (auto simp: take_Suc_conv_app_nth)
    then show ?case by simp
  next
    case (Suc j)
    let ?g = "\<lambda>j k. if k \<le> j then sum_list (take (Suc k) cs) else cs ! k"
    have u: "[1..int (Suc j)] = [1..int j] @ [int (Suc j)]" using upto_rec2[of 1 "int (Suc j)"] by simp
    have "?f (map (?g j) [0..<max_num_experts]) (int (Suc j)) = Ok ((map (?g j) [0..<max_num_experts])[Suc j := ?g j (Suc j) + ?g j j])"
      using Suc.prems vec_get_in[of j "map (?g j) [0..<max_num_experts]"] vec_get_in[of "Suc j" "map (?g j) [0..<max_num_experts]"]
        vec_set_in[of "Suc j" "map (?g j) [0..<max_num_experts]"]
      by simp
    also have "(map (?g j) [0..<max_num_experts])[Suc j := ?g j (Suc j) + ?g j j] = map (?g (Suc j)) [0..<max_num_experts]"
      using Suc.prems assms by (intro nth_equalityI) (auto simp: nth_list_update take_Suc_conv_app_nth[of "Suc j"])
    finally have f: "?f (map (?g j) [0..<max_num_experts]) (int (Suc j)) = Ok (map (?g (Suc j)) [0..<max_num_experts])" .
    have i: "foldM ?f cs [1..int j] = Ok (map (?g j) [0..<max_num_experts])" by (rule Suc.IH) (use Suc.prems in simp)
    show ?case by (simp only: u foldM_append i rbind_Ok foldM.simps f)
  qed
  note a = this[of "max_num_experts - 1"]
  have p: "0 < max_num_experts" by (simp add: max_num_experts_def)
  then have e: "int max_num_experts - 1 = int (max_num_experts - 1)" by simp
  have "accumulate_counts cs = Ok (map (\<lambda>k. if k \<le> max_num_experts - 1 then sum_list (take (Suc k) cs) else cs ! k) [0..<max_num_experts])"
    unfolding accumulate_counts_def e by (rule a) (use p in simp)
  also have "map (\<lambda>k. if k \<le> max_num_experts - 1 then sum_list (take (Suc k) cs) else cs ! k) [0..<max_num_experts]
      = map (\<lambda>k. sum_list (take (Suc k) cs)) [0..<max_num_experts]"
    by (rule map_cong) auto
  finally show ?thesis .
qed

lemma below_Suc: "below es (e + 1) = below es e + count_list es e"
  by (induction es) (auto simp: below_def)

lemma below_0: "expert_ids_ok es \<Longrightarrow> below es 0 = 0"
  by (auto simp: below_def expert_ids_ok_def filter_empty_conv not_less)

lemma counts_below:
  assumes "expert_ids_ok es" and "k < max_num_experts"
  shows "sum_list (take (Suc k) (map (\<lambda>k. int (count_list es (int k))) [0..<max_num_experts])) = int (below es (int k + 1))"
  using assms(2)
proof (induction k)
  case 0
  then show ?case using below_Suc[of es 0] below_0[OF assms(1)] by (simp add: take_Suc_conv_app_nth)
next
  case (Suc k)
  then show ?case
    using below_Suc[of es "int k + 1"] by (simp add: take_Suc_conv_app_nth[of "Suc k"] add.commute)
qed

text \<open>The counters when the tokens \<open>pre\<close> have been placed.\<close>

definition counters :: "int list \<Rightarrow> int list \<Rightarrow> int list \<times> int" where
  "counters es pre = (map (\<lambda>k. int (below es (int k + 1) + count_list pre (int k + 1))) [0..<max_num_experts], int (count_list pre 0))"

lemma prepared_counters:
  assumes "expert_ids_ok es"
  shows "rbind (count_experts (replicate max_num_experts 0) es) accumulate_counts = Ok (fst (counters es []))"
    and "snd (counters es []) = 0"
proof -
  have "count_experts (replicate max_num_experts 0) es = Ok (map (\<lambda>k. int (count_list es (int k))) [0..<max_num_experts])"
    using count_experts_eq[OF assms, of "replicate max_num_experts 0"] by (simp cong: map_cong)
  then show "rbind (count_experts (replicate max_num_experts 0) es) accumulate_counts = Ok (fst (counters es []))"
    using counts_below[OF assms] by (simp add: accumulate_eq counters_def cong: map_cong)
qed (simp add: counters_def)

lemma take_position_counters:
  assumes "expert_ids_ok es" and "0 \<le> e" and "e < int max_num_experts"
  shows "take_position (counters es pre) e = Ok (counters es (pre @ [e]), int (below es e + count_list pre e))"
proof (cases "e = 0")
  case True
  then show ?thesis using below_0[OF assms(1)] by (simp add: take_position_def counters_def)
next
  case False
  define k where "k = nat (e - 1)"
  have k: "e = int k + 1" using False assms(2) by (simp add: k_def)
  have lt: "k < max_num_experts" using k assms(3) by simp
  let ?c = "map (\<lambda>k. int (below es (int k + 1) + count_list pre (int k + 1))) [0..<max_num_experts]"
  have g: "vec_get ?c (int k) = Ok (int (below es e + count_list pre e))" using lt vec_get_in[of k ?c] by (simp add: k)
  have s: "vec_set ?c (int k) (int (below es e + count_list pre e) + 1)
      = Ok (map (\<lambda>k. int (below es (int k + 1) + count_list (pre @ [e]) (int k + 1))) [0..<max_num_experts])"
    using lt vec_set_in[of k ?c] by (auto simp: k nth_list_update intro!: nth_equalityI)
  show ?thesis using False g s by (simp add: take_position_def counters_def k Let_def)
qed

text \<open>The positions are ordered by expert, then by the order in the batch.\<close>

lemma below_mono: "e \<le> f \<Longrightarrow> below es e \<le> below es f"
  by (induction es) (auto simp: below_def)

lemma below_le: "below es e \<le> length es"
  by (simp add: below_def)

lemma count_take_le: "count_list (take i es) e \<le> count_list es e"
  using count_list_append[of "take i es" "drop i es" e] by simp

lemma count_take_less: "i < j \<Longrightarrow> i < length es \<Longrightarrow> count_list (take i es) (es ! i) < count_list (take j es) (es ! i)"
proof -
  assume a: "i < j" "i < length es"
  have "count_list (take (Suc i) es) (es ! i) = Suc (count_list (take i es) (es ! i))" using a by (simp add: take_Suc_conv_app_nth)
  moreover have "count_list (take (Suc i) es) (es ! i) \<le> count_list (take j es) (es ! i)"
    using a count_take_le[of "Suc i" "take j es"] by (simp add: min_absorb1)
  ultimately show ?thesis by simp
qed

lemma stable_position_below: "i < length es \<Longrightarrow> stable_position es i < int (below es (es ! i + 1))"
  using count_take_less[of i "length es" es] by (simp add: stable_position_def below_Suc)

lemma stable_position_less:
  assumes "i < length es" and "es ! i < es ! j \<or> es ! i = es ! j \<and> i < j"
  shows "stable_position es i < stable_position es j"
  using assms(2)
proof
  assume "es ! i < es ! j"
  then have "below es (es ! i + 1) \<le> below es (es ! j)" by (intro below_mono) simp
  then show ?thesis using stable_position_below[OF assms(1)] by (simp add: stable_position_def)
next
  assume "es ! i = es ! j \<and> i < j"
  then show ?thesis using count_take_less[of i j es] assms(1) by (auto simp: stable_position_def)
qed

definition stable_positions :: "int list \<Rightarrow> int list" where
  "stable_positions es = map (stable_position es) [0..<length es]"

lemma stable_positions_nth [simp]: "i < length es \<Longrightarrow> stable_positions es ! i = stable_position es i"
  by (simp add: stable_positions_def)

lemma stable_positions_length [simp]: "length (stable_positions es) = length es"
  by (simp add: stable_positions_def)

lemma stable_position_inj: "i < length es \<Longrightarrow> j < length es \<Longrightarrow> stable_position es i = stable_position es j \<Longrightarrow> i = j"
proof (rule ccontr)
  assume a: "i < length es" "j < length es" "stable_position es i = stable_position es j" "i \<noteq> j"
  then consider "es ! i < es ! j \<or> es ! i = es ! j \<and> i < j" | "es ! j < es ! i \<or> es ! j = es ! i \<and> j < i" by linarith
  then show False by cases (use stable_position_less[of i es j] stable_position_less[of j es i] a in simp_all)
qed

lemma stable_positions_bij: "bij_positions (stable_positions es)"
proof (rule bij_positionsI)
  show "distinct (stable_positions es)"
    by (auto simp: stable_positions_def distinct_map inj_on_def intro: stable_position_inj)
  show "0 \<le> p \<and> p < int (length (stable_positions es))" if pm: "p \<in> set (stable_positions es)" for p
  proof -
    obtain i where i: "i < length es" "p = stable_position es i" using pm by (auto simp: stable_positions_def)
    then show ?thesis using stable_position_below[OF i(1)] below_le[of es "es ! i + 1"] by (simp add: stable_position_def)
  qed
qed

text \<open>A list placed by these positions is sorted by expert.\<close>

lemma stable_positions_sorted:
  assumes "placed (length es) (stable_positions es) es r"
  shows "sorted r"
  unfolding sorted_iff_nth_mono_less
proof (intro allI impI)
  fix k l assume kl: "k < l" "l < length r"
  note b = stable_positions_bij[of es]
  have len: "length r = length es" using assms by (simp add: placed_def)
  obtain i where i: "i < length es" "nat (stable_position es i) = k" using bij_positions_onto[OF b, of k] kl len by auto
  obtain j where j: "j < length es" "nat (stable_position es j) = l" using bij_positions_onto[OF b, of l] kl len by auto
  have "stable_position es i < stable_position es j" using i j kl by linarith
  then have "es ! i \<le> es ! j" using stable_position_less[of j es i] j by force
  then show "r ! k \<le> r ! l" using assms i j by (auto simp: placed_def)
qed

section \<open>Correctness of the sort\<close>

definition md_wf :: "'w metadata \<Rightarrow> bool" where
  "md_wf m \<longleftrightarrow> md_rows m = int (length (md_exps m)) \<and> length (md_reqs m) = length (md_exps m) \<and> length (md_ranks m) = length (md_exps m)
     \<and> length (md_prefills m) = length (md_exps m) \<and> (md_weights m = [] \<or> length (md_weights m) = length (md_exps m))"

definition same_token :: "'w metadata \<Rightarrow> nat \<Rightarrow> 'w metadata \<Rightarrow> nat \<Rightarrow> bool" where
  "same_token m i m' k \<longleftrightarrow> md_reqs m' ! k = md_reqs m ! i \<and> md_exps m' ! k = md_exps m ! i \<and> md_ranks m' ! k = md_ranks m ! i
     \<and> md_prefills m' ! k = md_prefills m ! i \<and> (md_weights m \<noteq> [] \<longrightarrow> md_weights m' ! k = md_weights m ! i)"

lemma upto_int_Suc: "[0..int (Suc j) - 1] = [0..int j - 1] @ [int j]"
  using upto_rec2[of 0 "int j"] by simp

lemma positions_loop:
  assumes "expert_ids_ok es" and "j \<le> length es"
  shows "foldM (\<lambda>(st, positions) i.
              rbind (vec_get es i) (\<lambda>eid. rbind (take_position st eid) (\<lambda>(st, p).
              rbind (vec_set positions i p) (\<lambda>positions. Ok (st, positions)))))
            (counters es [], replicate (length es) 0) [0..int j - 1]
       = Ok (counters es (take j es), map (\<lambda>i. if i < j then stable_position es i else 0) [0..<length es])"
  using assms(2)
proof (induction j)
  case 0
  have "map (\<lambda>i. 0 :: int) [0..<length es] = replicate (length es) 0" by (rule map_replicate_trivial)
  then show ?case by simp
next
  case (Suc j)
  let ?f = "\<lambda>j i. if i < j then stable_position es i else 0"
  have e: "0 \<le> es ! j" "es ! j < int max_num_experts" using assms(1) Suc.prems by (auto simp: expert_ids_ok_def)
  have t: "take_position (counters es (take j es)) (es ! j) = Ok (counters es (take (Suc j) es), stable_position es j)"
    using take_position_counters[OF assms(1) e] Suc.prems by (simp add: stable_position_def take_Suc_conv_app_nth)
  have s: "vec_set (map (?f j) [0..<length es]) (int j) (stable_position es j) = Ok (map (?f (Suc j)) [0..<length es])"
    using Suc.prems by (auto intro!: nth_equalityI simp: nth_list_update less_Suc_eq)
  have g: "vec_get es (int j) = Ok (es ! j)" using Suc.prems by simp
  show ?case
    unfolding upto_int_Suc foldM_append Suc.IH[OF Suc_leD[OF Suc.prems]] rbind_Ok foldM.simps prod.case g t s ..
qed

lemma permute_token_infos_placed:
  assumes "bij_positions ps" and "md_wf m" and "length ps = length (md_exps m)"
  shows "\<exists>m'. permute_token_infos m ps = Ok m' \<and> md_wf m' \<and> placed (length ps) ps (md_reqs m) (md_reqs m')
    \<and> placed (length ps) ps (md_exps m) (md_exps m') \<and> placed (length ps) ps (md_ranks m) (md_ranks m')
    \<and> placed (length ps) ps (md_prefills m) (md_prefills m') \<and> (md_weights m = [] \<longrightarrow> md_weights m' = [])
    \<and> (md_weights m \<noteq> [] \<longrightarrow> placed (length ps) ps (md_weights m) (md_weights m'))
    \<and> m' = m\<lparr>md_reqs := md_reqs m', md_exps := md_exps m', md_ranks := md_ranks m', md_prefills := md_prefills m', md_weights := md_weights m'\<rparr>"
proof (cases "ps = []")
  case True
  then show ?thesis using assms by (auto simp: permute_token_infos_def placed_def md_wf_def)
next
  case False
  note pv = permute_vector_placed[OF assms(1)]
  obtain reqs exps ranks pre where
    r: "permute_vector (md_reqs m) ps = Ok reqs" "placed (length ps) ps (md_reqs m) reqs" and
    e: "permute_vector (md_exps m) ps = Ok exps" "placed (length ps) ps (md_exps m) exps" and
    k: "permute_vector (md_ranks m) ps = Ok ranks" "placed (length ps) ps (md_ranks m) ranks" and
    q: "permute_vector (md_prefills m) ps = Ok pre" "placed (length ps) ps (md_prefills m) pre"
    using pv[of "md_reqs m"] pv[of "md_exps m"] pv[of "md_ranks m"] pv[of "md_prefills m"] assms(2,3) by (auto simp: md_wf_def)
  obtain ws where w: "permute_vector (md_weights m) ps = Ok ws" "md_weights m = [] \<longrightarrow> ws = []"
    "md_weights m \<noteq> [] \<longrightarrow> placed (length ps) ps (md_weights m) ws"
    using pv[of "md_weights m"] assms(2,3) by (cases "md_weights m = []") (auto simp: md_wf_def permute_vector_def)
  let ?m = "m\<lparr>md_reqs := reqs, md_exps := exps, md_ranks := ranks, md_prefills := pre, md_weights := ws\<rparr>"
  have "permute_token_infos m ps = Ok ?m"
    using False assms(2,3) r e k q w by (simp add: permute_token_infos_def md_wf_def)
  moreover have "md_wf ?m" using assms(2,3) r e k q w by (auto simp: md_wf_def placed_def)
  ultimately show ?thesis using r e k q w by (intro exI[of _ ?m]) simp
qed

lemma sort_by_expert_eq:
  assumes "md_wf m" and "expert_ids_ok (md_exps m)"
  shows "sort_by_expert m = rbind (permute_token_infos m (stable_positions (md_exps m))) (\<lambda>m'. Ok (m', stable_positions (md_exps m)))"
proof -
  let ?es = "md_exps m"
  have c: "(fst (counters ?es []), 0) = counters ?es []" using prepared_counters(2)[OF assms(2)] by (metis prod.collapse)
  have l: "map (\<lambda>i. if i < length ?es then stable_position ?es i else 0) [0..<length ?es] = stable_positions ?es"
    unfolding stable_positions_def by (rule map_cong) auto
  have rows: "md_rows m = int (length ?es)" using assms(1) by (simp add: md_wf_def)
  have p: "count_experts (replicate max_num_experts 0) ?es = Ok cnts \<Longrightarrow> accumulate_counts cnts = Ok (fst (counters ?es []))" for cnts
    using prepared_counters(1)[OF assms(2)] by simp
  obtain cnts where "count_experts (replicate max_num_experts 0) ?es = Ok cnts"
    using prepared_counters(1)[OF assms(2)] by (cases "count_experts (replicate max_num_experts 0) ?es") auto
  then show ?thesis
    unfolding sort_by_expert_def rows nat_int
    using p positions_loop[OF assms(2) le_refl] by (simp only: rbind_Ok c l prod.case)
qed

lemma sort_by_expert_sorts:
  assumes "md_wf m" and "expert_ids_ok (md_exps m)"
  shows "\<exists>m' ps. sort_by_expert m = Ok (m', ps) \<and> md_wf m' \<and> length ps = length (md_exps m) \<and> bij_positions ps
    \<and> (\<forall>i < length ps. same_token m i m' (nat (ps ! i))) \<and> sorted (md_exps m')
    \<and> (\<forall>i j. i < j \<and> j < length ps \<and> md_exps m ! i = md_exps m ! j \<longrightarrow> ps ! i < ps ! j)"
proof -
  let ?ps = "stable_positions (md_exps m)"
  note b = stable_positions_bij[of "md_exps m"]
  obtain m' where m': "permute_token_infos m ?ps = Ok m'" "md_wf m'" "placed (length ?ps) ?ps (md_reqs m) (md_reqs m')"
    "placed (length ?ps) ?ps (md_exps m) (md_exps m')" "placed (length ?ps) ?ps (md_ranks m) (md_ranks m')"
    "placed (length ?ps) ?ps (md_prefills m) (md_prefills m')" "md_weights m \<noteq> [] \<longrightarrow> placed (length ?ps) ?ps (md_weights m) (md_weights m')"
    using permute_token_infos_placed[OF b assms(1)] by auto
  have "sort_by_expert m = Ok (m', ?ps)" using sort_by_expert_eq[OF assms] m'(1) by simp
  moreover have "\<forall>i < length ?ps. same_token m i m' (nat (?ps ! i))" using m' by (simp add: same_token_def placed_def)
  moreover have "sorted (md_exps m')" using m'(4) stable_positions_sorted[of "md_exps m"] by simp
  moreover have "\<forall>i j. i < j \<and> j < length ?ps \<and> md_exps m ! i = md_exps m ! j \<longrightarrow> ?ps ! i < ?ps ! j"
    using stable_position_less[of _ "md_exps m"] by auto
  ultimately show ?thesis using m'(2) b by (intro exI[of _ m'] exI[of _ ?ps]) simp
qed

text \<open>
  C21: On a well-formed batch whose expert ids are below 128, \<open>sort_by_expert\<close> makes no access out of
  range and returns positions that are a permutation of the batch: every token ends up at its position with
  all its fields, the tokens are ordered by expert, and tokens of the same expert keep their order.
\<close>

theorem sort_by_expert_stable:
  assumes "md_wf m" and "expert_ids_ok (md_exps m)"
  shows "\<exists>m' ps. sort_by_expert m = Ok (m', ps) \<and> md_wf m' \<and> length ps = length (md_exps m) \<and> bij_positions ps
    \<and> (\<forall>i < length ps. same_token m i m' (nat (ps ! i))) \<and> sorted (md_exps m')
    \<and> (\<forall>i j. i < j \<and> j < length ps \<and> md_exps m ! i = md_exps m ! j \<longrightarrow> ps ! i < ps ! j)"
  by (rule sort_by_expert_sorts[OF assms])

definition demo_batch :: "int metadata" where
  "demo_batch = \<lparr> md_tag = EXPERT, md_rows = 4, md_dim = 8, md_dtype = ''bf16'', md_layer = 1, md_reqs = [10, 11, 12, 13], md_exps = [5, 0, 5, 2],
     md_weights = [50, 51, 52, 53], md_ranks = [0, 1, 0, 1], md_prefills = [- 1, 3, - 1, - 1], md_prefill_seqs = None,
     md_prefill_tokens = None, md_decode_tokens = None \<rparr>"

theorem sort_by_expert_stable_witness:
  "\<exists>m' ps. sort_by_expert demo_batch = Ok (m', ps) \<and> sorted (md_exps m') \<and> same_token demo_batch 2 m' (nat (ps ! 2)) \<and> ps ! 0 < ps ! 2"
proof -
  have "md_wf demo_batch" "expert_ids_ok (md_exps demo_batch)" by (simp_all add: md_wf_def demo_batch_def expert_ids_ok_def max_num_experts_def)
  from sort_by_expert_stable[OF this] obtain m' ps where
    "sort_by_expert demo_batch = Ok (m', ps)" "length ps = 4" "\<forall>i < length ps. same_token demo_batch i m' (nat (ps ! i))" "sorted (md_exps m')"
    "\<forall>i j. i < j \<and> j < length ps \<and> md_exps demo_batch ! i = md_exps demo_batch ! j \<longrightarrow> ps ! i < ps ! j"
    by (auto simp: demo_batch_def)
  then show ?thesis by (intro exI[of _ m'] exI[of _ ps]) (simp add: demo_batch_def)
qed

section \<open>Merging is sorting the concatenation\<close>

definition md_concat :: "'w metadata list \<Rightarrow> 'w metadata" where
  "md_concat metas =
     \<lparr> md_tag = EXPERT, md_rows = sum_list (map md_rows metas), md_dim = md_dim (hd metas), md_dtype = md_dtype (hd metas), md_layer = md_layer (hd metas),
       md_reqs = concat (map md_reqs metas), md_exps = concat (map md_exps metas), md_weights = concat (map md_weights metas),
       md_ranks = concat (map md_ranks metas), md_prefills = concat (map md_prefills metas),
       md_prefill_seqs = None, md_prefill_tokens = None, md_decode_tokens = None \<rparr>"

definition md_full :: "'w metadata \<Rightarrow> bool" where
  "md_full m \<longleftrightarrow> md_wf m \<and> length (md_weights m) = length (md_exps m)"

lemma foldM_nested:
  "foldM (\<lambda>s m. foldM (\<lambda>s i. f s (m, i)) s (g m)) s ms = foldM f s (concat (map (\<lambda>m. map (Pair m) (g m)) ms))"
proof -
  have "foldM (\<lambda>s i. f s (m, i)) s is = foldM f s (map (Pair m) is)" for s m "is"
    by (induction "is" arbitrary: s) auto
  then show ?thesis by (induction ms arbitrary: s) auto
qed

text \<open>The tokens of the batches in order, and a field of them.\<close>

definition md_tokens :: "'w metadata list \<Rightarrow> ('w metadata \<times> int) list" where
  "md_tokens metas = concat (map (\<lambda>m. map (Pair m) [0..md_rows m - 1]) metas)"

lemma map_nth_upto: "n = int (length xs) \<Longrightarrow> map (\<lambda>i. xs ! nat i) [0..n - 1] = xs"
  by (rule nth_equalityI) (auto simp: nth_upto)

lemma tokens_field:
  assumes "\<And>m. m \<in> set metas \<Longrightarrow> md_rows m = int (length (F m))"
  shows "map (\<lambda>(m, i). F m ! nat i) (md_tokens metas) = concat (map F metas)"
  using assms by (induction metas) (auto simp: md_tokens_def comp_def map_nth_upto)

lemma md_tokens_in:
  "mi \<in> set (md_tokens metas) \<Longrightarrow> fst mi \<in> set metas \<and> 0 \<le> snd mi \<and> snd mi < md_rows (fst mi)"
  by (auto simp: md_tokens_def)

lemma count_nested:
  assumes "\<forall>m \<in> set metas. md_wf m"
  shows "foldM (\<lambda>c m. rbind (c_assert (md_rows m = int (length (md_exps m)))) (\<lambda>_. count_experts c (md_exps m))) cs metas
    = count_experts cs (concat (map md_exps metas))"
  using assms by (induction metas arbitrary: cs) (auto simp: md_wf_def count_experts_def)

lemma merge_nested:
  "foldM (\<lambda>st m. foldM (\<lambda>st i. merge_token st (m, i)) st [0..md_rows m - 1]) st metas = foldM merge_token st (md_tokens metas)"
  unfolding md_tokens_def by (rule foldM_nested)

text \<open>The state of the merge loop when \<open>j\<close> tokens are placed.\<close>

definition merge_inv :: "'w::zero metadata \<Rightarrow> nat \<Rightarrow> 'w merge_state \<Rightarrow> bool" where
  "merge_inv c j st \<longleftrightarrow>
     (let es = md_exps c; ps = stable_positions es in
      mg_counts st = counters es (take j es) \<and> mg_idx st = j
      \<and> mg_positions st = map (\<lambda>i. if i < j then stable_position es i else 0) [0..<length es]
      \<and> placed j ps (md_reqs c) (mg_reqs st) \<and> placed j ps es (mg_exps st) \<and> placed j ps (md_ranks c) (mg_ranks st)
      \<and> placed j ps (md_prefills c) (mg_prefills st) \<and> placed j ps (md_weights c) (mg_weights st))"

lemma token_get:
  assumes "\<And>m. m \<in> set metas \<Longrightarrow> md_rows m = int (length (F m))" and "j < length (md_tokens metas)" and "md_tokens metas ! j = (m, i)"
  shows "vec_get (F m) i = Ok (concat (map F metas) ! j)"
proof -
  have "m \<in> set metas" "0 \<le> i" "i < md_rows m" using md_tokens_in[of "(m, i)" metas] nth_mem[OF assms(2)] assms(3) by auto
  then have "vec_get (F m) i = Ok (F m ! nat i)" using assms(1)[of m] by (simp add: vec_get_def)
  moreover have "map (\<lambda>(m, i). F m ! nat i) (md_tokens metas) ! j = F m ! nat i" using assms(2,3) by simp
  ultimately show ?thesis using tokens_field[OF assms(1)] by simp
qed

lemma md_full_rows:
  assumes "md_full m"
  shows "md_rows m = int (length (md_exps m))" "md_rows m = int (length (md_reqs m))" "md_rows m = int (length (md_ranks m))"
    "md_rows m = int (length (md_prefills m))" "md_rows m = int (length (md_weights m))"
  using assms by (simp_all add: md_full_def md_wf_def)

lemma merge_token_inv:
  assumes full: "\<forall>m \<in> set metas. md_full m" and ok: "expert_ids_ok (md_exps c)" and c: "c = md_concat metas"
    and inv: "merge_inv c j st" and j: "j < length (md_exps c)" and len: "length (md_tokens metas) = length (md_exps c)"
  shows "\<exists>st'. merge_token st (md_tokens metas ! j) = Ok st' \<and> merge_inv c (Suc j) st'"
proof -
  obtain m i where mi: "md_tokens metas ! j = (m, i)" by (cases "md_tokens metas ! j")
  have jt: "j < length (md_tokens metas)" using j len by simp
  note tg = token_get[OF _ jt mi]
  note rows = md_full_rows[OF full[rule_format]]
  have get: "vec_get (md_exps m) i = Ok (md_exps c ! j)" "vec_get (md_reqs m) i = Ok (md_reqs c ! j)" "vec_get (md_ranks m) i = Ok (md_ranks c ! j)"
    "vec_get (md_prefills m) i = Ok (md_prefills c ! j)" "vec_get (md_weights m) i = Ok (md_weights c ! j)"
    unfolding c md_concat_def metadata.simps by (rule tg, erule rows)+
  have ne: "md_weights m \<noteq> []" using get(5) by (auto simp: res_simps)
  let ?es = "md_exps c"
  let ?ps = "stable_positions ?es"
  have e: "0 \<le> ?es ! j" "?es ! j < int max_num_experts" using ok j by (auto simp: expert_ids_ok_def)
  have t: "take_position (counters ?es (take j ?es)) (?es ! j) = Ok (counters ?es (take (Suc j) ?es), ?ps ! j)"
    using take_position_counters[OF ok e] j by (simp add: stable_position_def take_Suc_conv_app_nth)
  have s: "vec_set (map (\<lambda>i. if i < j then stable_position ?es i else 0) [0..<length ?es]) (int j) (?ps ! j)
      = Ok (map (\<lambda>i. if i < Suc j then stable_position ?es i else 0) [0..<length ?es])"
    using j by (auto intro!: nth_equalityI simp: nth_list_update less_Suc_eq)
  have j': "j < length ?ps" using j by simp
  have I: "mg_counts st = counters ?es (take j ?es)" "mg_idx st = j" "mg_positions st = map (\<lambda>i. if i < j then stable_position ?es i else 0) [0..<length ?es]"
    and P: "placed j ?ps (md_reqs c) (mg_reqs st)" "placed j ?ps ?es (mg_exps st)" "placed j ?ps (md_ranks c) (mg_ranks st)"
      "placed j ?ps (md_prefills c) (mg_prefills st)" "placed j ?ps (md_weights c) (mg_weights st)"
    using inv by (simp_all add: merge_inv_def Let_def)
  note w1 = P[THEN placed_step(1)[OF stable_positions_bij _ j']] and w2 = P[THEN placed_step(2)[OF stable_positions_bij _ j']]
  show ?thesis
    unfolding mi merge_token_def Let_def prod.case get rbind_Ok I t s w1 if_not_P[OF ne] merge_inv_def
    by (rule exI, rule conjI, rule refl) (simp add: w2 del: stable_positions_nth)
qed

lemma merge_loop:
  assumes "\<forall>m \<in> set metas. md_full m" and "expert_ids_ok (md_exps (md_concat metas))" and "merge_inv (md_concat metas) 0 st"
    and "j \<le> length (md_exps (md_concat metas))" and "length (md_tokens metas) = length (md_exps (md_concat metas))"
  shows "\<exists>st'. foldM merge_token st (take j (md_tokens metas)) = Ok st' \<and> merge_inv (md_concat metas) j st'"
  using assms(4)
proof (induction j)
  case 0
  then show ?case using assms(3) by simp
next
  case (Suc j)
  then obtain st' where "foldM merge_token st (take j (md_tokens metas)) = Ok st'" "merge_inv (md_concat metas) j st'" by auto
  with merge_token_inv[OF assms(1,2) refl this(2) _ assms(5)] Suc.prems show ?case
    using assms(5) by (auto simp: take_Suc_conv_app_nth)
qed

lemma rows_length:
  assumes "\<And>m. m \<in> set metas \<Longrightarrow> md_rows m = int (length (F m))"
  shows "int (length (concat (map F metas))) = sum_list (map md_rows metas)"
  using assms by (induction metas) auto

lemma md_concat_wf:
  assumes "\<forall>m \<in> set metas. md_full m"
  shows "md_wf (md_concat metas)" and "length (md_weights (md_concat metas)) = length (md_exps (md_concat metas))"
proof -
  have rows: "\<And>m. m \<in> set metas \<Longrightarrow> md_rows m = int (length (md_exps m)) \<and> md_rows m = int (length (md_reqs m)) \<and> md_rows m = int (length (md_ranks m))
      \<and> md_rows m = int (length (md_prefills m)) \<and> md_rows m = int (length (md_weights m))"
    using assms by (auto simp: md_full_def md_wf_def)
  have l: "int (length (concat (map md_exps metas))) = sum_list (map md_rows metas)" "int (length (concat (map md_reqs metas))) = sum_list (map md_rows metas)"
    "int (length (concat (map md_ranks metas))) = sum_list (map md_rows metas)" "int (length (concat (map md_prefills metas))) = sum_list (map md_rows metas)"
    "int (length (concat (map md_weights metas))) = sum_list (map md_rows metas)"
    by (rule rows_length, drule rows, simp)+
  show "md_wf (md_concat metas)" "length (md_weights (md_concat metas)) = length (md_exps (md_concat metas))"
    unfolding md_wf_def md_concat_def metadata.simps using l by linarith+
qed

lemma merge_inv_start:
  assumes "expert_ids_ok (md_exps c)" and "n = length (md_exps c)"
  shows "merge_inv c 0 \<lparr> mg_counts = (fst (counters (md_exps c) []), 0), mg_idx = 0, mg_positions = replicate n 0, mg_reqs = replicate n 0,
    mg_exps = replicate n 0, mg_ranks = replicate n 0, mg_prefills = replicate n 0, mg_weights = replicate n 0 \<rparr>"
proof -
  have "map (\<lambda>i. 0 :: int) [0..<n] = replicate n 0" by (rule map_replicate_trivial)
  then show ?thesis
    using prepared_counters(2)[OF assms(1)] assms(2) by (simp add: merge_inv_def Let_def placed_0 prod_eq_iff)
qed

lemma merge_by_expert_eq:
  assumes "metas \<noteq> []" and "\<forall>m \<in> set metas. md_full m" and "expert_ids_ok (concat (map md_exps metas))"
  shows "merge_by_expert metas = sort_by_expert (md_concat metas) \<and> \<not> isl (merge_by_expert metas)"
proof -
  let ?c = "md_concat metas"
  let ?n = "length (md_exps ?c)"
  let ?ps = "stable_positions (md_exps ?c)"
  have es: "concat (map md_exps metas) = md_exps ?c" by (simp add: md_concat_def)
  note ok = assms(3)[unfolded es]
  note wf = md_concat_wf[OF assms(2)]
  note b = stable_positions_bij[of "md_exps ?c"]
  have tot: "sum_list (map md_rows metas) = int ?n" using wf(1) by (simp add: md_wf_def md_concat_def)
  have tl: "length (md_tokens metas) = ?n"
  proof -
    have "map (\<lambda>(m, i). md_exps m ! nat i) (md_tokens metas) = md_exps ?c"
      unfolding es[symmetric] by (rule tokens_field) (use assms(2) in \<open>simp add: md_full_def md_wf_def\<close>)
    then have "length (map (\<lambda>(m, i). md_exps m ! nat i) (md_tokens metas)) = ?n" by (rule arg_cong)
    then show ?thesis by simp
  qed
  have cn: "foldM (\<lambda>c m. rbind (c_assert (md_rows m = int (length (md_exps m)))) (\<lambda>_. count_experts c (md_exps m))) cs metas = count_experts cs (md_exps ?c)" for cs
    using count_nested[of metas cs] assms(2) es by (simp add: md_full_def)
  obtain cnts where cnts: "count_experts (replicate max_num_experts 0) (md_exps ?c) = Ok cnts" "accumulate_counts cnts = Ok (fst (counters (md_exps ?c) []))"
    using prepared_counters(1)[OF ok] by (auto simp: res_simps)
  obtain st where st: "foldM (\<lambda>st m. foldM (\<lambda>st i. merge_token st (m, i)) st [0..md_rows m - 1])
      \<lparr> mg_counts = (fst (counters (md_exps ?c) []), 0), mg_idx = 0, mg_positions = replicate ?n 0, mg_reqs = replicate ?n 0,
        mg_exps = replicate ?n 0, mg_ranks = replicate ?n 0, mg_prefills = replicate ?n 0, mg_weights = replicate ?n 0 \<rparr> metas = Ok st"
    and inv: "merge_inv ?c ?n st"
    using merge_loop[OF assms(2) ok merge_inv_start[OF ok refl] le_refl tl] unfolding merge_nested tl[symmetric] take_all[OF le_refl] by blast
  obtain m' where m': "permute_token_infos ?c ?ps = Ok m'" "placed (length ?ps) ?ps (md_reqs ?c) (md_reqs m')"
    "placed (length ?ps) ?ps (md_exps ?c) (md_exps m')" "placed (length ?ps) ?ps (md_ranks ?c) (md_ranks m')"
    "placed (length ?ps) ?ps (md_prefills ?c) (md_prefills m')" "md_weights ?c = [] \<longrightarrow> md_weights m' = []"
    "md_weights ?c \<noteq> [] \<longrightarrow> placed (length ?ps) ?ps (md_weights ?c) (md_weights m')"
    "m' = ?c\<lparr>md_reqs := md_reqs m', md_exps := md_exps m', md_ranks := md_ranks m', md_prefills := md_prefills m', md_weights := md_weights m'\<rparr>"
    using permute_token_infos_placed[OF b wf(1)] by auto
  note I = inv[unfolded merge_inv_def Let_def]
  have f: "mg_reqs st = md_reqs m'" "mg_exps st = md_exps m'" "mg_ranks st = md_ranks m'" "mg_prefills st = md_prefills m'"
    using I m'(2-5) placed_unique[OF b] by auto
  have w: "mg_weights st = md_weights m'"
    using I m'(6,7) placed_unique[OF b, of "md_weights ?c"] wf(2) by (cases "md_weights ?c = []") (auto simp: placed_def)
  have p: "mg_positions st = ?ps" using I by (auto simp: stable_positions_def)
  have rec: "\<lparr> md_tag = EXPERT, md_rows = int ?n, md_dim = md_dim (hd metas), md_dtype = md_dtype (hd metas), md_layer = md_layer (hd metas),
      md_reqs = md_reqs m', md_exps = md_exps m', md_weights = md_weights m', md_ranks = md_ranks m', md_prefills = md_prefills m',
      md_prefill_seqs = None, md_prefill_tokens = None, md_decode_tokens = None \<rparr> = m'"
    by (subst (6) m'(8)) (simp add: md_concat_def tot[unfolded md_concat_def, simplified, symmetric])
  have "merge_by_expert metas = Ok (m', ?ps)"
    unfolding merge_by_expert_def Let_def tot nat_int cn cnts(1) rbind_Ok cnts(2) st f w p rec
    using assms(1) by simp
  then show ?thesis using sort_by_expert_eq[OF wf(1) ok] m'(1) by simp
qed

text \<open>
  C22: \<open>merge_by_expert\<close> of well-formed batches with weights and expert ids below 128 makes no access out of
  range and returns exactly what \<open>sort_by_expert\<close> returns on the batches put one after the other: the same metadata and
  the same positions.
\<close>

theorem merge_by_expert_sorts_concat:
  assumes "metas \<noteq> []" and "\<forall>m \<in> set metas. md_full m" and "expert_ids_ok (concat (map md_exps metas))"
  shows "merge_by_expert metas = sort_by_expert (md_concat metas) \<and> \<not> isl (merge_by_expert metas)"
  by (rule merge_by_expert_eq[OF assms])

definition demo_batch2 :: "int metadata" where
  "demo_batch2 = demo_batch\<lparr>md_exps := [1, 5, 0, 0]\<rparr>"

theorem merge_by_expert_sorts_concat_witness:
  "merge_by_expert [demo_batch, demo_batch2] = sort_by_expert (md_concat [demo_batch, demo_batch2])"
proof -
  have f: "\<forall>m \<in> set [demo_batch, demo_batch2]. md_full m" by (simp add: md_full_def md_wf_def demo_batch_def demo_batch2_def)
  have e: "expert_ids_ok (concat (map md_exps [demo_batch, demo_batch2]))"
    by (simp add: expert_ids_ok_def demo_batch_def demo_batch2_def max_num_experts_def)
  have "[demo_batch, demo_batch2] \<noteq> []" by simp
  from merge_by_expert_sorts_concat[OF this f e] show ?thesis by (rule conjunct1)
qed

section \<open>Splitting by destination\<close>

text \<open>A batch whose lists cover its rows; the lists a batch does not use are empty.\<close>

definition covers_rows :: "'w metadata \<Rightarrow> 'a list \<Rightarrow> bool" where
  "covers_rows m xs \<longleftrightarrow> int (length xs) = md_rows m"

definition md_shape :: "'w metadata \<Rightarrow> bool" where
  "md_shape m \<longleftrightarrow> covers_rows m (md_reqs m) \<and> covers_rows m (md_prefills m) \<and> (md_exps m = [] \<or> covers_rows m (md_exps m))
     \<and> (md_weights m = [] \<or> covers_rows m (md_weights m)) \<and> (md_ranks m = [] \<or> covers_rows m (md_ranks m))"

definition destinations :: "'w metadata \<Rightarrow> int list" where
  "destinations m = (if md_tag m = EXPERT then md_exps m else md_ranks m)"

lemma split_from_Ok:
  assumes "\<forall>s \<in> set sizes. 0 \<le> s" and "0 \<le> base" and "base + sum_list sizes = int (length vec)"
  shows "\<exists>parts. split_from vec base sizes = Ok parts \<and> concat parts = drop (nat base) vec \<and> map (\<lambda>p. int (length p)) parts = sizes"
  using assms
proof (induction sizes arbitrary: base)
  case Nil
  then show ?case by simp
next
  case (Cons s sizes)
  have "0 \<le> sum_list sizes" using Cons.prems(1) by (simp add: sum_list_nonneg)
  then have le: "base + s \<le> int (length vec)" using Cons.prems(3) by simp
  obtain parts where p: "split_from vec (base + s) sizes = Ok parts" "concat parts = drop (nat (base + s)) vec" "map (\<lambda>p. int (length p)) parts = sizes"
    using Cons.IH[of "base + s"] Cons.prems by auto
  have "drop (nat (base + s)) vec = drop (nat s) (drop (nat base) vec)" using Cons.prems(1,2) by (simp add: nat_add_distrib add.commute)
  then have "take (nat s) (drop (nat base) vec) @ drop (nat (base + s)) vec = drop (nat base) vec" by (simp only: append_take_drop_id)
  then show ?case using p le Cons.prems(1,2) by auto
qed

lemma split_vector_Ok:
  assumes "\<forall>s \<in> set sizes. 0 \<le> s" and "xs = [] \<or> sum_list sizes = int (length xs)"
  shows "\<exists>parts. split_vector_by_size xs sizes = Ok parts \<and> concat parts = xs \<and> length parts = length sizes
    \<and> (xs \<noteq> [] \<longrightarrow> map (\<lambda>p. int (length p)) parts = sizes)"
proof (cases "xs = []")
  case False
  then obtain parts where p: "split_from xs 0 sizes = Ok parts" "concat parts = xs" "map (\<lambda>p. int (length p)) parts = sizes"
    using split_from_Ok[OF assms(1), of 0 xs] assms(2) by auto
  then have "length parts = length sizes" using length_map by metis
  then show ?thesis using p False by (simp add: split_vector_by_size_def)
qed (simp add: split_vector_by_size_def)

text \<open>Consecutive chunks of a list, each of one value and not empty.\<close>

fun uniform_chunks :: "'a list \<Rightarrow> int list \<Rightarrow> bool" where
  "uniform_chunks xs [] \<longleftrightarrow> xs = []"
| "uniform_chunks xs (s # sizes) \<longleftrightarrow> 0 < s \<and> s \<le> int (length xs) \<and> (\<forall>x \<in> set (take (nat s) xs). x = hd xs) \<and> uniform_chunks (drop (nat s) xs) sizes"

lemma uniform_chunks_snoc:
  assumes "uniform_chunks xs sizes" and "ys \<noteq> []" and "\<forall>y \<in> set ys. y = hd ys"
  shows "uniform_chunks (xs @ ys) (sizes @ [int (length ys)])"
  using assms
proof (induction sizes arbitrary: xs)
  case Nil
  then show ?case by simp
next
  case (Cons s sizes)
  then have "xs \<noteq> []" by auto
  moreover have "nat s - length xs = 0" using Cons.prems(1) by (auto simp: nat_le_iff)
  ultimately show ?case using Cons by simp
qed

lemma uniform_chunks_sum: "uniform_chunks xs sizes \<Longrightarrow> sum_list sizes = int (length xs) \<and> (\<forall>s \<in> set sizes. 0 < s)"
  by (induction sizes arbitrary: xs) auto

lemma uniform_chunks_parts:
  "uniform_chunks (concat parts) (map (\<lambda>p. int (length p)) parts) \<Longrightarrow> \<forall>p \<in> set parts. p \<noteq> [] \<and> (\<forall>x \<in> set p. x = hd p)"
  by (induction parts) auto

text \<open>The loop of \<open>get_chunk_sizes\<close>: chunks up to \<open>last\<close>, then one open chunk.\<close>

lemma chunk_loop:
  assumes "0 < k" and "k \<le> length xs"
  shows "\<exists>sizes l. foldM (chunk_step xs) ([], 0) [1..int k - 1] = Ok (sizes, int l)
    \<and> l < k \<and> uniform_chunks (take l xs) sizes \<and> (\<forall>i. l \<le> i \<and> i < k \<longrightarrow> xs ! i = xs ! l)"
  using assms
proof (induction k rule: nat_induct_non_zero)
  case 1
  show ?case by (rule exI[of _ "[]"], rule exI[of _ 0]) simp
next
  case (Suc k)
  obtain sizes l where l: "foldM (chunk_step xs) ([], 0) [1..int k - 1] = Ok (sizes, int l)" "l < k" "uniform_chunks (take l xs) sizes"
    "\<forall>i. l \<le> i \<and> i < k \<longrightarrow> xs ! i = xs ! l" using Suc.IH[OF Suc_leD[OF Suc.prems]] by blast
  have u: "[1..int (Suc k) - 1] = [1..int k - 1] @ [int k]" using upto_rec2[of 1 "int k"] Suc.hyps by simp
  have g: "vec_get xs (int k) = Ok (xs ! k)" "vec_get xs (int k - 1) = Ok (xs ! (k - 1))"
  proof -
    have e: "int k - 1 = int (k - 1)" using Suc.hyps by simp
    have "k < length xs" "k - 1 < length xs" using Suc.prems by simp_all
    then show "vec_get xs (int k) = Ok (xs ! k)" "vec_get xs (int k - 1) = Ok (xs ! (k - 1))" unfolding e by (simp_all only: vec_get_in)
  qed
  have prev: "xs ! (k - 1) = xs ! l" using l(2) l(4)[rule_format, of "k - 1"] by simp
  have st: "foldM (chunk_step xs) ([], 0) [1..int (Suc k) - 1] = Ok (if xs ! k \<noteq> xs ! l then (sizes @ [int k - int l], int k) else (sizes, int l))"
  proof -
    have "chunk_step xs (sizes, int l) (int k) = Ok (if xs ! k \<noteq> xs ! l then (sizes @ [int k - int l], int k) else (sizes, int l))"
      by (simp only: chunk_step_def Let_def prod.case g rbind_Ok prev)
    then show ?thesis by (simp only: u foldM_append l(1) rbind_Ok foldM.simps)
  qed
  show ?case
  proof (cases "xs ! k = xs ! l")
    case True
    show ?thesis
    proof (intro exI conjI)
      show "foldM (chunk_step xs) ([], 0) [1..int (Suc k) - 1] = Ok (sizes, int l)" unfolding st using True by simp
      show "l < Suc k" "uniform_chunks (take l xs) sizes" using l(2,3) by simp_all
      show "\<forall>i. l \<le> i \<and> i < Suc k \<longrightarrow> xs ! i = xs ! l" using l(4) True by (metis less_SucE)
    qed
  next
    case False
    define ys where "ys = take (k - l) (drop l xs)"
    have len: "length ys = k - l" using Suc.prems by (simp add: ys_def)
    have ys: "ys \<noteq> []" using len l(2) by auto
    have nth: "ys ! i = xs ! l" if "i < k - l" for i
    proof -
      have "ys ! i = xs ! (l + i)" using that Suc.prems l(2) by (simp add: ys_def)
      also have "\<dots> = xs ! l" using that by (intro l(4)[rule_format]) simp
      finally show ?thesis .
    qed
    then have "hd ys = xs ! l" using len l(2) ys by (simp add: hd_conv_nth)
    then have "\<forall>y \<in> set ys. y = hd ys" using nth len by (metis in_set_conv_nth)
    from uniform_chunks_snoc[OF l(3) ys this] have "uniform_chunks (take l xs @ ys) (sizes @ [int k - int l])"
      using len l(2) by (simp add: of_nat_diff)
    moreover have "take l xs @ ys = take k xs" using take_add[of l "k - l" xs] l(2) by (simp add: ys_def)
    ultimately have c: "uniform_chunks (take k xs) (sizes @ [int k - int l])" by simp
    show ?thesis
    proof (intro exI conjI)
      show "foldM (chunk_step xs) ([], 0) [1..int (Suc k) - 1] = Ok (sizes @ [int k - int l], int k)" unfolding st using False by simp
      show "k < Suc k" "uniform_chunks (take k xs) (sizes @ [int k - int l])" using c by simp_all
      show "\<forall>i. k \<le> i \<and> i < Suc k \<longrightarrow> xs ! i = xs ! k" by (metis le_less_Suc_eq)
    qed
  qed
qed

lemma chunk_sizes_uniform:
  assumes "covers_rows m (destinations m)" and "0 < md_rows m"
  shows "\<exists>sizes. get_chunk_sizes m = Ok sizes \<and> uniform_chunks (destinations m) sizes"
proof -
  let ?xs = "destinations m"
  let ?n = "length ?xs"
  have n: "md_rows m = int ?n" "0 < ?n" using assms by (auto simp: covers_rows_def)
  obtain sizes l where l: "foldM (chunk_step ?xs) ([], 0) [1..int ?n - 1] = Ok (sizes, int l)"
    "l < ?n" "uniform_chunks (take l ?xs) sizes" "\<forall>i. l \<le> i \<and> i < ?n \<longrightarrow> ?xs ! i = ?xs ! l"
    using chunk_loop[OF n(2) le_refl] by blast
  have ne: "drop l ?xs \<noteq> []" using l(2) by simp
  have "y = hd (drop l ?xs)" if y: "y \<in> set (drop l ?xs)" for y
  proof -
    obtain i where i: "i < length (drop l ?xs)" "y = drop l ?xs ! i" using y by (metis in_set_conv_nth)
    then have "y = ?xs ! (l + i)" by simp
    also have "\<dots> = ?xs ! l" using i(1) by (intro l(4)[rule_format]) simp
    also have "\<dots> = hd (drop l ?xs)" using l(2) by (simp add: hd_drop_conv_nth)
    finally show ?thesis .
  qed
  then have "\<forall>y \<in> set (drop l ?xs). y = hd (drop l ?xs)" by blast
  from uniform_chunks_snoc[OF l(3) ne this] have "uniform_chunks ?xs (sizes @ [int ?n - int l])" using l(2) by (simp add: of_nat_diff)
  moreover have "get_chunk_sizes m = Ok (sizes @ [int ?n - int l])"
    unfolding get_chunk_sizes_def Let_def destinations_def[symmetric] n(1) l(1) by simp
  ultimately show ?thesis by blast
qed

definition part_ok :: "'w metadata \<Rightarrow> bool" where
  "part_ok p \<longleftrightarrow> (\<forall>x \<in> set (destinations p). x = hd (destinations p)) \<and> destinations p \<noteq> [] \<and> md_shape p \<and> covers_rows p (destinations p)
     \<and> (md_tag p = ATTENTION \<longrightarrow> attention_batch_safe_check p \<and> md_prefill_seqs p = Some (int (length (filter (\<lambda>l. l \<noteq> - 1) (md_prefills p))))
          \<and> md_decode_tokens p = Some (int (length (filter (\<lambda>l. l = - 1) (md_prefills p)))))"

lemma length_filter_compl_int: "int (length xs) - int (length (filter (\<lambda>x. \<not> P x) xs)) = int (length (filter P xs))"
  using sum_length_filter_compl[of P xs] by simp

text \<open>The pieces of one list: they put it together again, and each has the size asked for unless the list is unused.\<close>

definition pieces :: "int list \<Rightarrow> 'a list \<Rightarrow> 'a list list \<Rightarrow> bool" where
  "pieces sizes xs ps \<longleftrightarrow> concat ps = xs \<and> length ps = length sizes \<and> (\<forall>i < length sizes. ps ! i = [] \<and> xs = [] \<or> int (length (ps ! i)) = sizes ! i)"

lemma split_pieces:
  assumes "\<forall>s \<in> set sizes. 0 \<le> s" and "xs = [] \<or> sum_list sizes = int (length xs)"
  shows "\<exists>ps. split_vector_by_size xs sizes = Ok ps \<and> pieces sizes xs ps"
proof -
  obtain ps where ps: "split_vector_by_size xs sizes = Ok ps" "concat ps = xs" "length ps = length sizes"
    "xs \<noteq> [] \<longrightarrow> map (\<lambda>p. int (length p)) ps = sizes" using split_vector_Ok[OF assms] by blast
  have "ps ! i = [] \<and> xs = [] \<or> int (length (ps ! i)) = sizes ! i" if "i < length sizes" for i
  proof (cases "xs = []")
    case True
    then show ?thesis using ps(2,3) that by auto
  next
    case False
    then show ?thesis using ps(3,4) that by (metis nth_map)
  qed
  then show ?thesis using ps by (auto simp: pieces_def)
qed

lemma row_pieces:
  assumes "sum_list sizes = md_rows m" and "\<forall>s \<in> set sizes. 0 \<le> s" and "xs = [] \<or> covers_rows m xs"
  shows "\<exists>ps. split_vector_by_size xs sizes = Ok ps \<and> pieces sizes xs ps"
  by (rule split_pieces[OF assms(2)]) (use assms(1,3) in \<open>auto simp: covers_rows_def\<close>)

lemma split_parts_fields:
  assumes "length R = length sizes" "length E = length sizes" "length W = length sizes" "length K = length sizes" "length Q = length sizes"
    and "parts = map (split_part m) (zip sizes (zip R (zip E (zip W (zip K Q)))))"
  shows "map md_reqs parts = R" "map md_exps parts = E" "map md_weights parts = W" "map md_ranks parts = K" "map md_prefills parts = Q"
    "map md_rows parts = sizes" "\<forall>p \<in> set parts. md_tag p = md_tag m"
  using assms by (auto simp: split_part_def Let_def intro!: nth_equalityI dest!: in_set_zipE)

lemma split_part_counts:
  assumes "md_tag m = ATTENTION" and "int (length pre) = n"
  shows "attention_batch_safe_check (split_part m (n, reqs, exps, ws, ranks, pre))"
    and "md_prefill_seqs (split_part m (n, reqs, exps, ws, ranks, pre)) = Some (int (length (filter (\<lambda>l. l \<noteq> - 1) pre)))"
    and "md_decode_tokens (split_part m (n, reqs, exps, ws, ranks, pre)) = Some (int (length (filter (\<lambda>l. l = - 1) pre)))"
  using assms length_filter_compl_int[of pre "\<lambda>l. l = - 1"] by (simp_all add: split_part_def Let_def attention_batch_safe_check_def)

lemma split_part_at:
  assumes "pieces sizes (md_reqs m) R" "pieces sizes (md_exps m) E" "pieces sizes (md_weights m) W" "pieces sizes (md_ranks m) K"
    and "pieces sizes (md_prefills m) Q" and "md_reqs m \<noteq> []" and "md_prefills m \<noteq> []" and "destinations m \<noteq> []" and "i < length sizes"
    and "\<forall>p \<in> set (if md_tag m = EXPERT then E else K). p \<noteq> [] \<and> (\<forall>x \<in> set p. x = hd p)"
  shows "part_ok (split_part m (sizes ! i, R ! i, E ! i, W ! i, K ! i, Q ! i))"
proof -
  let ?p = "split_part m (sizes ! i, R ! i, E ! i, W ! i, K ! i, Q ! i)"
  have f: "md_reqs ?p = R ! i" "md_exps ?p = E ! i" "md_weights ?p = W ! i" "md_ranks ?p = K ! i" "md_prefills ?p = Q ! i"
    "md_rows ?p = sizes ! i" "md_tag ?p = md_tag m"
    by (simp_all add: split_part_def Let_def)
  have len: "int (length (R ! i)) = sizes ! i" "int (length (Q ! i)) = sizes ! i" "E ! i = [] \<or> int (length (E ! i)) = sizes ! i"
    "W ! i = [] \<or> int (length (W ! i)) = sizes ! i" "K ! i = [] \<or> int (length (K ! i)) = sizes ! i"
    using assms(1-7,9) by (auto simp: pieces_def)
  define D where "D = (if md_tag m = EXPERT then E else K)"
  have "length D = length sizes" using assms(2,4) by (auto simp: D_def pieces_def)
  then have "D ! i \<in> set D" using assms(9) by simp
  then have "D ! i \<noteq> [] \<and> (\<forall>x \<in> set (D ! i). x = hd (D ! i))" using assms(10) by (simp add: D_def)
  moreover have "destinations ?p = D ! i" by (simp add: destinations_def f D_def)
  moreover have "int (length (D ! i)) = sizes ! i" using len(3,5) calculation(1) by (auto simp: D_def split: if_splits)
  ultimately show ?thesis
    using len split_part_counts[of m "Q ! i" "sizes ! i"]
    by (simp add: part_ok_def md_shape_def covers_rows_def f)
qed

lemma split_destinations:
  assumes "md_shape m" and "covers_rows m (destinations m)" and "0 < md_rows m"
  shows "\<exists>sizes parts. get_chunk_sizes m = Ok sizes \<and> split_with_sizes m sizes = Ok parts \<and> (\<forall>p \<in> set parts. part_ok p)
    \<and> concat (map md_reqs parts) = md_reqs m \<and> concat (map md_exps parts) = md_exps m \<and> concat (map md_weights parts) = md_weights m
    \<and> concat (map md_ranks parts) = md_ranks m \<and> concat (map md_prefills parts) = md_prefills m"
proof -
  obtain sizes where sz: "get_chunk_sizes m = Ok sizes" "uniform_chunks (destinations m) sizes" using chunk_sizes_uniform[OF assms(2,3)] by blast
  have sum: "sum_list sizes = md_rows m" "\<forall>s \<in> set sizes. 0 \<le> s"
    using uniform_chunks_sum[OF sz(2)] assms(2) by (auto simp: covers_rows_def order_less_imp_le)
  obtain R where R: "split_vector_by_size (md_reqs m) sizes = Ok R" "pieces sizes (md_reqs m) R"
    using row_pieces[OF sum] assms(1) unfolding md_shape_def by blast
  obtain E where E: "split_vector_by_size (md_exps m) sizes = Ok E" "pieces sizes (md_exps m) E"
    using row_pieces[OF sum] assms(1) unfolding md_shape_def by blast
  obtain W where W: "split_vector_by_size (md_weights m) sizes = Ok W" "pieces sizes (md_weights m) W"
    using row_pieces[OF sum] assms(1) unfolding md_shape_def by blast
  obtain K where K: "split_vector_by_size (md_ranks m) sizes = Ok K" "pieces sizes (md_ranks m) K"
    using row_pieces[OF sum] assms(1) unfolding md_shape_def by blast
  obtain Q where Q: "split_vector_by_size (md_prefills m) sizes = Ok Q" "pieces sizes (md_prefills m) Q"
    using row_pieces[OF sum] assms(1) unfolding md_shape_def by blast
  define parts where "parts = map (split_part m) (zip sizes (zip R (zip E (zip W (zip K Q)))))"
  have len: "length R = length sizes" "length E = length sizes" "length W = length sizes" "length K = length sizes" "length Q = length sizes"
    using R E W K Q by (simp_all add: pieces_def)
  note fields = split_parts_fields[OF len parts_def]
  have ne: "md_reqs m \<noteq> []" "md_prefills m \<noteq> []" "destinations m \<noteq> []"
    using assms by (auto simp: md_shape_def covers_rows_def)
  have D: "pieces sizes (destinations m) (if md_tag m = EXPERT then E else K)" using E(2) K(2) by (simp add: destinations_def)
  then have "map (\<lambda>p. int (length p)) (if md_tag m = EXPERT then E else K) = sizes"
    using ne(3) by (auto simp: pieces_def intro!: nth_equalityI)
  then have uni: "\<forall>p \<in> set (if md_tag m = EXPERT then E else K). p \<noteq> [] \<and> (\<forall>x \<in> set p. x = hd p)"
    using uniform_chunks_parts sz(2) D unfolding pieces_def by metis
  have "part_ok p" if pin: "p \<in> set parts" for p
  proof -
    obtain i where i: "i < length sizes" "p = split_part m (sizes ! i, R ! i, E ! i, W ! i, K ! i, Q ! i)"
      using pin len by (auto simp: parts_def in_set_conv_nth)
    show ?thesis unfolding i(2) by (rule split_part_at[OF R(2) E(2) W(2) K(2) Q(2) ne i(1) uni])
  qed
  moreover have "split_with_sizes m sizes = Ok parts" using R E W K Q by (simp add: split_with_sizes_def parts_def)
  ultimately show ?thesis using sz(1) fields(1-5) R E W K Q by (intro exI[of _ sizes] exI[of _ parts]) (simp add: pieces_def)
qed

text \<open>
  C23: On a batch that is not empty and whose lists cover its rows, splitting by \<open>get_chunk_sizes\<close> succeeds
  and loses nothing: every part is not empty, has a single destination (an expert, or an attention rank) and correct prefill and decode counts, and
  putting the parts after one another gives back every list of the batch.
\<close>

theorem split_by_destination:
  assumes "md_shape m" and "covers_rows m (destinations m)" and "0 < md_rows m"
  shows "\<exists>sizes parts. get_chunk_sizes m = Ok sizes \<and> split_with_sizes m sizes = Ok parts \<and> (\<forall>p \<in> set parts. part_ok p)
    \<and> concat (map md_reqs parts) = md_reqs m \<and> concat (map md_exps parts) = md_exps m \<and> concat (map md_weights parts) = md_weights m
    \<and> concat (map md_ranks parts) = md_ranks m \<and> concat (map md_prefills parts) = md_prefills m"
  by (rule split_destinations[OF assms])

theorem split_by_destination_witness:
  "\<exists>sizes parts. get_chunk_sizes demo_batch = Ok sizes \<and> split_with_sizes demo_batch sizes = Ok parts \<and> (\<forall>p \<in> set parts. part_ok p)
    \<and> concat (map md_reqs parts) = [10, 11, 12, 13]"
proof -
  have "md_shape demo_batch" "covers_rows demo_batch (destinations demo_batch)" "0 < md_rows demo_batch"
    by (simp_all add: md_shape_def covers_rows_def destinations_def demo_batch_def)
  from split_by_destination[OF this] show ?thesis by (auto simp: demo_batch_def)
qed

end
