(* ===== verification/Datatypes.thy ===== *)
theory Datatypes
  imports Complex_Main Metadata
begin

text \<open>
  \<^verbatim>\<open>disagmoe/frontend/datatypes.py\<close>: the Python side of the batch metadata and its conversion to and from the C++
  struct, the attention schedule batch, the messages between tokenizer, engines and detokenizer, and the
  latency statistics of a request. Times are reals. A batch is its rows and its metadata.
\<close>

section \<open>Channels and batches\<close>

record channel_info =
  ci_expert_ids :: "(int \<times> int) list"
  ci_attn_layer_ids :: "int list"
  ci_attn_dp_rank :: int

record 'w py_metadata =
  pm_shape :: "int list"
  pm_dtype :: string
  pm_layer_id :: int
  pm_req_ids :: "int list"
  pm_exp_ids :: "int list"
  pm_topk_weights :: "'w list"
  pm_attn_dp_ranks :: "int list"
  pm_init_prefill_lens :: "int list"
  pm_num_prefill_seqs :: "int option"
  pm_num_prefill_tokens :: "int option"
  pm_num_decode_tokens :: "int option"

definition metadata_from_c :: "'w metadata \<Rightarrow> 'w py_metadata" where
  "metadata_from_c m =
     \<lparr> pm_shape = [md_rows m, md_dim m], pm_dtype = md_dtype m, pm_layer_id = md_layer m, pm_req_ids = md_reqs m,
       pm_exp_ids = md_exps m, pm_topk_weights = md_weights m, pm_attn_dp_ranks = md_ranks m,
       pm_init_prefill_lens = md_prefills m, pm_num_prefill_seqs = md_prefill_seqs m,
       pm_num_prefill_tokens = md_prefill_tokens m, pm_num_decode_tokens = md_decode_tokens m \<rparr>"

text \<open>
  The C++ object starts value-initialised, so its tag is the first constructor of the enumeration, and no assignment changes
  it. The struct of the model has exactly two dimensions.
\<close>

definition metadata_to_c :: "'w py_metadata \<Rightarrow> 'w metadata res" where
  "metadata_to_c p =
     (case pm_shape p of
        [n, d] \<Rightarrow> Ok \<lparr> md_tag = ATTENTION, md_rows = n, md_dim = d, md_dtype = pm_dtype p, md_layer = pm_layer_id p,
          md_reqs = pm_req_ids p, md_exps = pm_exp_ids p, md_weights = pm_topk_weights p, md_ranks = pm_attn_dp_ranks p,
          md_prefills = pm_init_prefill_lens p, md_prefill_seqs = pm_num_prefill_seqs p,
          md_prefill_tokens = pm_num_prefill_tokens p, md_decode_tokens = pm_num_decode_tokens p \<rparr>
      | _ \<Rightarrow> Raise IndexError)"

record ('h, 'w) token_batch =
  tb_data :: "'h list"
  tb_meta :: "'w metadata"

record ('h, 'w) schedule_batch =
  sb_shape :: "int list"
  sb_dtype :: string
  sb_layer_id :: int
  sb_req_ids :: "int list"
  sb_init_prefill_lens :: "int list"
  sb_num_prefill_seqs :: "int option"
  sb_num_prefill_tokens :: "int option"
  sb_num_decode_tokens :: "int option"
  sb_data :: "'h list"
  sb_meta_c :: "'w metadata"

definition sb_build :: "'w metadata \<Rightarrow> 'h list \<Rightarrow> ('h, 'w) schedule_batch" where
  "sb_build m data =
     \<lparr> sb_shape = [md_rows m, md_dim m], sb_dtype = md_dtype m, sb_layer_id = md_layer m, sb_req_ids = md_reqs m,
       sb_init_prefill_lens = md_prefills m, sb_num_prefill_seqs = md_prefill_seqs m, sb_num_prefill_tokens = md_prefill_tokens m,
       sb_num_decode_tokens = md_decode_tokens m, sb_data = data, sb_meta_c = m \<rparr>"

text \<open>Adding \<open>None\<close> raises.\<close>

definition sb_num_tokens :: "('h, 'w) schedule_batch \<Rightarrow> int res" where
  "sb_num_tokens b =
     (case (sb_num_decode_tokens b, sb_num_prefill_tokens b) of (Some d, Some p) \<Rightarrow> Ok (d + p) | _ \<Rightarrow> Raise TypeError)"

definition sb_to_metadata :: "('h, 'w) schedule_batch \<Rightarrow> 'w py_metadata" where
  "sb_to_metadata b =
     \<lparr> pm_shape = sb_shape b, pm_dtype = sb_dtype b, pm_layer_id = sb_layer_id b, pm_req_ids = sb_req_ids b,
       pm_exp_ids = [], pm_topk_weights = [], pm_attn_dp_ranks = [], pm_init_prefill_lens = sb_init_prefill_lens b,
       pm_num_prefill_seqs = sb_num_prefill_seqs b, pm_num_prefill_tokens = sb_num_prefill_tokens b,
       pm_num_decode_tokens = sb_num_decode_tokens b \<rparr>"

definition sb_to_metadata_c :: "('h, 'w) schedule_batch \<Rightarrow> 'w metadata res" where
  "sb_to_metadata_c b = metadata_to_c (sb_to_metadata b)"

section \<open>Messages and statistics\<close>

record tokenized_request =
  tr_req_id :: int
  tr_init_prefill_len :: int
  tr_max_output_len :: int
  tr_token_ids :: "int list"

record decode_result =
  dr_req_ids :: "int list"
  dr_token_ids :: "int list"
  dr_is_eos :: "bool list"

record step_info =
  si_num_tokens :: int
  si_time_stamp :: int

record slo_stat =
  ss_req_id :: int
  ss_prefill :: real
  ss_prefill_std :: real
  ss_decode :: real
  ss_tokens :: "real list"
  ss_timestamps :: "real list option"

definition slo_post_process :: "slo_stat \<Rightarrow> slo_stat" where
  "slo_post_process s =
     (let ms_to_s = 1 / 1000 in
      s\<lparr>ss_decode := (ss_decode s - ss_prefill s) * ms_to_s, ss_prefill := ss_prefill s * ms_to_s,
        ss_prefill_std := ss_prefill_std s * ms_to_s, ss_timestamps := Some (map (\<lambda>t. t * ms_to_s) (ss_tokens s)),
        ss_tokens := map2 (\<lambda>x y. (x - y) * ms_to_s) (tl (ss_tokens s)) (butlast (ss_tokens s))\<rparr>)"

section \<open>Conversions\<close>

lemma metadata_round_trip:
  "metadata_to_c (metadata_from_c m) = Ok (m\<lparr>md_tag := ATTENTION\<rparr>)"
  by (simp add: metadata_to_c_def metadata_from_c_def)

lemma metadata_from_to_c:
  "metadata_to_c p = Ok m \<Longrightarrow> metadata_from_c m = p"
  by (auto simp: metadata_to_c_def metadata_from_c_def split: list.splits)

text \<open>The intervals between tokens add up to the time from the first token to the last.\<close>

lemma sum_differences: "xs \<noteq> [] \<Longrightarrow> sum_list (map2 (\<lambda>x y. (x - y) * c) (tl xs) (butlast xs)) = (last xs - hd xs) * c" for c :: real
proof (induction xs)
  case (Cons x xs)
  then show ?case by (cases xs) (auto simp: algebra_simps)
qed simp

lemma slo_intervals_sum:
  assumes "ss_tokens s \<noteq> []"
  shows "sum_list (ss_tokens (slo_post_process s)) = (last (ss_tokens s) - hd (ss_tokens s)) / 1000"
  using sum_differences[OF assms, of "1 / 1000"] by (simp add: slo_post_process_def Let_def)

end
