(* ===== verification/Kv_Loader.thy ===== *)
theory Kv_Loader
  imports Datatypes
begin

text \<open>
  \<^verbatim>\<open>disagmoe/kv_loader.py\<close>: the loader that fetches the KV pages of a prompt from a store and installs them in the
  blocks of the request. The hash function is a parameter on byte lists; the store is a parameter that answers one
  batched read: it may raise, and otherwise returns one code per key and the staging buffer after the read. A staging
  buffer is the list of its two-byte elements; pointers and sizes count bytes. The pool of the KV cache is a function
  of layer, K or V, block, token in the block, head and dimension. Worker threads, the engine loop and their queues are
  the steps of a transition system.
\<close>

section \<open>Page hashes\<close>

type_synonym bytes = "nat list"

definition page_tokens :: nat where
  "page_tokens = 16"

text \<open>\<open>struct.pack("<nI", ...)\<close>: four bytes per number, the lowest first.\<close>

definition pack_u32 :: "int \<Rightarrow> bytes res" where
  "pack_u32 x =
     (if 0 \<le> x \<and> x < 2 ^ 32
      then Ok [nat (x mod 256), nat (x div 256 mod 256), nat (x div 65536 mod 256), nat (x div 16777216 mod 256)]
      else Raise StructError)"

definition pack_page :: "int list \<Rightarrow> bytes res" where
  "pack_page xs = rbind (mapM pack_u32 xs) (\<lambda>bs. Ok (concat bs))"

definition hex_digit :: "nat \<Rightarrow> char" where
  "hex_digit n = (if n < 10 then char_of (48 + n) else char_of (87 + n))"

definition hex :: "bytes \<Rightarrow> string" where
  "hex bs = concat (map (\<lambda>b. [hex_digit (b div 16), hex_digit (b mod 16)]) bs)"

text \<open>The loop over the full pages, with the running digest.\<close>

fun chain_digests :: "(bytes \<Rightarrow> bytes) \<Rightarrow> bytes \<Rightarrow> nat \<Rightarrow> int list \<Rightarrow> bytes list res" where
  "chain_digests sha d 0 ts = Ok []"
| "chain_digests sha d (Suc n) ts =
     rbind (pack_page (take page_tokens ts)) (\<lambda>p.
     (let d = sha (d @ p) in
      rbind (chain_digests sha d n (drop page_tokens ts)) (\<lambda>ds. Ok (d # ds))))"

definition page_chain_hashes :: "(bytes \<Rightarrow> bytes) \<Rightarrow> int list \<Rightarrow> string list res" where
  "page_chain_hashes sha ts =
     rbind (chain_digests sha [] (length ts div page_tokens) ts) (\<lambda>ds. Ok (map hex ds))"

section \<open>Jobs, completions and the loader\<close>

record job =
  job_req :: int
  job_prompt :: "int list"
  job_ctx :: tokenized_request

record load_done =
  ld_job :: job
  ld_worker :: nat
  ld_pages :: nat
  ld_ok :: bool

type_synonym 'v pool = "nat \<Rightarrow> nat \<Rightarrow> int \<Rightarrow> nat \<Rightarrow> nat \<Rightarrow> nat \<Rightarrow> 'v"

record 'v loader =
  kl_layers :: nat
  kl_heads :: nat
  kl_dim :: nat
  kl_workers :: nat
  kl_staging :: "nat \<Rightarrow> 'v list"
  kl_jobs :: "job list"
  kl_done :: "load_done list"
  kl_held :: "load_done list"
  kl_waiting :: "nat \<Rightarrow> bool"
  kl_bm :: block_manager
  kl_pool :: "'v pool"
  kl_loaded :: nat
  kl_rejected :: nat

definition obj_elems :: "'v loader \<Rightarrow> nat" where
  "obj_elems ld = page_tokens * kl_layers ld * kl_heads ld * kl_dim ld"

definition obj_bytes :: "'v loader \<Rightarrow> int" where
  "obj_bytes ld = int (obj_elems ld) * 2"

definition submit :: "'v loader \<Rightarrow> int \<Rightarrow> int list \<Rightarrow> tokenized_request \<Rightarrow> 'v loader" where
  "submit ld rid prompt ctx = ld\<lparr>kl_jobs := kl_jobs ld @ [\<lparr> job_req = rid, job_prompt = prompt, job_ctx = ctx \<rparr>]\<rparr>"

definition poll :: "'v loader \<Rightarrow> nat \<Rightarrow> load_done list \<times> 'v loader" where
  "poll ld max_items = (take max_items (kl_done ld), ld\<lparr>kl_done := drop max_items (kl_done ld)\<rparr>)"

section \<open>The worker\<close>

text \<open>Keys, pointers and sizes of one batched read, pointers relative to the staging buffer.\<close>

definition fetch_keys :: "string list \<Rightarrow> string list" where
  "fetch_keys hashes = concat (map (\<lambda>hx. [hx @ ''_0_k'', hx @ ''_0_v'']) hashes)"

definition fetch_ptrs :: "int \<Rightarrow> string list \<Rightarrow> int list" where
  "fetch_ptrs sz hashes = concat (map (\<lambda>p. [2 * int p * sz, (2 * int p + 1) * sz]) [0..<length hashes])"

definition fetch_sizes :: "int \<Rightarrow> string list \<Rightarrow> int list" where
  "fetch_sizes sz hashes = concat (map (\<lambda>_. [sz, sz]) hashes)"

type_synonym 'v store = "nat \<Rightarrow> string list \<Rightarrow> int list \<Rightarrow> int list \<Rightarrow> 'v list \<Rightarrow> int list option \<times> 'v list"

text \<open>Up to three attempts; an attempt that raises or returns a bad code is repeated.\<close>

fun fetch_attempts ::
    "'v store \<Rightarrow> int \<Rightarrow> string list \<Rightarrow> int list \<Rightarrow> int list \<Rightarrow> nat list \<Rightarrow> 'v list \<Rightarrow> bool \<times> 'v list" where
  "fetch_attempts store sz keys ptrs sizes [] buf = (False, buf)"
| "fetch_attempts store sz keys ptrs sizes (a # as) buf =
     (case store a keys ptrs sizes buf of
        (Some codes, buf) \<Rightarrow>
          if filter (\<lambda>(k, c). c \<noteq> sz) (zip keys codes) = [] then (True, buf)
          else fetch_attempts store sz keys ptrs sizes as buf
      | (None, buf) \<Rightarrow> fetch_attempts store sz keys ptrs sizes as buf)"

definition worker_job :: "(bytes \<Rightarrow> bytes) \<Rightarrow> 'v store \<Rightarrow> 'v loader \<Rightarrow> nat \<Rightarrow> job \<Rightarrow> (load_done \<times> 'v list) res" where
  "worker_job sha store ld w j =
     (let buf = kl_staging ld w; n_pages = length (job_prompt j) div page_tokens; sz = obj_bytes ld in
      if n_pages > 0 then
        rbind (py_assert (2 * int n_pages * sz \<le> 2 * int (length buf))) (\<lambda>_.
        rbind (page_chain_hashes sha (job_prompt j)) (\<lambda>hashes.
        (let (ok, buf) = fetch_attempts store sz (fetch_keys hashes) (fetch_ptrs sz hashes) (fetch_sizes sz hashes) [0..<3] buf
         in Ok (\<lparr> ld_job = j, ld_worker = w, ld_pages = n_pages, ld_ok = ok \<rparr>, buf))))
      else Ok (\<lparr> ld_job = j, ld_worker = w, ld_pages = 0, ld_ok = True \<rparr>, buf))"

section \<open>Installing\<close>

text \<open>Element \<open>[t][l][h][d]\<close> of an object, and element \<open>[p][kv][t][l][h][d]\<close> of the staged view.\<close>

definition obj_index :: "'v loader \<Rightarrow> nat \<Rightarrow> nat \<Rightarrow> nat \<Rightarrow> nat \<Rightarrow> nat" where
  "obj_index ld t l h d = ((t * kl_layers ld + l) * kl_heads ld + h) * kl_dim ld + d"

definition staged_at :: "'v loader \<Rightarrow> 'v list \<Rightarrow> nat \<Rightarrow> nat \<Rightarrow> nat \<Rightarrow> nat \<Rightarrow> nat \<Rightarrow> nat \<Rightarrow> 'v" where
  "staged_at ld buf p kv t l h d =
     buf ! (((((p * 2 + kv) * page_tokens + t) * kl_layers ld + l) * kl_heads ld + h) * kl_dim ld + d)"

text \<open>\<open>index_copy_\<close> along the block axis.\<close>

definition index_copy :: "(int \<Rightarrow> 'b) \<Rightarrow> int list \<Rightarrow> (nat \<Rightarrow> 'b) \<Rightarrow> int \<Rightarrow> 'b" where
  "index_copy f blocks src = foldl (\<lambda>f p. f(blocks ! p := src p)) f [0..<length blocks]"

definition scatter :: "'v loader \<Rightarrow> 'v list \<Rightarrow> int list \<Rightarrow> 'v pool \<Rightarrow> 'v pool" where
  "scatter ld buf blocks pool =
     foldl (\<lambda>pool l. pool(l := (pool l)
         (0 := index_copy (pool l 0) blocks (\<lambda>p t h d. staged_at ld buf p 0 t l h d),
          1 := index_copy (pool l 1) blocks (\<lambda>p t h d. staged_at ld buf p 1 t l h d))))
       pool [0..<kl_layers ld]"

definition install_body :: "'v loader \<Rightarrow> load_done \<Rightarrow> bool \<times> 'v loader" where
  "install_body ld d =
     (let reject = (\<lambda>ld. (False, ld\<lparr>kl_rejected := kl_rejected ld + 1\<rparr>));
          n = ld_pages d; rid = job_req (ld_job d)
      in
      if \<not> ld_ok d then reject ld
      else case allocate (kl_bm ld) rid (int (n * page_tokens)) of
        Inl _ \<Rightarrow> reject ld
      | Inr bm \<Rightarrow>
          (let ld = ld\<lparr>kl_bm := bm\<rparr> in
           if n = 0 then (True, ld\<lparr>kl_loaded := kl_loaded ld + 1\<rparr>)
           else case get_seq_block_ids bm rid of
             Inl _ \<Rightarrow> reject ld
           | Inr ids \<Rightarrow>
               if length ids < n \<or> length (kl_staging ld (ld_worker d)) < n * 2 * obj_elems ld then reject ld
               else (True, ld\<lparr>kl_pool := scatter ld (kl_staging ld (ld_worker d)) (take n ids) (kl_pool ld),
                             kl_loaded := kl_loaded ld + 1\<rparr>)))"

text \<open>The \<open>finally\<close> block hands the staging buffer back to the worker.\<close>

definition install :: "'v loader \<Rightarrow> load_done \<Rightarrow> bool \<times> 'v loader" where
  "install ld d =
     (let (ok, ld) = install_body ld d in (ok, ld\<lparr>kl_waiting := (kl_waiting ld)(ld_worker d := False)\<rparr>))"

section \<open>Threads and queues\<close>

text \<open>
  A worker takes a job when it is not waiting for its buffer; the engine polls and installs one completion after
  another. Meanwhile the engine may change the block tables in any way that keeps blocks private.
\<close>

inductive kl_step :: "(bytes \<Rightarrow> bytes) \<Rightarrow> 'v store \<Rightarrow> 'v loader \<Rightarrow> 'v loader \<Rightarrow> bool" for sha store where
  kl_submit: "kl_step sha store ld (submit ld rid prompt ctx)"
| kl_work: "w < kl_workers ld \<Longrightarrow> \<not> kl_waiting ld w \<Longrightarrow> kl_jobs ld = j # js \<Longrightarrow>
    worker_job sha store ld w j = Ok (d, buf) \<Longrightarrow>
    kl_step sha store ld (ld\<lparr>kl_jobs := js, kl_staging := (kl_staging ld)(w := buf), kl_done := kl_done ld @ [d],
      kl_waiting := (kl_waiting ld)(w := True)\<rparr>)"
| kl_poll: "kl_held ld = [] \<Longrightarrow> poll ld 8 = (ds, ld') \<Longrightarrow> kl_step sha store ld (ld'\<lparr>kl_held := ds\<rparr>)"
| kl_install: "kl_held ld = d # ds \<Longrightarrow> install ld d = (ok, ld') \<Longrightarrow> kl_step sha store ld (ld'\<lparr>kl_held := ds\<rparr>)"
| kl_engine: "bm_exclusive bm \<Longrightarrow> kl_step sha store ld (ld\<lparr>kl_bm := bm, kl_pool := pool\<rparr>)"

definition kl_init :: "'v loader \<Rightarrow> bool" where
  "kl_init ld \<longleftrightarrow> kl_jobs ld = [] \<and> kl_done ld = [] \<and> kl_held ld = [] \<and> (\<forall>w. \<not> kl_waiting ld w) \<and> bm_exclusive (kl_bm ld)"

inductive kl_reach :: "(bytes \<Rightarrow> bytes) \<Rightarrow> 'v store \<Rightarrow> 'v loader \<Rightarrow> bool" for sha store where
  kl_reach_init: "kl_init ld \<Longrightarrow> kl_reach sha store ld"
| kl_reach_step: "kl_reach sha store ld \<Longrightarrow> kl_step sha store ld ld' \<Longrightarrow> kl_reach sha store ld'"

inductive_cases kl_step_cases: "kl_step sha store ld ld'"

section \<open>What the store promises\<close>

text \<open>
  A read whose regions lie in the buffer and do not overlap returns one code per key, and a key whose code is its size has
  its object in its region. Other answers leave the length of the buffer alone.
\<close>

definition regions_ok :: "nat \<Rightarrow> int list \<Rightarrow> int list \<Rightarrow> bool" where
  "regions_ok n ptrs sizes \<longleftrightarrow> length ptrs = length sizes
     \<and> (\<forall>i < length ptrs. 0 \<le> ptrs ! i \<and> 0 \<le> sizes ! i \<and> ptrs ! i + sizes ! i \<le> 2 * int n)
     \<and> (\<forall>i < length ptrs. \<forall>j < length ptrs. i \<noteq> j \<longrightarrow> ptrs ! i + sizes ! i \<le> ptrs ! j \<or> ptrs ! j + sizes ! j \<le> ptrs ! i)"

definition region :: "'v list \<Rightarrow> int \<Rightarrow> int \<Rightarrow> 'v list" where
  "region buf ptr sz = take (nat (sz div 2)) (drop (nat (ptr div 2)) buf)"

definition store_contract :: "(string \<Rightarrow> 'v list) \<Rightarrow> 'v store \<Rightarrow> bool" where
  "store_contract objs store \<longleftrightarrow>
     (\<forall>a keys ptrs sizes buf codes buf'. store a keys ptrs sizes buf = (codes, buf') \<longrightarrow> length buf' = length buf \<and>
        (\<forall>cs. codes = Some cs \<longrightarrow> length keys = length ptrs \<longrightarrow> regions_ok (length buf) ptrs sizes \<longrightarrow>
           length cs = length keys
           \<and> (\<forall>i < length keys. cs ! i = sizes ! i \<longrightarrow> region buf' (ptrs ! i) (sizes ! i) = objs (keys ! i))))"

section \<open>The batched read\<close>

lemma concat_pairs:
  "length (concat (map (\<lambda>x. [f x, g x]) xs)) = 2 * length xs"
  "i < length xs \<Longrightarrow> concat (map (\<lambda>x. [f x, g x]) xs) ! (2 * i) = f (xs ! i)"
  "i < length xs \<Longrightarrow> concat (map (\<lambda>x. [f x, g x]) xs) ! (2 * i + 1) = g (xs ! i)"
proof (induction xs arbitrary: i)
  case (Cons x xs)
  { case 1 show ?case using Cons.IH(1) by simp }
  { case 2 then show ?case using Cons.IH(2) by (cases i) auto }
  { case 3 then show ?case using Cons.IH(3) by (cases i) auto }
qed simp_all

definition kv_suffix :: "nat \<Rightarrow> string" where
  "kv_suffix kv = (if kv = 0 then ''_0_k'' else ''_0_v'')"

lemma fetch_lists:
  "length (fetch_keys hs) = 2 * length hs" "length (fetch_ptrs sz hs) = 2 * length hs" "length (fetch_sizes sz hs) = 2 * length hs"
  by (simp_all add: fetch_keys_def fetch_ptrs_def fetch_sizes_def concat_pairs(1))

lemma fetch_lists_nth:
  assumes "p < length hs" and "kv < 2"
  shows "fetch_keys hs ! (2 * p + kv) = hs ! p @ kv_suffix kv" "fetch_ptrs sz hs ! (2 * p + kv) = int (2 * p + kv) * sz"
    "fetch_sizes sz hs ! (2 * p + kv) = sz"
proof -
  have k: "kv = 0 \<or> kv = 1" using assms(2) by auto
  note c = concat_pairs(2,3)
  show "fetch_keys hs ! (2 * p + kv) = hs ! p @ kv_suffix kv"
    using k c[OF assms(1), of "\<lambda>hx. hx @ ''_0_k''" "\<lambda>hx. hx @ ''_0_v''"] by (auto simp: fetch_keys_def kv_suffix_def)
  show "fetch_ptrs sz hs ! (2 * p + kv) = int (2 * p + kv) * sz"
    using k c[of p "[0..<length hs]" "\<lambda>p. 2 * int p * sz" "\<lambda>p. (2 * int p + 1) * sz"] assms(1)
    by (auto simp: fetch_ptrs_def)
  show "fetch_sizes sz hs ! (2 * p + kv) = sz"
    using k c[OF assms(1), of "\<lambda>_. sz" "\<lambda>_. sz"] by (auto simp: fetch_sizes_def)
qed

lemma pair_index: "i < 2 * n \<Longrightarrow> \<exists>p kv. p < n \<and> kv < 2 \<and> i = 2 * p + kv" for i n :: nat
  by (intro exI[of _ "i div 2"] exI[of _ "i mod 2"]) auto

lemma fetch_ptr_at: "i < 2 * length hs \<Longrightarrow> fetch_ptrs sz hs ! i = int i * sz"
  using pair_index[of i "length hs"] fetch_lists_nth(2) by blast

lemma fetch_size_at: "i < 2 * length hs \<Longrightarrow> fetch_sizes sz hs ! i = sz"
  using pair_index[of i "length hs"] fetch_lists_nth(3) by blast

lemma fetch_regions_ok:
  assumes "0 \<le> sz" and "2 * int (length hs) * sz \<le> 2 * int n"
  shows "regions_ok n (fetch_ptrs sz hs) (fetch_sizes sz hs)"
proof -
  have end_le: "int i * sz + sz \<le> int j * sz" if "i < j" for i j :: nat
  proof -
    have "int (i + 1) * sz \<le> int j * sz" using that assms(1) by (intro mult_right_mono) auto
    then show ?thesis by (simp add: algebra_simps)
  qed
  have "int i * sz + sz \<le> 2 * int n" if "i < 2 * length hs" for i
    using end_le[OF that] assms(2) by simp
  then show ?thesis
    unfolding regions_ok_def using assms(1) end_le
    by (auto simp: fetch_lists fetch_ptr_at fetch_size_at) (metis linorder_neqE_nat)
qed

lemma fetch_attempts_length:
  assumes "store_contract objs store"
  shows "length (snd (fetch_attempts store sz keys ptrs sizes as buf)) = length buf"
proof (induction as arbitrary: buf)
  case (Cons a as)
  obtain codes buf' where st: "store a keys ptrs sizes buf = (codes, buf')" by (cases "store a keys ptrs sizes buf")
  then have "length buf' = length buf" using assms unfolding store_contract_def by blast
  then show ?case using Cons.IH[of buf'] st by (auto split: option.splits)
qed simp

lemma fetch_attempts_ok:
  assumes "store_contract objs store" and "regions_ok (length buf) ptrs sizes" and "length keys = length ptrs"
    and "\<forall>i < length keys. sizes ! i = sz" and "fetch_attempts store sz keys ptrs sizes as buf = (True, buf')"
  shows "\<forall>i < length keys. region buf' (ptrs ! i) sz = objs (keys ! i)"
  using assms(2,5)
proof (induction as arbitrary: buf)
  case (Cons a as)
  obtain codes b where st: "store a keys ptrs sizes buf = (codes, b)" by (cases "store a keys ptrs sizes buf")
  have len: "length b = length buf" using assms(1) st unfolding store_contract_def by blast
  have rest: ?case if "fetch_attempts store sz keys ptrs sizes as b = (True, buf')"
    using Cons.IH[of b] that Cons.prems(1) len by simp
  show ?case
  proof (cases codes)
    case None
    then show ?thesis using Cons.prems(2) st rest by simp
  next
    case (Some cs)
    have c: "length cs = length keys" "\<forall>i < length keys. cs ! i = sizes ! i \<longrightarrow> region b (ptrs ! i) (sizes ! i) = objs (keys ! i)"
      using assms(1,3) st Some Cons.prems(1) unfolding store_contract_def by blast+
    show ?thesis
    proof (cases "filter (\<lambda>(k, c). c \<noteq> sz) (zip keys cs) = []")
      case True
      then have "buf' = b" using Cons.prems(2) st Some by simp
      moreover have "cs ! i = sz" if "i < length keys" for i
      proof -
        have "(keys ! i, cs ! i) \<in> set (zip keys cs)" using that c(1) by (auto simp: set_zip)
        then show ?thesis using True by (auto simp: filter_empty_conv)
      qed
      ultimately show ?thesis using c(2) assms(4) by simp
    next
      case False
      then show ?thesis using Cons.prems(2) st Some rest by simp
    qed
  qed
qed simp

section \<open>Staged completions\<close>

text \<open>A completed fetch sits in the staging buffer of its worker.\<close>

definition staged :: "(string \<Rightarrow> 'v list) \<Rightarrow> (bytes \<Rightarrow> bytes) \<Rightarrow> 'v loader \<Rightarrow> load_done \<Rightarrow> bool" where
  "staged objs sha ld d \<longleftrightarrow> kl_waiting ld (ld_worker d) \<and> (ld_ok d \<longrightarrow> ld_pages d = length (job_prompt (ld_job d)) div page_tokens \<and>
     (0 < ld_pages d \<longrightarrow> (\<exists>hs. page_chain_hashes sha (job_prompt (ld_job d)) = Ok hs \<and> length hs = ld_pages d
        \<and> (\<forall>p < ld_pages d. \<forall>kv < 2. region (kl_staging ld (ld_worker d)) (int (2 * p + kv) * obj_bytes ld) (obj_bytes ld)
              = objs (hs ! p @ kv_suffix kv)))))"

lemma chain_digests_length: "chain_digests sha d n ts = Ok ds \<Longrightarrow> length ds = n"
  by (induction n arbitrary: d ts ds) (auto simp: res_simps Let_def)

lemma page_chain_length: "page_chain_hashes sha ts = Ok hs \<Longrightarrow> length hs = length ts div page_tokens"
  by (auto simp: page_chain_hashes_def res_simps dest: chain_digests_length)

lemma worker_job_worker: "worker_job sha store ld w j = Ok (d, buf) \<Longrightarrow> ld_worker d = w \<and> ld_job d = j"
  by (auto simp: worker_job_def Let_def res_simps case_prod_unfold split: if_splits)

lemma worker_job_staged:
  assumes "store_contract objs store" and "worker_job sha store ld w j = Ok (d, buf)"
  shows "staged objs sha (ld\<lparr>kl_jobs := js, kl_staging := (kl_staging ld)(w := buf), kl_done := ds,
      kl_waiting := (kl_waiting ld)(w := True)\<rparr>) d"
proof (cases "length (job_prompt j) div page_tokens > 0")
  case False
  then show ?thesis using assms(2) by (auto simp: worker_job_def staged_def)
next
  case True
  let ?n = "length (job_prompt j) div page_tokens" and ?sz = "obj_bytes ld"
  obtain hs ok where h: "page_chain_hashes sha (job_prompt j) = Ok hs" and c: "2 * int ?n * ?sz \<le> 2 * int (length (kl_staging ld w))"
    and f: "fetch_attempts store ?sz (fetch_keys hs) (fetch_ptrs ?sz hs) (fetch_sizes ?sz hs) [0..<3] (kl_staging ld w) = (ok, buf)"
    and d: "d = \<lparr> ld_job = j, ld_worker = w, ld_pages = ?n, ld_ok = ok \<rparr>"
    using assms(2) True by (auto simp: worker_job_def Let_def res_simps case_prod_unfold) (metis prod.collapse)
  have l: "length hs = ?n" by (rule page_chain_length[OF h])
  have sz: "0 \<le> ?sz" by (simp add: obj_bytes_def)
  have r: "regions_ok (length (kl_staging ld w)) (fetch_ptrs ?sz hs) (fetch_sizes ?sz hs)"
    using fetch_regions_ok[OF sz] c l by simp
  have "region buf (int (2 * p + kv) * ?sz) ?sz = objs (hs ! p @ kv_suffix kv)" if "ok" "p < ?n" "kv < 2" for p kv
  proof -
    have "\<forall>i < length (fetch_keys hs). region buf (fetch_ptrs ?sz hs ! i) ?sz = objs (fetch_keys hs ! i)"
      using f that(1) by (intro fetch_attempts_ok[OF assms(1) r]) (auto simp: fetch_lists fetch_size_at)
    moreover have "2 * p + kv < length (fetch_keys hs)" using that l by (simp add: fetch_lists)
    ultimately show ?thesis using fetch_lists_nth[of p hs kv] that l by (metis (no_types))
  qed
  then show ?thesis using h l by (auto simp: staged_def d obj_bytes_def obj_elems_def)
qed

text \<open>Every completion between the worker and the engine is staged, and no two share a worker.\<close>

definition kl_inv :: "(string \<Rightarrow> 'v list) \<Rightarrow> (bytes \<Rightarrow> bytes) \<Rightarrow> 'v loader \<Rightarrow> bool" where
  "kl_inv objs sha ld \<longleftrightarrow> (\<forall>d \<in> set (kl_held ld @ kl_done ld). staged objs sha ld d)
     \<and> distinct (map ld_worker (kl_held ld @ kl_done ld)) \<and> bm_exclusive (kl_bm ld)"

lemma install_frame:
  assumes "install ld d = (ok, ld')"
  shows "kl_staging ld' = kl_staging ld" "kl_jobs ld' = kl_jobs ld" "kl_done ld' = kl_done ld" "obj_bytes ld' = obj_bytes ld"
    "kl_waiting ld' = (kl_waiting ld)(ld_worker d := False)" "obj_index ld' = obj_index ld"
  using assms
  by (auto simp: install_def install_body_def Let_def obj_bytes_def obj_elems_def obj_index_def fun_eq_iff
      split: if_splits sum.splits prod.splits)

lemma install_bm:
  assumes "bm_exclusive (kl_bm ld)" and "install ld d = (ok, ld')"
  shows "bm_exclusive (kl_bm ld')"
proof (cases "allocate (kl_bm ld) (job_req (ld_job d)) (int (ld_pages d * page_tokens))")
  case (Inl e)
  then show ?thesis using assms by (auto simp: install_def install_body_def Let_def split: if_splits)
next
  case (Inr bm)
  have wf: "bm_wf (kl_bm ld)" using assms(1) by (simp add: bm_exclusive_def)
  have "bm_exclusive bm"
    using allocate_Ok[OF wf _ Inr] bm_exclusive_frame[OF assms(1)] grant_frame[OF wf] by simp
  moreover have "kl_bm ld' = bm \<or> kl_bm ld' = kl_bm ld"
    using assms(2) Inr by (auto simp: install_def install_body_def Let_def split: if_splits sum.splits)
  ultimately show ?thesis using assms(1) by auto
qed

lemma staged_cong:
  assumes "kl_waiting ld' (ld_worker d) = kl_waiting ld (ld_worker d)"
    and "kl_staging ld' (ld_worker d) = kl_staging ld (ld_worker d)" and "obj_bytes ld' = obj_bytes ld"
  shows "staged objs sha ld' d = staged objs sha ld d"
  using assms by (simp add: staged_def)

lemma kl_step_inv:
  assumes "store_contract objs store" and "kl_step sha store ld ld'" and "kl_inv objs sha ld"
  shows "kl_inv objs sha ld'"
  using assms(2)
proof (cases rule: kl_step.cases)
  case (kl_submit rid prompt ctx)
  then show ?thesis using assms(3) by (auto simp: kl_inv_def submit_def staged_def obj_bytes_def obj_elems_def)
next
  case (kl_work w j js d buf)
  note dw = worker_job_worker[OF kl_work(5)]
  have new: "staged objs sha ld' d" unfolding kl_work(1) by (rule worker_job_staged[OF assms(1) kl_work(5)])
  have old: "staged objs sha ld' e \<and> ld_worker e \<noteq> w" if "e \<in> set (kl_held ld @ kl_done ld)" for e
  proof -
    have e: "staged objs sha ld e" using that assms(3) by (simp add: kl_inv_def)
    then have "ld_worker e \<noteq> w" using kl_work(3) by (auto simp: staged_def)
    then show ?thesis using e kl_work(1) staged_cong[of ld' e ld objs sha] by (simp add: obj_bytes_def obj_elems_def)
  qed
  have lists: "kl_held ld' @ kl_done ld' = (kl_held ld @ kl_done ld) @ [d]" "kl_bm ld' = kl_bm ld" using kl_work(1) by simp_all
  have "w \<notin> ld_worker ` set (kl_held ld @ kl_done ld)" using old by blast
  then have "distinct (map ld_worker ((kl_held ld @ kl_done ld) @ [d]))" using assms(3) dw by (simp add: kl_inv_def image_Un)
  moreover have "\<forall>e \<in> set ((kl_held ld @ kl_done ld) @ [d]). staged objs sha ld' e" using old new by auto
  ultimately show ?thesis unfolding kl_inv_def lists using assms(3) by (simp only: kl_inv_def simp_thms)
next
  case (kl_poll ds l)
  then have eq: "ld' = ld\<lparr>kl_done := drop 8 (kl_done ld), kl_held := take 8 (kl_done ld)\<rparr>" by (auto simp: poll_def)
  then have lists: "kl_held ld' @ kl_done ld' = kl_held ld @ kl_done ld" "kl_bm ld' = kl_bm ld"
    using kl_poll(2) by simp_all
  have st: "staged objs sha ld' = staged objs sha ld" by (rule ext) (simp add: eq staged_def obj_bytes_def obj_elems_def)
  show ?thesis using assms(3) unfolding kl_inv_def lists st .
next
  case (kl_install d ds ok l)
  note fr = install_frame[OF kl_install(3)]
  have "staged objs sha ld' e" if "e \<in> set (ds @ kl_done ld)" for e
  proof -
    have "ld_worker d \<notin> ld_worker ` set (ds @ kl_done ld)" using assms(3) kl_install(2) by (simp add: kl_inv_def image_Un)
    then have "ld_worker e \<noteq> ld_worker d" using that by (metis imageI)
    moreover have "staged objs sha ld e" using that assms(3) kl_install(2) by (auto simp: kl_inv_def)
    ultimately show ?thesis
      using fr kl_install(1) staged_cong[of ld' e ld objs sha] by (simp add: obj_bytes_def obj_elems_def)
  qed
  then show ?thesis
    using assms(3) kl_install(1,2) fr install_bm[OF _ kl_install(3)] by (auto simp: kl_inv_def)
next
  case (kl_engine bm pool)
  then show ?thesis using assms(3) by (auto simp: kl_inv_def staged_def obj_bytes_def obj_elems_def)
qed

lemma kl_reach_inv:
  assumes "store_contract objs store" and "kl_reach sha store ld"
  shows "kl_inv objs sha ld"
  using assms(2)
proof induction
  case (kl_reach_init ld)
  then show ?case by (simp add: kl_init_def kl_inv_def)
next
  case (kl_reach_step ld ld')
  then show ?case using kl_step_inv[OF assms(1)] by blast
qed

section \<open>The scatter\<close>

lemma index_copy_at:
  assumes "distinct blocks"
  shows "p < length blocks \<Longrightarrow> index_copy f blocks src (blocks ! p) = src p"
    and "b \<notin> set blocks \<Longrightarrow> index_copy f blocks src b = f b"
proof -
  have k: "foldl (\<lambda>f p. f(blocks ! p := src p)) f [0..<k] b
      = (if \<exists>p < k. blocks ! p = b then src (THE p. p < k \<and> blocks ! p = b) else f b)" if "k \<le> length blocks" for k b
    using that
  proof (induction k)
    case (Suc k)
    show ?case
    proof (cases "blocks ! k = b")
      case True
      have "(THE p. p < Suc k \<and> blocks ! p = b) = k"
        using True Suc.prems assms by (intro the_equality) (auto simp: nth_eq_iff_index_eq less_Suc_eq)
      then show ?thesis using True by auto
    next
      case False
      have "(\<lambda>p. p < Suc k \<and> blocks ! p = b) = (\<lambda>p. p < k \<and> blocks ! p = b)" using False by (auto simp: less_Suc_eq)
      then show ?thesis using False Suc by (auto simp: less_Suc_eq)
    qed
  qed simp
  show "index_copy f blocks src (blocks ! p) = src p" if "p < length blocks"
  proof -
    have "(THE q. q < length blocks \<and> blocks ! q = blocks ! p) = p"
      using that assms by (intro the_equality) (auto simp: nth_eq_iff_index_eq)
    then show ?thesis using k[of "length blocks" "blocks ! p"] that by (auto simp: index_copy_def)
  qed
  show "index_copy f blocks src b = f b" if "b \<notin> set blocks"
    using k[of "length blocks" b] that by (auto simp: index_copy_def)
qed

lemma scatter_at:
  assumes "l < kl_layers ld" and "kv < 2"
  shows "scatter ld buf blocks pool l kv = index_copy (pool l kv) blocks (\<lambda>p t h d. staged_at ld buf p kv t l h d)"
proof -
  let ?F = "\<lambda>pool l. pool(l := (pool l)
         (0 := index_copy (pool l 0) blocks (\<lambda>p t h d. staged_at ld buf p 0 t l h d),
          1 := index_copy (pool l 1) blocks (\<lambda>p t h d. staged_at ld buf p 1 t l h d)))"
  have "foldl ?F pool [0..<k] l = (if l < k then ?F pool l l else pool l)" for k
    by (induction k) (auto simp: less_Suc_eq)
  then have "scatter ld buf blocks pool l = ?F pool l l" using assms(1) by (simp add: scatter_def)
  then show ?thesis using assms(2) by (cases kv) auto
qed

lemma mixed_radix: "a < m \<Longrightarrow> b < n \<Longrightarrow> a * n + b < m * (n::nat)"
proof -
  assume "a < m" "b < n"
  then have "a * n + b < (a + 1) * n" by simp
  also have "\<dots> \<le> m * n" using \<open>a < m\<close> by (intro mult_le_mono1) simp
  finally show ?thesis .
qed

lemma obj_index_bound:
  assumes "t < page_tokens" and "l < kl_layers ld" and "h < kl_heads ld" and "d < kl_dim ld"
  shows "obj_index ld t l h d < obj_elems ld"
  unfolding obj_index_def obj_elems_def using assms by (intro mixed_radix)

lemma staged_at_region:
  assumes "t < page_tokens" and "l < kl_layers ld" and "h < kl_heads ld" and "d < kl_dim ld"
    and "length buf \<ge> (2 * p + kv + 1) * obj_elems ld"
  shows "staged_at ld buf p kv t l h d = region buf (int (2 * p + kv) * obj_bytes ld) (obj_bytes ld) ! obj_index ld t l h d"
proof -
  have i: "obj_index ld t l h d < obj_elems ld" by (rule obj_index_bound[OF assms(1-4)])
  have "(((((p * 2 + kv) * page_tokens + t) * kl_layers ld + l) * kl_heads ld + h) * kl_dim ld + d)
      = (2 * p + kv) * obj_elems ld + obj_index ld t l h d"
    by (simp add: obj_elems_def obj_index_def algebra_simps)
  moreover have "nat (int (2 * p + kv) * obj_bytes ld div 2) = (2 * p + kv) * obj_elems ld"
  proof -
    have "int (2 * p + kv) * obj_bytes ld = int ((2 * p + kv) * obj_elems ld) * 2" by (simp add: obj_bytes_def)
    then have "int (2 * p + kv) * obj_bytes ld div 2 = int ((2 * p + kv) * obj_elems ld)" by (simp only: nonzero_mult_div_cancel_right)
    then show ?thesis by (simp only: nat_int)
  qed
  moreover have "nat (obj_bytes ld div 2) = obj_elems ld" by (simp add: obj_bytes_def)
  moreover have "(2 * p + kv) * obj_elems ld \<le> length buf" using assms(5) by simp
  ultimately show ?thesis using i by (simp add: staged_at_def region_def)
qed

section \<open>Properties\<close>

lemma install_True:
  assumes "install ld d = (True, ld')" and "0 < ld_pages d" and "bm_exclusive (kl_bm ld)"
  shows "\<exists>ids. block_tables (kl_bm ld') (job_req (ld_job d)) = Some ids \<and> distinct ids \<and> ld_pages d \<le> length ids \<and> ld_ok d
    \<and> ld_pages d * 2 * obj_elems ld \<le> length (kl_staging ld (ld_worker d))
    \<and> kl_pool ld' = scatter ld (kl_staging ld (ld_worker d)) (take (ld_pages d) ids) (kl_pool ld)"
proof -
  have ok: "ld_ok d" using assms(1) by (auto simp: install_def install_body_def Let_def split: if_splits)
  obtain bm where bm: "allocate (kl_bm ld) (job_req (ld_job d)) (int (ld_pages d * page_tokens)) = Ok bm"
    using assms(1) ok by (auto simp: install_def install_body_def Let_def split: sum.splits prod.splits if_splits)
  let ?ld = "ld\<lparr>kl_bm := bm\<rparr>"
  obtain ids where ids: "get_seq_block_ids bm (job_req (ld_job d)) = Ok ids" "ld_pages d \<le> length ids"
      "ld_pages d * 2 * obj_elems ?ld \<le> length (kl_staging ld (ld_worker d))"
    and p: "kl_bm ld' = bm" "kl_pool ld' = scatter ?ld (kl_staging ld (ld_worker d)) (take (ld_pages d) ids) (kl_pool ld)"
    using assms(1,2) ok bm by (auto simp: install_def install_body_def Let_def split: sum.splits prod.splits if_splits)
  have t: "block_tables bm (job_req (ld_job d)) = Some ids" using ids(1) by (auto simp: get_seq_block_ids_def split: option.splits)
  have "bm_exclusive (kl_bm ld')" by (rule install_bm[OF assms(3,1)])
  then have "distinct ids" using exclusive_distinct t p(1) by metis
  moreover have "scatter ?ld = scatter ld" "obj_elems ?ld = obj_elems ld"
    by (simp_all add: scatter_def[abs_def] staged_at_def[abs_def] obj_elems_def)
  ultimately show ?thesis using t ids p ok by auto
qed

text \<open>
  C14: The KV of a prompt goes to its own place. When the engine installs a completed fetch, in any state the
  loader, its worker threads and its queues can reach, then for every token of the installed pages, every layer, head and dimension,
  the slot of that token in the blocks of the request holds the element of the object stored under the page's chain hash
  for K or V. In particular no worker has overwritten the staging buffer in between.
\<close>

theorem install_places_kv:
  assumes "store_contract objs store" and "kl_reach sha store ld" and "kl_held ld = d # ds" and "install ld d = (True, ld')"
    and "page_chain_hashes sha (job_prompt (ld_job d)) = Ok hs"
    and "i < ld_pages d * page_tokens" and "kv < 2" and "l < kl_layers ld" and "h < kl_heads ld" and "x < kl_dim ld"
  shows "\<exists>ids. block_tables (kl_bm ld') (job_req (ld_job d)) = Some ids \<and>
    kl_pool ld' l kv (ids ! (i div page_tokens)) (i mod page_tokens) h x
      = objs (hs ! (i div page_tokens) @ kv_suffix kv) ! obj_index ld (i mod page_tokens) l h x"
proof -
  have inv: "kl_inv objs sha ld" by (rule kl_reach_inv[OF assms(1,2)])
  have pos: "0 < ld_pages d" using assms(6) by (cases "ld_pages d") auto
  have pt: "0 < page_tokens" by (simp add: page_tokens_def)
  let ?p = "i div page_tokens" and ?t = "i mod page_tokens" and ?buf = "kl_staging ld (ld_worker d)"
  have p: "?p < ld_pages d" "?t < page_tokens" using assms(6) pt by (simp_all add: less_mult_imp_div_less)
  have bm: "bm_exclusive (kl_bm ld)" and st: "staged objs sha ld d" using inv assms(3) by (auto simp: kl_inv_def)
  obtain ids where ids: "block_tables (kl_bm ld') (job_req (ld_job d)) = Some ids" "distinct ids" "ld_pages d \<le> length ids" "ld_ok d"
      "ld_pages d * 2 * obj_elems ld \<le> length ?buf"
      "kl_pool ld' = scatter ld ?buf (take (ld_pages d) ids) (kl_pool ld)"
    using install_True[OF assms(4) pos bm] by blast
  have idx: "take (ld_pages d) ids ! ?p = ids ! ?p" "?p < length (take (ld_pages d) ids)" using p ids(3) by auto
  have "kl_pool ld' l kv (ids ! ?p) ?t h x = staged_at ld ?buf ?p kv ?t l h x"
    unfolding ids(6) scatter_at[OF assms(8,7)] idx(1)[symmetric] index_copy_at(1)[OF distinct_take[OF ids(2)] idx(2)] ..
  also have "\<dots> = region ?buf (int (2 * ?p + kv) * obj_bytes ld) (obj_bytes ld) ! obj_index ld ?t l h x"
  proof (rule staged_at_region[OF p(2) assms(8,9,10)])
    have "(2 * ?p + kv + 1) * obj_elems ld \<le> ld_pages d * 2 * obj_elems ld" using p(1) assms(7) by (intro mult_le_mono1) simp
    then show "(2 * ?p + kv + 1) * obj_elems ld \<le> length ?buf" using ids(5) by simp
  qed
  also have "region ?buf (int (2 * ?p + kv) * obj_bytes ld) (obj_bytes ld) = objs (hs ! ?p @ kv_suffix kv)"
    using st ids(4) pos assms(5,7) p(1) unfolding staged_def by auto
  finally show ?thesis using ids(1) by blast
qed

definition demo_sha :: "bytes \<Rightarrow> bytes" where
  "demo_sha bs = [length bs mod 256, sum_list bs mod 256]"

definition demo_objs :: "string \<Rightarrow> nat list" where
  "demo_objs key = (if last key = CHR ''k'' then [100..<116] else [200..<216])"

definition demo_store :: "nat store" where
  "demo_store a keys ptrs sizes buf =
     (case keys of
        [k1, k2] \<Rightarrow> if ptrs = [0, 32] \<and> sizes = [32, 32] \<and> length buf = 32
                    then (Some [32, 32], demo_objs k1 @ demo_objs k2) else (Some (map (\<lambda>_. -1) keys), buf)
      | _ \<Rightarrow> (Some (map (\<lambda>_. -1) keys), buf))"

lemma demo_store_contract: "store_contract demo_objs demo_store"
  unfolding store_contract_def
proof (intro allI impI conjI)
  fix a keys ptrs sizes and buf :: "nat list" and codes buf'
  assume s: "demo_store a keys ptrs sizes buf = (codes, buf')"
  have obj: "length (demo_objs k) = 16" for k by (simp add: demo_objs_def)
  let ?hit = "length keys = 2 \<and> ptrs = [0, 32] \<and> sizes = [32, 32] \<and> length buf = 32"
  have dichotomy: "(codes = Some (map (\<lambda>_. -1) keys) \<and> buf' = buf)
      \<or> (?hit \<and> codes = Some [32, 32] \<and> buf' = demo_objs (keys ! 0) @ demo_objs (keys ! 1))"
    using s by (auto simp: demo_store_def split: list.splits if_splits)
  show "length buf' = length buf" using dichotomy obj by auto
  fix cs assume cs: "codes = Some cs" "length keys = length ptrs" "regions_ok (length buf) ptrs sizes"
  show "length cs = length keys" using dichotomy cs(1) by auto
  show "region buf' (ptrs ! i) (sizes ! i) = demo_objs (keys ! i)" if i: "i < length keys" "cs ! i = sizes ! i" for i
  proof (cases "codes = Some (map (\<lambda>_. -1) keys)")
    case True
    then have "sizes ! i = -1" using cs(1) i by auto
    then show ?thesis using cs(2,3) i(1) by (auto simp: regions_ok_def)
  next
    case False
    then have h: ?hit "buf' = demo_objs (keys ! 0) @ demo_objs (keys ! 1)" using dichotomy by auto
    then have "i = 0 \<or> i = 1" using i(1) by auto
    then show ?thesis using h obj by (auto simp: region_def)
  qed
qed

definition demo_loader :: "nat loader" where
  "demo_loader = \<lparr> kl_layers = 1, kl_heads = 1, kl_dim = 1, kl_workers = 1, kl_staging = (\<lambda>_. replicate 32 0), kl_jobs = [],
     kl_done = [], kl_held = [], kl_waiting = (\<lambda>_. False), kl_bm = bm_init 16 4 0, kl_pool = (\<lambda>l kv b t h d. 0),
     kl_loaded = 0, kl_rejected = 0 \<rparr>"

definition demo_ctx :: tokenized_request where
  "demo_ctx = \<lparr> tr_req_id = 7, tr_init_prefill_len = 16, tr_max_output_len = 4, tr_token_ids = [1..21] \<rparr>"

definition demo_job :: job where
  "demo_job = \<lparr> job_req = 7, job_prompt = [1..20], job_ctx = demo_ctx \<rparr>"

definition demo_buf :: "nat list" where
  "demo_buf = [100..<116] @ [200..<216]"

definition demo_done :: load_done where
  "demo_done = \<lparr> ld_job = demo_job, ld_worker = 0, ld_pages = 1, ld_ok = True \<rparr>"

lemma demo_work: "worker_job demo_sha demo_store (submit demo_loader 7 [1..20] demo_ctx) 0 demo_job = Ok (demo_done, demo_buf)"
  by code_simp

definition demo_held :: "nat loader" where
  "demo_held = (submit demo_loader 7 [1..20] demo_ctx)\<lparr>kl_jobs := [], kl_staging := (\<lambda>_. replicate 32 0)(0 := demo_buf),
     kl_waiting := (\<lambda>_. False)(0 := True), kl_held := [demo_done]\<rparr>"

lemma demo_held_reach: "kl_reach demo_sha demo_store demo_held"
proof -
  have "kl_init demo_loader" by (simp add: kl_init_def demo_loader_def bm_exclusive_init)
  then have 1: "kl_reach demo_sha demo_store (submit demo_loader 7 [1..20] demo_ctx)"
    by (intro kl_reach_step[OF kl_reach_init kl_submit])
  let ?ld = "(submit demo_loader 7 [1..20] demo_ctx)\<lparr>kl_jobs := [], kl_staging := (\<lambda>_. replicate 32 0)(0 := demo_buf), kl_done := [demo_done],
     kl_waiting := (\<lambda>_. False)(0 := True)\<rparr>"
  have "kl_step demo_sha demo_store (submit demo_loader 7 [1..20] demo_ctx) ?ld"
    using kl_work[of 0 "submit demo_loader 7 [1..20] demo_ctx" demo_job "[]" demo_sha demo_store demo_done demo_buf] demo_work
    by (simp add: submit_def demo_loader_def demo_job_def)
  with 1 have 2: "kl_reach demo_sha demo_store ?ld" by (rule kl_reach_step)
  have "kl_step demo_sha demo_store ?ld demo_held"
    using kl_poll[of ?ld "[demo_done]" "?ld\<lparr>kl_done := []\<rparr>" demo_sha demo_store]
    by (simp add: poll_def demo_held_def submit_def demo_loader_def)
  with 2 show ?thesis by (rule kl_reach_step)
qed

theorem install_places_kv_witness:
  "kl_pool (snd (install demo_held demo_done)) 0 1 0 5 0 0 = 205"
proof -
  let ?r = "snd (install demo_held demo_done)"
  have i: "fst (install demo_held demo_done)" by code_simp
  then have inst: "install demo_held demo_done = (True, ?r)" by (metis (full_types) prod.collapse)
  have held: "kl_held demo_held = demo_done # []" by (simp add: demo_held_def)
  have "\<not> isl (page_chain_hashes demo_sha (job_prompt (ld_job demo_done)))" by code_simp
  then have h: "page_chain_hashes demo_sha (job_prompt (ld_job demo_done)) = Ok (projr (page_chain_hashes demo_sha (job_prompt (ld_job demo_done))))"
    by (rule Ok_projr)
  have b: "5 < ld_pages demo_done * page_tokens" "0 < kl_layers demo_held" "0 < kl_heads demo_held" "0 < kl_dim demo_held"
    by code_simp+
  have ids: "block_tables (kl_bm ?r) (job_req (ld_job demo_done)) = Some [0]" by code_simp
  have "demo_objs (projr (page_chain_hashes demo_sha (job_prompt (ld_job demo_done))) ! (5 div page_tokens) @ kv_suffix 1)
      ! obj_index demo_held (5 mod page_tokens) 0 0 0 = 205" by code_simp
  moreover have "5 div page_tokens = 0" "5 mod page_tokens = 5" by code_simp+
  ultimately show ?thesis
    using install_places_kv[OF demo_store_contract demo_held_reach held inst h b(1) _ b(2,3,4), of 1] ids by simp
qed

section \<open>A page hash names the whole prefix\<close>

text \<open>The numbers behind packed bytes.\<close>

fun unpack :: "bytes \<Rightarrow> int list" where
  "unpack (a # b # c # d # bs) = (int a + 256 * int b + 65536 * int c + 16777216 * int d) # unpack bs"
| "unpack _ = []"

lemma four_digits: "x = q1 * 256 + a \<Longrightarrow> q1 = q2 * 256 + b \<Longrightarrow> q2 = q3 * 256 + c \<Longrightarrow>
    a + 256 * b + 65536 * c + 16777216 * q3 = x" for x :: int
  by simp

lemma pack_u32_value:
  assumes "pack_u32 x = Ok bs"
  shows "\<exists>a b c d. bs = [a, b, c, d] \<and> int a + 256 * int b + 65536 * int c + 16777216 * int d = x"
proof -
  have r: "0 \<le> x" "x < 2 ^ 32"
    and bs: "bs = [nat (x mod 256), nat (x div 256 mod 256), nat (x div 65536 mod 256), nat (x div 16777216 mod 256)]"
    using assms by (auto simp: pack_u32_def split: if_splits)
  define q1 q2 q3 where q: "q1 = x div 256" "q2 = q1 div 256" "q3 = q2 div 256"
  have d: "x div 65536 = q2" "x div 16777216 = q3"
    using zdiv_zmult2_eq[of 256 x 256] zdiv_zmult2_eq[of 256 x 65536] by (simp_all add: q)
  have "x div 16777216 < 256" using r(2) by (simp add: div_less_iff_less_mult)
  then have q3: "q3 mod 256 = q3" using r(1) unfolding d(2)[symmetric] by (simp add: pos_imp_zdiv_nonneg_iff)
  have "x mod 256 + 256 * (q1 mod 256) + 65536 * (q2 mod 256) + 16777216 * q3 = x"
    by (rule four_digits[of x q1 _ q2]) (simp_all add: q)
  moreover have "int (nat (y mod 256)) = y mod 256" for y by simp
  moreover have "bs = [nat (x mod 256), nat (q1 mod 256), nat (q2 mod 256), nat (q3 mod 256)]"
    unfolding bs d q(1) ..
  ultimately show ?thesis using q3 by (intro exI conjI) (assumption, simp only:)
qed

lemma unpack_pack: "pack_page xs = Ok bs \<Longrightarrow> unpack bs = xs \<and> length bs = 4 * length xs"
proof (induction xs arbitrary: bs)
  case Nil
  then show ?case by (simp add: pack_page_def)
next
  case (Cons x xs)
  obtain b cs where b: "pack_u32 x = Ok b" and cs: "pack_page xs = Ok cs" and bs: "bs = b @ cs"
    using Cons.prems by (auto simp: pack_page_def res_simps)
  then show ?case using pack_u32_value[OF b] Cons.IH[OF cs] by auto
qed

text \<open>The inputs a chain hashes.\<close>

fun chain_inputs :: "(bytes \<Rightarrow> bytes) \<Rightarrow> bytes \<Rightarrow> nat \<Rightarrow> int list \<Rightarrow> bytes set" where
  "chain_inputs sha d 0 ts = {}"
| "chain_inputs sha d (Suc n) ts =
     (case pack_page (take page_tokens ts) of
        Inl _ \<Rightarrow> {}
      | Inr p \<Rightarrow> insert (d @ p) (chain_inputs sha (sha (d @ p)) n (drop page_tokens ts)))"

definition no_collision :: "(bytes \<Rightarrow> bytes) \<Rightarrow> int list \<Rightarrow> int list \<Rightarrow> bool" where
  "no_collision sha ts us \<longleftrightarrow>
     inj_on sha (chain_inputs sha [] (length ts div page_tokens) ts \<union> chain_inputs sha [] (length us div page_tokens) us)"

lemma take_drop_more: "take n ts = take n us \<Longrightarrow> take m (drop n ts) = take m (drop n us) \<Longrightarrow> take (n + m) ts = take (n + m) us"
  by (simp add: take_add)

lemma chain_digests_inj:
  assumes "chain_digests sha d n ts = Ok ds" and "chain_digests sha e m us = Ok es"
    and "n * page_tokens \<le> length ts" and "m * page_tokens \<le> length us"
    and "inj_on sha (chain_inputs sha d n ts \<union> chain_inputs sha e m us)" and "k < n" and "k < m" and "ds ! k = es ! k"
  shows "d = e \<and> take ((k + 1) * page_tokens) ts = take ((k + 1) * page_tokens) us"
  using assms
proof (induction k arbitrary: n m d e ts us ds es)
  case (0 n m d e ts us ds es)
  obtain n' m' where nm: "n = Suc n'" "m = Suc m'" using 0(6,7) by (metis gr0_implies_Suc)
  obtain p q where p: "pack_page (take page_tokens ts) = Ok p" and q: "pack_page (take page_tokens us) = Ok q"
    and h: "ds ! 0 = sha (d @ p)" "es ! 0 = sha (e @ q)"
    using 0(1,2) nm by (auto simp: res_simps Let_def)
  have mem: "d @ p \<in> chain_inputs sha d n ts \<union> chain_inputs sha e m us" "e @ q \<in> chain_inputs sha d n ts \<union> chain_inputs sha e m us"
    using nm p q by simp_all
  have "d @ p = e @ q" using inj_onD[OF 0(5) _ mem] 0(8) h by simp
  moreover have "length p = length q" using unpack_pack[OF p] unpack_pack[OF q] 0(3,4) nm by simp
  ultimately have "d = e" "p = q" by auto
  then show ?case using unpack_pack[OF p] unpack_pack[OF q] by simp
next
  case (Suc k n m d e ts us ds es)
  obtain n' m' where nm: "n = Suc n'" "m = Suc m'" using Suc.prems(6,7) by (metis Suc_lessE)
  obtain p q ds' es' where p: "pack_page (take page_tokens ts) = Ok p" and q: "pack_page (take page_tokens us) = Ok q"
    and r: "chain_digests sha (sha (d @ p)) n' (drop page_tokens ts) = Ok ds'" "ds = sha (d @ p) # ds'"
      "chain_digests sha (sha (e @ q)) m' (drop page_tokens us) = Ok es'" "es = sha (e @ q) # es'"
    using Suc.prems(1,2) nm by (auto simp: res_simps Let_def)
  have inj: "inj_on sha (chain_inputs sha (sha (d @ p)) n' (drop page_tokens ts) \<union> chain_inputs sha (sha (e @ q)) m' (drop page_tokens us))"
    by (rule inj_on_subset[OF Suc.prems(5)]) (use nm p q in auto)
  have IH: "sha (d @ p) = sha (e @ q) \<and> take ((k + 1) * page_tokens) (drop page_tokens ts) = take ((k + 1) * page_tokens) (drop page_tokens us)"
    by (rule Suc.IH[OF r(1,3) _ _ inj]) (use Suc.prems nm r in \<open>auto simp: algebra_simps\<close>)
  have mem: "d @ p \<in> chain_inputs sha d n ts \<union> chain_inputs sha e m us" "e @ q \<in> chain_inputs sha d n ts \<union> chain_inputs sha e m us"
    using nm p q by simp_all
  have "d @ p = e @ q" using inj_onD[OF Suc.prems(5) _ mem] IH by simp
  moreover have "length p = length q" using unpack_pack[OF p] unpack_pack[OF q] Suc.prems(3,4) nm by simp
  ultimately have "d = e" "p = q" by auto
  then have "take page_tokens ts = take page_tokens us" using unpack_pack[OF p] unpack_pack[OF q] by simp
  from take_drop_more[OF this conjunct2[OF IH]] show ?case using \<open>d = e\<close> by (simp add: algebra_simps)
qed

lemma hex_digit_inj: "a < 16 \<Longrightarrow> b < 16 \<Longrightarrow> hex_digit a = hex_digit b \<Longrightarrow> a = b"
proof -
  assume a: "a < 16" "b < 16" and e: "hex_digit a = hex_digit b"
  let ?n = "\<lambda>x. if x < 10 then 48 + x else 87 + x"
  have "of_char (hex_digit x) = ?n x" if "x < 16" for x using that by (simp add: hex_digit_def)
  then have "?n a = ?n b" using e a by metis
  then show "a = b" using a by (auto split: if_splits)
qed

lemma hex_inj: "\<forall>x \<in> set as. x < 256 \<Longrightarrow> \<forall>x \<in> set bs. x < 256 \<Longrightarrow> hex as = hex bs \<Longrightarrow> as = bs"
proof (induction as arbitrary: bs)
  case Nil
  then show ?case by (cases bs) (auto simp: hex_def)
next
  case (Cons a as)
  then obtain b cs where bs: "bs = b # cs" by (cases bs) (auto simp: hex_def)
  have e: "hex_digit (a div 16) = hex_digit (b div 16)" "hex_digit (a mod 16) = hex_digit (b mod 16)" "hex as = hex cs"
    using Cons.prems(3) bs by (auto simp: hex_def)
  have "a div 16 = b div 16" "a mod 16 = b mod 16"
    using hex_digit_inj e(1,2) Cons.prems(1,2) bs by (auto simp: div_less_iff_less_mult)
  then have "a = b" by (metis div_mult_mod_eq)
  then show ?case using Cons.IH[OF _ _ e(3)] Cons.prems(1,2) bs by simp
qed

text \<open>
  C16: The store key of a page names everything before it. If the hash function returns bytes and does not collide on the
  inputs of two chains, two prompts have the same hash at page \<open>k\<close> only when they agree on all tokens up to the end of that page:
  a fetch never returns the KV of another prefix.
\<close>

theorem page_hash_names_prefix:
  assumes "page_chain_hashes sha ts = Ok hs" and "page_chain_hashes sha us = Ok ks" and "no_collision sha ts us"
    and "\<forall>x. \<forall>b \<in> set (sha x). b < 256" and "k < length hs" and "k < length ks" and "hs ! k = ks ! k"
  shows "take ((k + 1) * page_tokens) ts = take ((k + 1) * page_tokens) us"
proof -
  obtain ds es where d: "chain_digests sha [] (length ts div page_tokens) ts = Ok ds" "hs = map hex ds"
    and e: "chain_digests sha [] (length us div page_tokens) us = Ok es" "ks = map hex es"
    using assms(1,2) by (auto simp: page_chain_hashes_def res_simps)
  have digest: "x \<in> range sha" if "chain_digests sha c n xs = Ok cs" "x \<in> set cs" for c n xs cs x
    using that by (induction n arbitrary: c xs cs) (auto simp: res_simps Let_def)
  have kd: "k < length ds" "k < length es" using assms(5,6) d(2) e(2) by auto
  have "\<forall>b \<in> set (ds ! k). b < 256" "\<forall>b \<in> set (es ! k). b < 256"
    using digest[OF d(1), of "ds ! k"] digest[OF e(1), of "es ! k"] kd assms(4) by auto
  then have "ds ! k = es ! k" using hex_inj assms(7) d(2) e(2) kd by simp
  then show ?thesis
    using chain_digests_inj[OF d(1) e(1) _ _ assms(3)[unfolded no_collision_def], of k] kd chain_digests_length[OF d(1)] chain_digests_length[OF e(1)]
    by simp
qed

theorem page_hash_names_prefix_witness:
  "projr (page_chain_hashes demo_sha [1..16]) ! 0 = projr (page_chain_hashes demo_sha [1..20]) ! 0
    \<and> take ((0 + 1) * page_tokens) [1..16] = take ((0 + 1) * page_tokens) [1..20 :: int]"
proof -
  let ?h = "\<lambda>ts. projr (page_chain_hashes demo_sha ts)"
  have ok: "page_chain_hashes demo_sha [1..16] = Ok (?h [1..16])" "page_chain_hashes demo_sha [1..20] = Ok (?h [1..20])"
    by (rule Ok_projr, code_simp)+
  let ?P = "projr (pack_page [1..16])"
  have p: "pack_page (take page_tokens [1..16]) = Ok ?P" "pack_page (take page_tokens [1..20]) = Ok ?P" by code_simp+
  have l: "length [1..16 :: int] div page_tokens = Suc 0" "length [1..20 :: int] div page_tokens = Suc 0" by code_simp+
  have "chain_inputs demo_sha [] (length [1..16 :: int] div page_tokens) [1..16]
      \<union> chain_inputs demo_sha [] (length [1..20 :: int] div page_tokens) [1..20] = {?P}"
    by (simp only: l chain_inputs.simps p sum.case) simp
  then have n: "no_collision demo_sha [1..16] [1..20]" by (simp only: no_collision_def inj_on_def) blast
  have b: "\<forall>x. \<forall>b \<in> set (demo_sha x). b < 256" by (simp add: demo_sha_def)
  have k: "0 < length (?h [1..16])" "0 < length (?h [1..20])" "?h [1..16] ! 0 = ?h [1..20] ! 0" by code_simp+
  show ?thesis using page_hash_names_prefix[OF ok n b k] k(3) by simp
qed

end
