(* ===== verification/Model_Utils.thy ===== *)
theory Model_Utils
  imports Datatypes Block_Manager
begin

text \<open>
  \<^verbatim>\<open>disagmoe/models/utils.py\<close>: the attention metadata packed into one integer buffer for a broadcast and unpacked on the other
  side, and the synthetic batches and metadata used for warm-up, profiling and graph capture. A tensor is the list of
  its entries. Assigning to a slice follows torch: the slice is cut to the tensor, and the value must have its length or length one.
  The buffers hold 32-bit integers; the model keeps the integers themselves, which is the same for the lengths and ids stored here. The main result
  is that unpacking returns what was packed.
\<close>

section \<open>Slices of tensors\<close>

definition slice_len :: "'a list \<Rightarrow> nat \<Rightarrow> nat \<Rightarrow> nat" where
  "slice_len buf a b = min b (length buf) - min a (length buf)"

definition slice_get :: "'a list \<Rightarrow> nat \<Rightarrow> nat \<Rightarrow> 'a list" where
  "slice_get buf a b = take (b - a) (drop a buf)"

definition slice_set :: "'a list \<Rightarrow> nat \<Rightarrow> nat \<Rightarrow> 'a list \<Rightarrow> 'a list res" where
  "slice_set buf a b v =
     (let n = slice_len buf a b in
      if length v = n then Ok (take a buf @ v @ drop (a + n) buf)
      else if length v = 1 then Ok (take a buf @ replicate n (hd v) @ drop (a + n) buf)
      else Raise RuntimeError)"

section \<open>Packing the attention metadata\<close>

text \<open>\<open>block_tables.shape[1]\<close>; a table with no rows is \<open>torch.tensor([])\<close>, which has one dimension only.\<close>

definition table_columns :: "int list list \<Rightarrow> nat res" where
  "table_columns rows = (case rows of [] \<Rightarrow> Raise IndexError | r # _ \<Rightarrow> Ok (length r))"

definition pack_flash_attn_meta ::
  "int list \<Rightarrow> int list \<times> int list \<Rightarrow> int \<Rightarrow> flash_attn_metadata \<Rightarrow> (int list \<times> int list \<times> int list) res" where
  "pack_flash_attn_meta buf locs layer m =
     (let n = num_prefills m + fa_num_decode_tokens m; offset = 5 + n in
      rbind (py_set buf 0 layer) (\<lambda>buf.
      rbind (py_set buf 1 (int (num_prefills m))) (\<lambda>buf.
      rbind (py_set buf 2 (int (fa_num_prefill_tokens m))) (\<lambda>buf.
      rbind (py_set buf 3 (int (fa_num_decode_tokens m))) (\<lambda>buf.
      rbind (table_columns (fa_block_tables m)) (\<lambda>cols.
      rbind (py_set buf 4 (int cols)) (\<lambda>buf.
      rbind (py_assert (length (fa_seq_lens_tensor m) = n)) (\<lambda>_.
      rbind (slice_set buf 5 offset (fa_seq_lens_tensor m)) (\<lambda>buf.
      rbind (py_set buf (int offset) (int (max_query_len m))) (\<lambda>buf.
      rbind (py_set buf (int offset + 1) (int (max_prefill_seq_len m))) (\<lambda>buf.
      rbind (py_set buf (int offset + 2) (max_decode_seq_len m)) (\<lambda>buf.
      rbind (py_assert (length (context_lens_tensor m) = n)) (\<lambda>_.
      rbind (slice_set buf (offset + 3) (offset + 3 + n) (context_lens_tensor m)) (\<lambda>buf.
      rbind (if num_prefills m > 0 then slice_set (fst locs) 0 (num_prefills m + 1) (fa_query_start_loc m) else Ok (fst locs)) (\<lambda>l0.
      rbind (slice_set (snd locs) 0 (n + 1) (fa_seq_start_loc m)) (\<lambda>l1.
      Ok (buf, l0, l1)))))))))))))))))"

record unpacked_meta =
  um_num_prefills :: int
  um_num_prefill_tokens :: int
  um_num_decode_tokens :: int
  um_seq_lens :: "int list"
  um_max_query_len :: int
  um_max_prefill_seq_len :: int
  um_max_decode_seq_len :: int
  um_query_start_loc :: "int list option"
  um_seq_start_loc :: "int list"
  um_context_lens :: "int list"

definition unpack_flash_attn_meta :: "int list \<Rightarrow> int list \<times> int list \<Rightarrow> (int \<times> int \<times> unpacked_meta) res" where
  "unpack_flash_attn_meta buf locs =
     rbind (py_get buf 0) (\<lambda>layer.
     rbind (py_get buf 1) (\<lambda>np.
     rbind (py_get buf 2) (\<lambda>npt.
     rbind (py_get buf 3) (\<lambda>nd.
     rbind (py_get buf 4) (\<lambda>cols.
     (let n = nat (np + nd); offset = 5 + n in
      rbind (py_get buf (int offset)) (\<lambda>mq.
      rbind (py_get buf (int offset + 1)) (\<lambda>mp.
      rbind (py_get buf (int offset + 2)) (\<lambda>md.
      Ok (layer, cols,
        \<lparr> um_num_prefills = np, um_num_prefill_tokens = npt, um_num_decode_tokens = nd, um_seq_lens = slice_get buf 5 offset,
          um_max_query_len = mq, um_max_prefill_seq_len = mp, um_max_decode_seq_len = md,
          um_query_start_loc = (if np > 0 then Some (slice_get (fst locs) 0 (nat np + 1)) else None),
          um_seq_start_loc = slice_get (snd locs) 0 (n + 1), um_context_lens = slice_get buf (offset + 3) (offset + 3 + n) \<rparr>))))))))))"

section \<open>Synthetic batches\<close>

definition make_seqlens :: "int list \<Rightarrow> int list" where
  "make_seqlens lens = foldl (\<lambda>acc l. acc @ [last acc + l]) [0] lens"

datatype map_mode = Prefill | Decode | OtherMode

text \<open>\<open>pad_sequence\<close> pads every row to the longest; it needs at least one row.\<close>

definition pad_rows :: "int list list \<Rightarrow> int list list res" where
  "pad_rows rows =
     (if rows = [] then Raise RuntimeError
      else Ok (map (\<lambda>r. r @ replicate (foldl max 0 (map length rows) - length r) 0) rows))"

definition naive_row :: "int \<Rightarrow> map_mode \<Rightarrow> int list list \<times> int list \<times> int \<Rightarrow> int \<Rightarrow> (int list list \<times> int list \<times> int) res" where
  "naive_row bs mode st l =
     (let (table, slots, start) = st in
      if bs = 0 then Raise ZeroDivisionError
      else let stop = (l + bs) div bs + start; table = table @ [[start..stop - 1]] in
        (case mode of
           Prefill \<Rightarrow> Ok (table, slots @ [start * bs..start * bs + l - 1], stop)
         | Decode \<Rightarrow> Ok (table, slots @ [start * bs + l - 1], stop)
         | OtherMode \<Rightarrow> Raise AssertionError))"

definition make_naive_mapping :: "int \<Rightarrow> int list \<Rightarrow> map_mode \<Rightarrow> (int list list \<times> int list) res" where
  "make_naive_mapping bs lens mode =
     rbind (foldM (naive_row bs mode) ([], [], 4) lens) (\<lambda>(table, slots, _).
     rbind (pad_rows table) (\<lambda>table. Ok (table, slots)))"

definition make_profile_decode_meta :: "nat \<Rightarrow> flash_attn_metadata" where
  "make_profile_decode_meta n =
     \<lparr> num_prefills = 0, fa_num_prefill_tokens = 0, fa_num_decode_tokens = n, fa_slot_mapping = replicate n 0,
       fa_seq_lens = replicate n 1, fa_seq_lens_tensor = replicate n 1, max_query_len = 0, max_prefill_seq_len = 0,
       max_decode_seq_len = 1, max_decode_query_len = 1, fa_query_start_loc = [0..int n], fa_seq_start_loc = [0..int n],
       context_lens_tensor = replicate n 0, fa_block_tables = map (\<lambda>i. [int i]) [0..<n], use_cuda_graph = False,
       enable_kv_scales_calculation = True \<rparr>"

text \<open>\<open>max_decode_query_len\<close> is left to the default of the metadata class, a parameter here.\<close>

definition make_prefill_meta :: "nat \<Rightarrow> nat \<Rightarrow> int \<Rightarrow> flash_attn_metadata res" where
  "make_prefill_meta default_decode_query_len n bs =
     (let lens = replicate n 1; seqlens_q = make_seqlens lens in
      rbind (py_max lens) (\<lambda>mx.
      rbind (make_naive_mapping bs lens Prefill) (\<lambda>(table, slots).
      Ok \<lparr> num_prefills = n, fa_num_prefill_tokens = nat (sum_list lens), fa_num_decode_tokens = 0, fa_slot_mapping = slots,
           fa_seq_lens = lens, fa_seq_lens_tensor = lens, max_query_len = nat mx, max_prefill_seq_len = nat mx,
           max_decode_seq_len = 0, max_decode_query_len = default_decode_query_len, fa_query_start_loc = seqlens_q, fa_seq_start_loc = seqlens_q,
           context_lens_tensor = replicate n 0, fa_block_tables = [], use_cuda_graph = False,
           enable_kv_scales_calculation = True \<rparr>)))"

definition make_attention_dummy_batch :: "nat \<Rightarrow> nat \<Rightarrow> int \<Rightarrow> attn_batch" where
  "make_attention_dummy_batch num_prefill num_decode seq_len =
     (let bs = num_prefill + num_decode in
      \<lparr> ab_layer_id = 0, ab_req_ids = [0..int bs - 1], ab_init_prefill_lens = replicate bs seq_len,
        ab_num_prefill_seqs = num_prefill, ab_num_prefill_tokens = num_prefill, ab_num_decode_tokens = num_decode,
        ab_req_indices = Some [0..int bs - 1], ab_seq_lens = Some (replicate bs seq_len),
        ab_seq_lens_tensor = Some (replicate bs seq_len) \<rparr>)"

definition make_expert_dummy_inputs :: "nat \<Rightarrow> nat \<Rightarrow> (nat \<times> nat list \<times> nat list) res" where
  "make_expert_dummy_inputs batch_size n_experts =
     (if n_experts = 0 then Raise ZeroDivisionError
      else Ok (batch_size, replicate n_experts (batch_size div n_experts),
               concat (map (\<lambda>i. replicate (batch_size div n_experts) i) [0..<n_experts])))"

section \<open>Unpacking returns what was packed\<close>

lemma slice_set_eq:
  assumes "a + length v \<le> length buf" and "b = a + length v"
  shows "slice_set buf a b v = Ok (take a buf @ v @ drop b buf)"
  using assms by (simp add: slice_set_def slice_len_def min_def)

lemma slice_set_prefix: "length v = n \<Longrightarrow> n \<le> length buf \<Longrightarrow> slice_set buf 0 n v = Ok (v @ drop n buf)"
  using slice_set_eq[of 0 v buf "length v"] by auto

lemma slice_set_all: "length v = length buf \<Longrightarrow> slice_set buf 0 (length buf) v = Ok v"
  by (simp add: slice_set_def slice_len_def)

lemma slice_set_at:
  assumes "length v = length w"
  shows "slice_set (xs @ w @ ys) (length xs) (length xs + length v) v = Ok (xs @ v @ ys)"
  using assms slice_set_eq[of "length xs" v "xs @ w @ ys" "length xs + length v"] by simp

lemma slice_get_at: "length xs = a \<Longrightarrow> slice_get (xs @ v @ ys) a (a + length v) = v"
  by (simp add: slice_get_def)

lemma py_set_nat: "i < length xs \<Longrightarrow> py_set xs (int i) v = Ok (xs[i := v])"
  using py_set_nonneg[of "int i" xs v] by simp

lemma py_set_numerals:
  "0 < length xs \<Longrightarrow> py_set xs 0 v = Ok (xs[0 := v])" "1 < length xs \<Longrightarrow> py_set xs 1 v = Ok (xs[1 := v])"
  "2 < length xs \<Longrightarrow> py_set xs 2 v = Ok (xs[2 := v])" "3 < length xs \<Longrightarrow> py_set xs 3 v = Ok (xs[3 := v])"
  "4 < length xs \<Longrightarrow> py_set xs 4 v = Ok (xs[4 := v])"
  using py_set_nat[of 0 xs v] py_set_nat[of 1 xs v] py_set_nat[of 2 xs v] py_set_nat[of 3 xs v] py_set_nat[of 4 xs v] by simp_all

lemma split_five: "5 \<le> length buf \<Longrightarrow> \<exists>a b c d e rest. buf = a # b # c # d # e # rest"
  by (cases buf; cases "tl buf"; cases "tl (tl buf)"; cases "tl (tl (tl buf))"; cases "tl (tl (tl (tl buf)))") auto

lemma split_three: "3 \<le> length buf \<Longrightarrow> \<exists>a b c rest. buf = a # b # c # rest"
  by (cases buf; cases "tl buf"; cases "tl (tl buf)") auto

text \<open>The buffer after packing: five numbers, the sequence lengths, three numbers, the context lengths, and the old rest.\<close>

lemma packed_buffer:
  fixes n :: nat
  assumes "table_columns (fa_block_tables m) = Ok cols" and "n = num_prefills m + fa_num_decode_tokens m" and "8 + 2 * n \<le> length buf"
    and "length (fa_seq_lens_tensor m) = n" and "length (context_lens_tensor m) = n"
    and "num_prefills m > 0 \<longrightarrow> length (fa_query_start_loc m) = num_prefills m + 1 \<and> num_prefills m + 1 \<le> length (fst locs)"
    and "length (fa_seq_start_loc m) = n + 1" and "n + 1 \<le> length (snd locs)"
  shows "\<exists>rest. pack_flash_attn_meta buf locs layer m =
      Ok ([layer, int (num_prefills m), int (fa_num_prefill_tokens m), int (fa_num_decode_tokens m), int cols]
            @ fa_seq_lens_tensor m @ [int (max_query_len m), int (max_prefill_seq_len m), max_decode_seq_len m] @ context_lens_tensor m @ rest,
          (if num_prefills m > 0 then fa_query_start_loc m @ drop (num_prefills m + 1) (fst locs) else fst locs),
          fa_seq_start_loc m @ drop (n + 1) (snd locs))"
proof -
  obtain a b c d e r where buf: "buf = a # b # c # d # e # r" using split_five[of buf] assms(3) by auto
  define head where "head = [layer, int (num_prefills m), int (fa_num_prefill_tokens m), int (fa_num_decode_tokens m), int cols]"
  have lr: "3 + 2 * n \<le> length r" using assms(3) buf by simp
  let ?sl = "fa_seq_lens_tensor m" and ?cl = "context_lens_tensor m"
  let ?r1 = "drop n r"
  obtain x y z r2 where r1: "?r1 = x # y # z # r2"
    using split_three[of ?r1] lr by (auto simp: le_diff_conv2)
  have lr2: "n \<le> length r2" using lr arg_cong[OF r1, of length] by simp
  have len: "length head = 5" by (simp add: head_def)
  have s1: "slice_set (head @ r) 5 (5 + n) ?sl = Ok (head @ ?sl @ ?r1)"
    using slice_set_at[of ?sl "take n r" head ?r1] assms(4) lr by (simp add: len)
  let ?b1 = "head @ ?sl @ x # y # z # r2"
  have q: "py_set ?b1 (int (5 + n)) (int (max_query_len m)) = Ok (head @ ?sl @ int (max_query_len m) # y # z # r2)"
    using py_set_nat[of "5 + n" ?b1] assms(4) len by (simp add: list_update_append)
  have p: "py_set (head @ ?sl @ int (max_query_len m) # y # z # r2) (int (5 + n) + 1) (int (max_prefill_seq_len m))
      = Ok (head @ ?sl @ int (max_query_len m) # int (max_prefill_seq_len m) # z # r2)"
    using py_set_nat[of "5 + n + 1" "head @ ?sl @ int (max_query_len m) # y # z # r2" "int (max_prefill_seq_len m)"] assms(4) len
    by (simp add: list_update_append add.commute)
  have dq: "py_set (head @ ?sl @ int (max_query_len m) # int (max_prefill_seq_len m) # z # r2) (int (5 + n) + 2) (max_decode_seq_len m)
      = Ok (head @ ?sl @ int (max_query_len m) # int (max_prefill_seq_len m) # max_decode_seq_len m # r2)"
    using py_set_nat[of "5 + n + 2" "head @ ?sl @ int (max_query_len m) # int (max_prefill_seq_len m) # z # r2" "max_decode_seq_len m"] assms(4) len
    by (simp add: list_update_append add.commute)
  let ?b2 = "head @ ?sl @ int (max_query_len m) # int (max_prefill_seq_len m) # max_decode_seq_len m # r2"
  have s2: "slice_set ?b2 (5 + n + 3) (5 + n + 3 + n) ?cl
      = Ok (head @ ?sl @ int (max_query_len m) # int (max_prefill_seq_len m) # max_decode_seq_len m # ?cl @ drop n r2)"
    using slice_set_at[of ?cl "take n r2" "head @ ?sl @ [int (max_query_len m), int (max_prefill_seq_len m), max_decode_seq_len m]" "drop n r2"]
      assms(4,5) lr2 by (simp add: len)
  have q0: "num_prefills m > 0 \<Longrightarrow> slice_set (fst locs) 0 (num_prefills m + 1) (fa_query_start_loc m) = Ok (fa_query_start_loc m @ drop (num_prefills m + 1) (fst locs))"
    using slice_set_eq[of 0 "fa_query_start_loc m" "fst locs"] assms(6) by simp
  have q1: "slice_set (snd locs) 0 (n + 1) (fa_seq_start_loc m) = Ok (fa_seq_start_loc m @ drop (n + 1) (snd locs))"
    using slice_set_eq[of 0 "fa_seq_start_loc m" "snd locs"] assms(7,8) by simp
  have hd: "rbind (py_set buf 0 layer) (\<lambda>buf. rbind (py_set buf 1 (int (num_prefills m))) (\<lambda>buf. rbind (py_set buf 2 (int (fa_num_prefill_tokens m))) (\<lambda>buf.
      rbind (py_set buf 3 (int (fa_num_decode_tokens m))) (\<lambda>buf. rbind (table_columns (fa_block_tables m)) (\<lambda>cols. rbind (py_set buf 4 (int cols)) f))))) = f (head @ r)" for f :: "int list \<Rightarrow> (int list \<times> int list \<times> int list) res"
    by (simp add: buf py_set_numerals head_def assms(1))
  have locs: "(if num_prefills m > 0 then slice_set (fst locs) 0 (num_prefills m + 1) (fa_query_start_loc m) else Ok (fst locs))
      = Ok (if num_prefills m > 0 then fa_query_start_loc m @ drop (num_prefills m + 1) (fst locs) else fst locs)"
    using q0 by simp
  have t: "py_assert (length ?sl = n) = Ok ()" "py_assert (length ?cl = n) = Ok ()" using assms(4,5) by simp_all
  show ?thesis
    unfolding pack_flash_attn_meta_def Let_def assms(2)[symmetric] hd t s1 rbind_Ok r1 q p dq s2 locs q1 head_def[symmetric]
    by (intro exI[of _ "drop n r2"]) simp
qed

text \<open>Reading such a buffer.\<close>

lemma py_get_at: "i = int (length xs) \<Longrightarrow> py_get (xs @ y # ys) i = Ok y"
  using py_get_nat[of "length xs" "xs @ y # ys"] by simp

lemma unpack_buffer:
  assumes "length sl = np + nd" and "length cl = np + nd"
  shows "unpack_flash_attn_meta ([layer, int np, npt, int nd, cols] @ sl @ [mq, mp, md] @ cl @ rest) locs =
    Ok (layer, cols, \<lparr> um_num_prefills = int np, um_num_prefill_tokens = npt, um_num_decode_tokens = int nd, um_seq_lens = sl,
      um_max_query_len = mq, um_max_prefill_seq_len = mp, um_max_decode_seq_len = md,
      um_query_start_loc = (if np > 0 then Some (take (np + 1) (fst locs)) else None),
      um_seq_start_loc = take (np + nd + 1) (snd locs), um_context_lens = cl \<rparr>)"
proof -
  let ?h = "[layer, int np, npt, int nd, cols]"
  let ?buf = "?h @ sl @ [mq, mp, md] @ cl @ rest"
  have g: "py_get ?buf 0 = Ok layer" "py_get ?buf 1 = Ok (int np)" "py_get ?buf 2 = Ok npt" "py_get ?buf 3 = Ok (int nd)" "py_get ?buf 4 = Ok cols"
    using py_get_at[of 0 "[]" layer] py_get_at[of 1 "[layer]" "int np"] py_get_at[of 2 "[layer, int np]" npt]
      py_get_at[of 3 "[layer, int np, npt]" "int nd"] py_get_at[of 4 "[layer, int np, npt, int nd]" cols] by simp_all
  have o: "py_get ?buf (int (5 + (np + nd))) = Ok mq" "py_get ?buf (int (5 + (np + nd)) + 1) = Ok mp" "py_get ?buf (int (5 + (np + nd)) + 2) = Ok md"
    using py_get_at[of "int (5 + (np + nd))" "?h @ sl" mq] py_get_at[of "int (5 + (np + nd)) + 1" "?h @ sl @ [mq]" mp]
      py_get_at[of "int (5 + (np + nd)) + 2" "?h @ sl @ [mq, mp]" md] assms(1) by simp_all
  have n: "nat (int np + int nd) = np + nd" by simp
  have s: "slice_get ?buf 5 (5 + (np + nd)) = sl" "slice_get ?buf (5 + (np + nd) + 3) (5 + (np + nd) + 3 + (np + nd)) = cl"
    using slice_get_at[of ?h 5 sl] slice_get_at[of "?h @ sl @ [mq, mp, md]" "5 + (np + nd) + 3" cl rest] assms by simp_all
  show ?thesis
    unfolding unpack_flash_attn_meta_def g rbind_Ok Let_def n o s by (simp add: slice_get_def)
qed

text \<open>
  C24: Unpacking undoes packing. For metadata with a block table, one sequence length and one context length per sequence, start
  locations of the right length, and buffers that are large enough, packing returns, and unpacking the buffers
  returns the layer, the width of the block table, the counts, the lengths and the start locations that were packed; without prefills the
  query start locations are \<open>None\<close>.
\<close>

theorem unpack_pack_flash_attn_meta:
  assumes "table_columns (fa_block_tables m) = Ok cols" and "n = num_prefills m + fa_num_decode_tokens m" and "8 + 2 * n \<le> length buf"
    and "length (fa_seq_lens_tensor m) = n" and "length (context_lens_tensor m) = n"
    and "num_prefills m > 0 \<longrightarrow> length (fa_query_start_loc m) = num_prefills m + 1 \<and> num_prefills m + 1 \<le> length (fst locs)"
    and "length (fa_seq_start_loc m) = n + 1" and "n + 1 \<le> length (snd locs)"
  shows "rbind (pack_flash_attn_meta buf locs layer m) (\<lambda>(buf', locs'). unpack_flash_attn_meta buf' locs') =
    Ok (layer, int cols, \<lparr> um_num_prefills = int (num_prefills m), um_num_prefill_tokens = int (fa_num_prefill_tokens m),
      um_num_decode_tokens = int (fa_num_decode_tokens m), um_seq_lens = fa_seq_lens_tensor m,
      um_max_query_len = int (max_query_len m), um_max_prefill_seq_len = int (max_prefill_seq_len m), um_max_decode_seq_len = max_decode_seq_len m,
      um_query_start_loc = (if num_prefills m > 0 then Some (fa_query_start_loc m) else None),
      um_seq_start_loc = fa_seq_start_loc m, um_context_lens = context_lens_tensor m \<rparr>)"
proof -
  obtain rest where p: "pack_flash_attn_meta buf locs layer m =
      Ok ([layer, int (num_prefills m), int (fa_num_prefill_tokens m), int (fa_num_decode_tokens m), int cols]
            @ fa_seq_lens_tensor m @ [int (max_query_len m), int (max_prefill_seq_len m), max_decode_seq_len m] @ context_lens_tensor m @ rest,
          (if num_prefills m > 0 then fa_query_start_loc m @ drop (num_prefills m + 1) (fst locs) else fst locs),
          fa_seq_start_loc m @ drop (n + 1) (snd locs))"
    using packed_buffer[OF assms] by blast
  show ?thesis
    unfolding p rbind_Ok prod.case using unpack_buffer assms(2,4-7) by simp
qed

theorem unpack_pack_flash_attn_meta_witness:
  "rbind (pack_flash_attn_meta (replicate 12 0) (replicate 4 0, replicate 4 0) 3 (make_profile_decode_meta 2))
     (\<lambda>(buf', locs'). unpack_flash_attn_meta buf' locs') =
   Ok (3, 1, \<lparr> um_num_prefills = 0, um_num_prefill_tokens = 0, um_num_decode_tokens = 2, um_seq_lens = [1, 1],
      um_max_query_len = 0, um_max_prefill_seq_len = 0, um_max_decode_seq_len = 1, um_query_start_loc = None,
      um_seq_start_loc = [0, 1, 2], um_context_lens = [0, 0] \<rparr>)"
  using unpack_pack_flash_attn_meta[of "make_profile_decode_meta 2" 1 2 "replicate 12 0" "(replicate 4 0, replicate 4 0)" 3]
  by (simp add: make_profile_decode_meta_def table_columns_def numeral_2_eq_2 upto.simps)

section \<open>The synthetic mappings\<close>

text \<open>
  The naive mapping gives every sequence blocks of its own, from block 4 on, and in decode mode a slot in a block of its row.
\<close>

definition naive_ok :: "int \<Rightarrow> int list list \<times> int list \<times> int \<Rightarrow> bool" where
  "naive_ok bs st \<longleftrightarrow> (case st of (table, slots, start) \<Rightarrow>
     4 \<le> start \<and> distinct (concat table) \<and> (\<forall>b \<in> set (concat table). 4 \<le> b \<and> b < start)
     \<and> list_all2 (\<lambda>row slot. slot div bs \<in> set row) table slots)"

lemma naive_row_ok:
  assumes "0 < bs" and "1 \<le> l" and "naive_ok bs st"
  shows "\<exists>st'. naive_row bs Decode st l = Ok st' \<and> naive_ok bs st'"
proof -
  obtain table slots start where st: "st = (table, slots, start)" by (cases st)
  let ?n = "(l + bs) div bs"
  have "start + (l - 1) div bs < start + ?n" using assms(1,2) zdiv_mono1[of "l - 1" l bs] by (simp add: div_add_self2)
  moreover have "0 \<le> (l - 1) div bs" using assms(1,2) by (simp add: pos_imp_zdiv_nonneg_iff)
  moreover have "(start * bs + l - 1) div bs = start + (l - 1) div bs"
    using assms(1) div_mult_self1[of bs "l - 1" start] by (simp add: algebra_simps)
  ultimately have "(start * bs + l - 1) div bs \<in> {start..?n + start - 1}" by auto
  then show ?thesis
    using assms by (auto simp: st naive_row_def naive_ok_def Let_def list_all2_appendI) fastforce+
qed

lemma naive_mapping_private:
  assumes "0 < bs" and "\<forall>l \<in> set lens. 1 \<le> l" and "lens \<noteq> []"
  shows "\<exists>table slots n. foldM (naive_row bs Decode) ([], [], 4) lens = Ok (table, slots, n) \<and> naive_ok bs (table, slots, n)"
  using foldM_total[of "naive_ok bs" "([], [], 4)" lens "naive_row bs Decode"] naive_row_ok[OF assms(1)] assms(2)
  by (force simp: naive_ok_def)

lemma make_seqlens_snoc: "make_seqlens (ls @ [l]) = make_seqlens ls @ [last (make_seqlens ls) + l]"
  by (simp add: make_seqlens_def)

lemma make_seqlens_prefix_sums: "make_seqlens lens = map (\<lambda>i. sum_list (take i lens)) [0..<Suc (length lens)]"
proof (induction lens rule: rev_induct)
  case (snoc l ls)
  have "last (make_seqlens ls) = sum_list ls" by (simp add: snoc)
  then show ?case by (simp add: make_seqlens_snoc snoc)
qed (simp add: make_seqlens_def)

end
