(* ===== verification/Experts.thy ===== *)
theory Experts
  imports Complex_Main Metadata Sliding_Window
begin

text \<open>
  \<^verbatim>\<open>disagmoe/models/experts.py\<close> and the expert side of \<^verbatim>\<open>disagmoe/executor/executor.py\<close>: the expert
  feed-forward classes, the preparation of the per-expert row counts and per-row expert indices from the batch metadata, and the
  executor that dispatches between the classes. Values are reals: rounding is not modelled. The grouped matrix products of CUTLASS and DeepGEMM
  are parameters; the row groups CUTLASS is given are those of the set-up kernel in \<^verbatim>\<open>csrc/cuda_ops/grouped_gemm.cu\<close>. The FP8 classes are a
  parameter as well. The main result is that every class gives each row of a sorted batch the feed-forward network of its own expert.
\<close>

section \<open>Activations\<close>

type_synonym mat = "nat \<Rightarrow> nat \<Rightarrow> real"

definition matvec :: "nat \<Rightarrow> vec \<Rightarrow> mat \<Rightarrow> vec" where
  "matvec K x W = (\<lambda>j. \<Sum>i \<leftarrow> [0..<K]. x i * W i j)"

definition vadd :: "vec \<Rightarrow> vec \<Rightarrow> vec" where
  "vadd x y = (\<lambda>i. x i + y i)"

definition sigmoid :: "real \<Rightarrow> real" where
  "sigmoid x = 1 / (1 + exp (- x))"

definition silu :: "real \<Rightarrow> real" where
  "silu x = x * sigmoid x"

text \<open>The fused projection is \<open>[gate | up]\<close>, each \<open>isz\<close> wide.\<close>

definition apply_glu_activation :: "nat \<Rightarrow> real option \<Rightarrow> real \<Rightarrow> vec \<Rightarrow> vec" where
  "apply_glu_activation isz swiglu_limit swiglu_alpha cache_up =
     (\<lambda>i. let gate = cache_up i; up = cache_up (isz + i) in
        case swiglu_limit of
          None \<Rightarrow> silu gate * up
        | Some l \<Rightarrow> (let gate = min gate l; up = min (max up (- l)) l in (up + 1) * (gate * sigmoid (gate * swiglu_alpha))))"

definition shared_expert :: "nat \<Rightarrow> (vec \<Rightarrow> vec) \<Rightarrow> (vec \<Rightarrow> vec) \<Rightarrow> vec \<Rightarrow> vec" where
  "shared_expert isz gate_up_proj down_proj x =
     (let gate_up = gate_up_proj x in down_proj (\<lambda>i. silu (gate_up i) * gate_up (isz + i)))"

section \<open>The expert classes\<close>

record experts =
  ex_hidden :: nat
  ex_isz :: nat
  ex_num :: nat
  ex_limit :: "real option"
  ex_alpha :: real
  ex_w13 :: "nat \<Rightarrow> mat"
  ex_w2 :: "nat \<Rightarrow> mat"
  ex_bias :: "(vec list \<times> vec list) option"

text \<open>The set-up kernel: the number of rows and the first row of every expert.\<close>

fun gemm_args :: "int \<Rightarrow> int list \<Rightarrow> (int \<times> int) list" where
  "gemm_args offset [] = []"
| "gemm_args offset (M # Ms) = (M, offset) # gemm_args (offset + M) Ms"

text \<open>
  The grouped product: inner dimension, one matrix per group, the groups, the input rows and the output buffer, to the output. The product of
  DeepGEMM takes one matrix index per row instead.
\<close>

type_synonym gemm = "nat \<Rightarrow> (nat \<Rightarrow> mat) \<Rightarrow> (int \<times> int) list \<Rightarrow> vec list \<Rightarrow> vec list \<Rightarrow> vec list"
type_synonym dgemm = "nat \<Rightarrow> (nat \<Rightarrow> mat) \<Rightarrow> vec list \<Rightarrow> vec list \<Rightarrow> int list \<Rightarrow> vec list"

text \<open>Adding one bias row per token: \<open>rows + bias[m_indices]\<close>, with the broadcasting of torch.\<close>

definition add_rows :: "vec list \<Rightarrow> vec list \<Rightarrow> vec list res" where
  "add_rows rows g =
     (if length g = length rows then Ok (map2 vadd rows g)
      else if length g = 1 then Ok (map (\<lambda>r. vadd r (g ! 0)) rows)
      else if length rows = 1 then Ok (map (vadd (rows ! 0)) g)
      else Raise RuntimeError)"

definition add_bias :: "vec list \<Rightarrow> int list \<Rightarrow> vec list \<Rightarrow> vec list res" where
  "add_bias bias m_indices rows = rbind (mapM (py_get bias) m_indices) (add_rows rows)"

definition cutlass_forward ::
  "gemm \<Rightarrow> vec \<Rightarrow> experts \<Rightarrow> nat \<Rightarrow> vec list \<Rightarrow> int list \<Rightarrow> int list option \<Rightarrow> vec list res" where
  "cutlass_forward gemm junk ex bs hiddens batch_sizes m_indices =
     (let cache_up = gemm (ex_hidden ex) (ex_w13 ex) (gemm_args 0 batch_sizes) hiddens (replicate bs junk) in
      rbind (case ex_bias ex of
               None \<Rightarrow> Ok cache_up
             | Some (b13, b2) \<Rightarrow> (case m_indices of None \<Rightarrow> Raise AssertionError | Some m \<Rightarrow> add_bias b13 m cache_up)) (\<lambda>cache_up.
      (let up = map (apply_glu_activation (ex_isz ex) (ex_limit ex) (ex_alpha ex)) cache_up;
           down_out = gemm (ex_isz ex) (ex_w2 ex) (gemm_args 0 batch_sizes) up (replicate bs junk) in
       case ex_bias ex of
         None \<Rightarrow> Ok down_out
       | Some (b13, b2) \<Rightarrow> (case m_indices of None \<Rightarrow> Raise AttributeError | Some m \<Rightarrow> add_bias b2 m down_out))))"

definition deep_gemm_forward :: "dgemm \<Rightarrow> vec \<Rightarrow> experts \<Rightarrow> nat \<Rightarrow> vec list \<Rightarrow> int list \<Rightarrow> vec list" where
  "deep_gemm_forward dgemm junk ex bs hiddens m_indices =
     (let up_out = dgemm (ex_hidden ex) (ex_w13 ex) hiddens (replicate bs junk) m_indices;
          up = map (\<lambda>u i. silu (u i) * u (ex_isz ex + i)) up_out
      in dgemm (ex_isz ex) (ex_w2 ex) up (replicate bs junk) m_indices)"

text \<open>The serial class slices the rows of each expert in turn; concatenating no results raises.\<close>

definition serial_calc :: "experts \<Rightarrow> nat \<Rightarrow> vec \<Rightarrow> vec" where
  "serial_calc ex e x =
     (let up = matvec (ex_hidden ex) x (ex_w13 ex e) in
      matvec (ex_isz ex) (\<lambda>i. silu (up i) * up (ex_isz ex + i)) (ex_w2 ex e))"

fun serial_loop :: "experts \<Rightarrow> vec list \<Rightarrow> nat \<Rightarrow> nat \<Rightarrow> int list \<Rightarrow> vec list list" where
  "serial_loop ex hiddens s i [] = []"
| "serial_loop ex hiddens s i (n # ns) =
     (if n = 0 then serial_loop ex hiddens s (Suc i) ns
      else map (serial_calc ex i) (take (nat n) (drop s hiddens)) # serial_loop ex hiddens (s + nat n) (Suc i) ns)"

definition serial_forward :: "experts \<Rightarrow> vec list \<Rightarrow> int list \<Rightarrow> vec list res" where
  "serial_forward ex hiddens batch_sizes =
     (let results = serial_loop ex hiddens 0 0 batch_sizes in
      if results = [] then Raise RuntimeError else Ok (concat results))"

section \<open>The executor\<close>

datatype expert_cls = MoEExpertsSerial | MoEExpertsCUTLASS | MoEExpertsCUTLASSFP8 | MoEExpertsDeepGemmBF16 | MoEExpertsDeepGemmFP8

definition get_expert_cls :: "bool \<Rightarrow> bool \<Rightarrow> string \<Rightarrow> expert_cls" where
  "get_expert_cls enable_grouped_gemm less_than_sm90 quant_method =
     (if \<not> enable_grouped_gemm then MoEExpertsSerial
      else if less_than_sm90 then (if quant_method = ''fp8'' then MoEExpertsCUTLASSFP8 else MoEExpertsCUTLASS)
      else if quant_method = ''fp8'' then MoEExpertsDeepGemmFP8
      else MoEExpertsDeepGemmBF16)"

text \<open>The base class: the position of every layer id.\<close>

definition layer_mappings_of :: "int list \<Rightarrow> int list res" where
  "layer_mappings_of layer_ids =
     (if layer_ids = [] then Raise ValueError
      else foldM (\<lambda>m (i, id). py_set m id (int i)) (replicate (nat (Max (set layer_ids) + 1)) 0) (enumerate 0 layer_ids))"

record experts_executor =
  ee_layer_ids :: "int list"
  ee_layer_mappings :: "int list"
  ee_cls :: expert_cls
  ee_num_experts :: int
  ee_local_to_global :: "int list"
  ee_global_to_local :: "int list"
  ee_expert_bias :: bool
  ee_max_batch_size :: nat
  ee_operators :: "experts list"

text \<open>The constructor, given the layers' weights: it checks the quantisation method, and that only CUTLASS has biases or a clamp.\<close>

definition experts_executor_init ::
  "int list \<Rightarrow> int \<Rightarrow> int list \<Rightarrow> int list \<Rightarrow> bool \<Rightarrow> bool \<Rightarrow> string option \<Rightarrow> real option \<Rightarrow> bool \<Rightarrow> nat \<Rightarrow> experts list
   \<Rightarrow> experts_executor res" where
  "experts_executor_init layer_ids num_experts l2g g2l enable_grouped less_sm90 moe_linear_quant swiglu_limit expert_bias max_bs weights =
     rbind (layer_mappings_of layer_ids) (\<lambda>mappings.
     (let quant = (case moe_linear_quant of None \<Rightarrow> ''none'' | Some q \<Rightarrow> if q = '''' then ''none'' else q) in
      if quant \<noteq> ''none'' \<and> quant \<noteq> ''fp8'' then Raise ValueError
      else let cls = get_expert_cls enable_grouped less_sm90 quant in
        rbind (py_assert (cls = MoEExpertsCUTLASS \<or> cls = MoEExpertsCUTLASSFP8 \<or> (swiglu_limit = None \<and> \<not> expert_bias))) (\<lambda>_.
        Ok \<lparr> ee_layer_ids = layer_ids, ee_layer_mappings = mappings, ee_cls = cls, ee_num_experts = num_experts,
             ee_local_to_global = l2g, ee_global_to_local = g2l, ee_expert_bias = expert_bias, ee_max_batch_size = max_bs,
             ee_operators = weights \<rparr>)))"

text \<open>
  The engine's rank maps (\<^verbatim>\<open>build_expert_executor\<close> in \<^verbatim>\<open>frontend/engine.py\<close>): the explicit local experts if there are any, else the contiguous
  range of the rank.
\<close>

definition build_expert_ranks :: "int list option \<Rightarrow> int \<Rightarrow> int \<Rightarrow> int \<Rightarrow> (int list \<times> int list) res" where
  "build_expert_ranks local_expert_ids num_experts num_per_rank rank_in_group =
     (let empty = replicate (nat num_experts) (- 1) in
      if local_expert_ids \<noteq> None \<and> local_expert_ids \<noteq> Some [] then
        rbind (foldM (\<lambda>m (i, g). py_set m g (int i)) empty (enumerate 0 (the local_expert_ids))) (\<lambda>g2l. Ok (the local_expert_ids, g2l))
      else foldM (\<lambda>(l2g, g2l) i.
             rbind (py_set l2g i (num_per_rank * rank_in_group + i)) (\<lambda>l2g.
             rbind (py_set g2l (num_per_rank * rank_in_group + i) i) (\<lambda>g2l. Ok (l2g, g2l))))
           (replicate (nat num_per_rank) 0, empty) [0..num_per_rank - 1])"

text \<open>The static tensors stand in where the class does not read them: zeros.\<close>

definition prepare_bsz_and_indices :: "experts_executor \<Rightarrow> 'w metadata \<Rightarrow> (int list \<times> int list) res" where
  "prepare_bsz_and_indices ee m =
     (let sizes = rbind (get_expert_batch_sizes m (ee_num_experts ee)) (\<lambda>bs. mapM (py_get bs) (ee_local_to_global ee));
          cutlass = (ee_cls ee = MoEExpertsCUTLASS \<or> ee_cls ee = MoEExpertsCUTLASSFP8);
          needs_m_indices = (ee_cls ee = MoEExpertsDeepGemmBF16 \<or> ee_cls ee = MoEExpertsDeepGemmFP8 \<or> (cutlass \<and> ee_expert_bias ee))
      in rbind (if ee_cls ee = MoEExpertsSerial \<or> cutlass then sizes else Ok (replicate (length (ee_local_to_global ee)) 0)) (\<lambda>batch_sizes.
         rbind (if needs_m_indices then get_token_expert_indices m (ee_global_to_local ee)
                else Ok (take (nat (md_rows m)) (replicate (ee_max_batch_size ee) 0))) (\<lambda>m_indices.
         Ok (batch_sizes, m_indices))))"

record expert_batch =
  eb_layer_id :: int
  eb_num_tokens :: nat
  eb_data :: "vec list"
  eb_batch_sizes :: "int list"
  eb_m_indices :: "int list"

text \<open>The external code an expert worker runs: the products, the FP8 classes, and the contents of a fresh tensor.\<close>

record expert_kernels =
  k_gemm :: gemm
  k_dgemm :: dgemm
  k_fp8 :: "expert_cls \<Rightarrow> experts \<Rightarrow> nat \<Rightarrow> vec list \<Rightarrow> int list \<Rightarrow> int list \<Rightarrow> vec list res"
  k_junk :: vec

definition experts_execute_eager :: "expert_kernels \<Rightarrow> experts_executor \<Rightarrow> expert_batch \<Rightarrow> vec list res" where
  "experts_execute_eager ks ee b =
     rbind (py_get (ee_layer_mappings ee) (eb_layer_id b)) (\<lambda>vid.
     if ee_cls ee = MoEExpertsSerial then Raise ValueError
     else rbind (py_get (ee_operators ee) vid) (\<lambda>ex.
       case ee_cls ee of
         MoEExpertsCUTLASS \<Rightarrow> cutlass_forward (k_gemm ks) (k_junk ks) ex (eb_num_tokens b) (eb_data b) (eb_batch_sizes b) (Some (eb_m_indices b))
       | MoEExpertsDeepGemmBF16 \<Rightarrow> Ok (deep_gemm_forward (k_dgemm ks) (k_junk ks) ex (eb_num_tokens b) (eb_data b) (eb_m_indices b))
       | cls \<Rightarrow> k_fp8 ks cls ex (eb_num_tokens b) (eb_data b) (eb_batch_sizes b) (eb_m_indices b)))"

text \<open>The graph executor, when CUDA graphs are enabled, is an argument.\<close>

definition experts_execute ::
  "expert_kernels \<Rightarrow> (int \<Rightarrow> expert_batch \<Rightarrow> vec list res) option \<Rightarrow> experts_executor \<Rightarrow> expert_batch \<Rightarrow> vec list res" where
  "experts_execute ks graph_run ee b =
     rbind (py_assert (eb_num_tokens b \<le> ee_max_batch_size ee)) (\<lambda>_.
     rbind (py_get (ee_layer_mappings ee) (eb_layer_id b)) (\<lambda>vid.
     if ee_cls ee = MoEExpertsSerial
     then rbind (py_get (ee_operators ee) vid) (\<lambda>ex. serial_forward ex (eb_data b) (eb_batch_sizes b))
     else case graph_run of Some run \<Rightarrow> run vid b | None \<Rightarrow> experts_execute_eager ks ee b))"

section \<open>What the products promise\<close>

definition groups_ok :: "(int \<times> int) list \<Rightarrow> nat \<Rightarrow> bool" where
  "groups_ok probs n \<longleftrightarrow> (\<forall>(M, off) \<in> set probs. 0 \<le> M \<and> 0 \<le> off \<and> off + M \<le> int n)
     \<and> sorted_wrt (\<lambda>(M, off) (M', off'). off + M \<le> off') probs"

text \<open>For disjoint groups inside the buffers, a row of a group is multiplied by the matrix of the group.\<close>

definition gemm_contract :: "gemm \<Rightarrow> bool" where
  "gemm_contract gemm \<longleftrightarrow> (\<forall>K W probs a c. groups_ok probs (length a) \<longrightarrow> length c = length a \<longrightarrow>
     length (gemm K W probs a c) = length a \<and>
     (\<forall>i < length probs. \<forall>r < length a. snd (probs ! i) \<le> int r \<and> int r < snd (probs ! i) + fst (probs ! i) \<longrightarrow>
        gemm K W probs a c ! r = matvec K (a ! r) (W i)))"

definition dgemm_contract :: "dgemm \<Rightarrow> bool" where
  "dgemm_contract dgemm \<longleftrightarrow> (\<forall>K W a c m. length c = length a \<longrightarrow> length m = length a \<longrightarrow> (\<forall>e \<in> set m. 0 \<le> e) \<longrightarrow>
     dgemm K W a c m = map2 (\<lambda>x e. matvec K x (W (nat e))) a m)"

section \<open>Rows and their experts\<close>

text \<open>The expert of every row, from the number of rows of each expert.\<close>

fun expand :: "nat \<Rightarrow> int list \<Rightarrow> int list" where
  "expand i [] = []"
| "expand i (n # ns) = replicate (nat n) (int i) @ expand (Suc i) ns"

lemma expand_length: "\<forall>n \<in> set ns. 0 \<le> n \<Longrightarrow> int (length (expand i ns)) = sum_list ns"
  by (induction ns arbitrary: i) auto

lemma expand_range: "e \<in> set (expand i ns) \<Longrightarrow> int i \<le> e \<and> e < int (i + length ns)"
  by (induction ns arbitrary: i) (auto split: if_splits, force+)

lemma gemm_args_length [simp]: "length (gemm_args off ns) = length ns"
  by (induction ns arbitrary: off) auto

lemma gemm_args_range:
  "\<forall>n \<in> set ns. 0 \<le> n \<Longrightarrow> (M, o') \<in> set (gemm_args off ns) \<Longrightarrow> 0 \<le> M \<and> off \<le> o' \<and> o' + M \<le> off + sum_list ns"
proof (induction ns arbitrary: off)
  case (Cons n ns)
  have nn: "0 \<le> sum_list ns" using Cons.prems(1) by (intro sum_list_nonneg) auto
  show ?case
  proof (cases "(M, o') = (n, off)")
    case True
    then show ?thesis using Cons.prems(1) nn by auto
  next
    case False
    then have "(M, o') \<in> set (gemm_args (off + n) ns)" using Cons.prems(2) by auto
    then show ?thesis using Cons.IH[of "off + n"] Cons.prems(1) by auto
  qed
qed simp

lemma gemm_args_sorted: "\<forall>n \<in> set ns. 0 \<le> n \<Longrightarrow> sorted_wrt (\<lambda>(M, off) (M', off'). off + M \<le> off') (gemm_args off ns)"
proof (induction ns arbitrary: off)
  case (Cons n ns)
  then show ?case using gemm_args_range[of ns _ _ "off + n"] by auto
qed simp

lemma expand_group:
  assumes "\<forall>n \<in> set ns. 0 \<le> n" and "r < length (expand i ns)"
  shows "\<exists>j < length ns. expand i ns ! r = int (i + j) \<and> snd (gemm_args off ns ! j) \<le> off + int r
    \<and> off + int r < snd (gemm_args off ns ! j) + fst (gemm_args off ns ! j)"
  using assms
proof (induction ns arbitrary: i off r)
  case (Cons n ns)
  show ?case
  proof (cases "r < nat n")
    case True
    then show ?thesis by (intro exI[of _ 0]) (auto simp: nth_append)
  next
    case False
    then have "r - nat n < length (expand (Suc i) ns)" using Cons.prems(2) by auto
    with Cons.IH[of "r - nat n" "Suc i" "off + n"] Cons.prems(1) obtain j where j: "j < length ns"
      "expand (Suc i) ns ! (r - nat n) = int (Suc i + j)"
      "snd (gemm_args (off + n) ns ! j) \<le> off + n + int (r - nat n)"
      "off + n + int (r - nat n) < snd (gemm_args (off + n) ns ! j) + fst (gemm_args (off + n) ns ! j)" by auto
    have "off + n + int (r - nat n) = off + int r" using False Cons.prems(1) by auto
    with j False show ?thesis by (intro exI[of _ "Suc j"]) (auto simp: nth_append)
  qed
qed simp

lemma gemm_rows:
  assumes "gemm_contract gemm" and "\<forall>n \<in> set ns. 0 \<le> n" and "sum_list ns = int (length a)" and "length c = length a"
  shows "gemm K W (gemm_args 0 ns) a c = map2 (\<lambda>x e. matvec K x (W (nat e))) a (expand 0 ns)"
proof -
  have ok: "groups_ok (gemm_args 0 ns) (length a)"
    unfolding groups_ok_def using gemm_args_range[OF assms(2), of _ _ 0] gemm_args_sorted[OF assms(2)] assms(3) by fastforce
  have l: "length (expand 0 ns) = length a" using expand_length[OF assms(2), of 0] assms(3) by simp
  note c = assms(1)[unfolded gemm_contract_def, rule_format, OF ok assms(4), of K W]
  show ?thesis
  proof (rule nth_equalityI)
    fix r assume "r < length (gemm K W (gemm_args 0 ns) a c)"
    then have r: "r < length a" using c by simp
    obtain j where j: "j < length ns" "expand 0 ns ! r = int j" "snd (gemm_args 0 ns ! j) \<le> int r"
      "int r < snd (gemm_args 0 ns ! j) + fst (gemm_args 0 ns ! j)"
      using expand_group[OF assms(2), of r 0 0] r l by auto
    then show "gemm K W (gemm_args 0 ns) a c ! r = map2 (\<lambda>x e. matvec K x (W (nat e))) a (expand 0 ns) ! r"
      using c r l by simp
  qed (use c l in simp)
qed

text \<open>The feed-forward network of one expert.\<close>

definition expert_ffn :: "experts \<Rightarrow> nat \<Rightarrow> vec \<Rightarrow> vec" where
  "expert_ffn ex e x =
     (let up = matvec (ex_hidden ex) x (ex_w13 ex e);
          up = (case ex_bias ex of None \<Rightarrow> up | Some (b13, b2) \<Rightarrow> vadd up (b13 ! e));
          down = matvec (ex_isz ex) (apply_glu_activation (ex_isz ex) (ex_limit ex) (ex_alpha ex) up) (ex_w2 ex e)
      in case ex_bias ex of None \<Rightarrow> down | Some (b13, b2) \<Rightarrow> vadd down (b2 ! e))"

text \<open>Every row through the network of its expert: what all the classes compute.\<close>

definition ffn_rows :: "experts \<Rightarrow> vec list \<Rightarrow> int list \<Rightarrow> vec list" where
  "ffn_rows ex hiddens es = map2 (\<lambda>x e. expert_ffn ex (nat e) x) hiddens es"

definition bias_ok :: "experts \<Rightarrow> bool" where
  "bias_ok ex \<longleftrightarrow> (case ex_bias ex of None \<Rightarrow> True | Some (b13, b2) \<Rightarrow> length b13 = ex_num ex \<and> length b2 = ex_num ex)"

lemma add_bias_rows:
  assumes "length rows = length m" and "\<forall>e \<in> set m. 0 \<le> e \<and> e < int (length bias)"
  shows "add_bias bias m rows = Ok (map2 (\<lambda>x e. vadd x (bias ! nat e)) rows m)"
proof -
  have "mapM (py_get bias) m = Ok (map (\<lambda>e. bias ! nat e) m)"
    using assms(2) by (intro mapM_Ok_map) (simp add: py_get_nonneg)
  then show ?thesis using assms(1) by (simp add: add_bias_def add_rows_def map2_map_map[symmetric]) (simp add: zip_map2 case_prod_unfold)
qed

lemma map2_compose: "map2 f (map2 g xs ys) ys = map2 (\<lambda>x y. f (g x y) y) xs ys"
  by (rule nth_equalityI) auto

lemma map2_compose_map: "map2 f (map h (map2 g xs ys)) ys = map2 (\<lambda>x y. f (h (g x y)) y) xs ys"
  by (rule nth_equalityI) auto

lemma cutlass_rows:
  assumes "gemm_contract gemm" and "bias_ok ex" and "\<forall>n \<in> set ns. 0 \<le> n" and "sum_list ns = int (length hiddens)"
    and "length ns = ex_num ex" and "ex_bias ex \<noteq> None \<longrightarrow> m = Some (expand 0 ns)"
  shows "cutlass_forward gemm junk ex (length hiddens) hiddens ns m = Ok (ffn_rows ex hiddens (expand 0 ns))"
proof -
  let ?es = "expand 0 ns"
  have l: "length ?es = length hiddens" using expand_length[OF assms(3), of 0] assms(4) by simp
  have g: "gemm K W (gemm_args 0 ns) a (replicate (length hiddens) junk) = map2 (\<lambda>x e. matvec K x (W (nat e))) a ?es"
    if "length a = length hiddens" for K W a
    using gemm_rows[OF assms(1,3)] assms(4) that by simp
  show ?thesis
  proof (cases "ex_bias ex")
    case None
    then show ?thesis
      using l by (simp add: cutlass_forward_def ffn_rows_def expert_ffn_def g map2_compose_map Let_def del: map_map)
  next
    case (Some b)
    obtain b13 b2 where b: "ex_bias ex = Some (b13, b2)" using Some by (cases b) auto
    have r: "\<forall>e \<in> set ?es. 0 \<le> e \<and> e < int (length b13) \<and> e < int (length b2)"
      using expand_range[of _ 0 ns] assms(2,5) b by (auto simp: bias_ok_def)
    show ?thesis
      using l r assms(6)
      by (simp add: cutlass_forward_def ffn_rows_def expert_ffn_def b g add_bias_rows map2_compose map2_compose_map Let_def del: map_map)
  qed
qed

text \<open>Without biases and clamp the network is that of the serial class.\<close>

lemma serial_calc_ffn: "ex_bias ex = None \<Longrightarrow> ex_limit ex = None \<Longrightarrow> serial_calc ex e x = expert_ffn ex e x"
  by (simp add: serial_calc_def expert_ffn_def apply_glu_activation_def Let_def)

lemma deep_gemm_rows:
  assumes "dgemm_contract dgemm" and "ex_bias ex = None" and "ex_limit ex = None"
    and "length m = length hiddens" and "\<forall>e \<in> set m. 0 \<le> e"
  shows "deep_gemm_forward dgemm junk ex (length hiddens) hiddens m = ffn_rows ex hiddens m"
proof -
  have g: "dgemm K W a (replicate (length hiddens) junk) m = map2 (\<lambda>x e. matvec K x (W (nat e))) a m" if "length a = length hiddens" for K W a
    using assms(1)[unfolded dgemm_contract_def, rule_format, of "replicate (length hiddens) junk" a m K W] assms(4,5) that by simp
  show ?thesis
    using assms(2-4)
    by (simp add: deep_gemm_forward_def ffn_rows_def expert_ffn_def apply_glu_activation_def g map2_compose_map Let_def del: map_map)
qed

lemma serial_loop_rows:
  assumes "\<forall>n \<in> set ns. 0 \<le> n" and "sum_list ns = int (length hiddens) - int s" and "s \<le> length hiddens"
    and "ex_bias ex = None" and "ex_limit ex = None"
  shows "concat (serial_loop ex hiddens s i ns) = ffn_rows ex (drop s hiddens) (expand i ns)"
  using assms(1-3)
proof (induction ns arbitrary: s i)
  case Nil
  then show ?case by (simp add: ffn_rows_def)
next
  case (Cons n ns)
  have nn: "0 \<le> n" "0 \<le> sum_list ns" using Cons.prems(1) by (auto intro: sum_list_nonneg)
  then have le: "s + nat n \<le> length hiddens" using Cons.prems(2,3) by simp
  have ih: "concat (serial_loop ex hiddens (s + nat n) (Suc i) ns) = ffn_rows ex (drop (s + nat n) hiddens) (expand (Suc i) ns)"
    using Cons.prems nn le by (intro Cons.IH) auto
  have d: "drop s hiddens = take (nat n) (drop s hiddens) @ drop (s + nat n) hiddens"
    using append_take_drop_id[of "nat n" "drop s hiddens"] by (simp add: add.commute)
  have t: "map (serial_calc ex i) (take (nat n) (drop s hiddens)) = ffn_rows ex (take (nat n) (drop s hiddens)) (replicate (nat n) (int i))"
    using le serial_calc_ffn[OF assms(4,5)] by (intro nth_equalityI) (auto simp: ffn_rows_def)
  have "ffn_rows ex (drop s hiddens) (expand i (n # ns))
      = ffn_rows ex (take (nat n) (drop s hiddens)) (replicate (nat n) (int i)) @ ffn_rows ex (drop (s + nat n) hiddens) (expand (Suc i) ns)"
    by (subst d) (use le in \<open>simp add: ffn_rows_def\<close>)
  then show ?case using ih t by (cases "n = 0") (auto simp: ffn_rows_def)
qed

lemma serial_rows:
  assumes "\<forall>n \<in> set ns. 0 \<le> n" and "sum_list ns = int (length hiddens)" and "hiddens \<noteq> []"
    and "ex_bias ex = None" and "ex_limit ex = None"
  shows "serial_forward ex hiddens ns = Ok (ffn_rows ex hiddens (expand 0 ns))"
proof -
  have c: "concat (serial_loop ex hiddens 0 0 ns) = ffn_rows ex hiddens (expand 0 ns)"
    using serial_loop_rows[OF assms(1) _ _ assms(4,5), of hiddens 0 0] assms(2) by simp
  have "length (expand 0 ns) = length hiddens" using expand_length[OF assms(1), of 0] assms(2) by simp
  then have "ffn_rows ex hiddens (expand 0 ns) \<noteq> []" using assms(3) by (auto simp: ffn_rows_def zip_eq_Nil_iff)
  then show ?thesis using c by (auto simp: serial_forward_def Let_def)
qed

section \<open>Sizes and indices of a sorted batch\<close>

lemma expand_counts:
  assumes "\<forall>j < length gs. h (gs ! j) = int (i + j)"
  shows "expand i (map (\<lambda>g. int (c g)) gs) = map h (concat (map (\<lambda>g. replicate (c g) g) gs))"
  using assms
proof (induction gs arbitrary: i)
  case (Cons g gs)
  have "\<forall>j < length gs. h (gs ! j) = int (Suc i + j)" using Cons.prems by (auto dest: spec[of _ "Suc _"])
  moreover have "h g = int i" using Cons.prems by (auto dest: spec[of _ 0])
  ultimately show ?case using Cons.IH[of "Suc i"] by simp
qed simp

lemma count_replicate: "count_list (replicate n g) x = (if x = g then n else 0)"
  by (induction n) auto

lemma count_concat_replicate:
  assumes "distinct gs"
  shows "count_list (concat (map (\<lambda>g. replicate (c g) g) gs)) x = (if x \<in> set gs then c x else 0)"
  using assms by (induction gs) (auto simp: count_replicate)

lemma sorted_groups:
  fixes es :: "int list"
  assumes "sorted es" and "sorted_wrt (<) gs" and "set es \<subseteq> set gs"
  shows "concat (map (\<lambda>g. replicate (count_list es g) g) gs) = es"
proof -
  let ?c = "concat (map (\<lambda>g. replicate (count_list es g) g) gs)"
  have d: "distinct gs" using assms(2) by (simp add: strict_sorted_iff)
  have "count (mset ?c) x = count (mset es) x" for x
    using count_concat_replicate[OF d, of "count_list es" x] assms(3) by (auto simp: count_mset count_list_0_iff)
  then have m: "mset ?c = mset es" by (intro multiset_eqI)
  have "sorted (concat (map (\<lambda>g. replicate (k g) g) gs))" for k
    using assms(2) by (induction gs) (auto simp: sorted_append)
  then show ?thesis using properties_for_sort[OF m[symmetric]] assms(1) by (simp add: sorted_sort_id)
qed

lemma expert_batch_sizes_eq:
  assumes "0 < n" and "\<forall>e \<in> set (md_exps m). 0 \<le> e \<and> e < n"
  shows "get_expert_batch_sizes m n = Ok (map (\<lambda>k. int (count_list (md_exps m) (int k))) [0..<nat n])"
proof -
  have "foldM (\<lambda>b eid. rbind (vec_get b eid) (\<lambda>c. vec_set b eid (c + 1))) cs es
      = Ok (map (\<lambda>k. cs ! k + int (count_list es (int k))) [0..<length cs])"
    if "\<forall>e \<in> set es. 0 \<le> e \<and> e < int (length cs)" for cs :: "int list" and es
    using that
  proof (induction es arbitrary: cs)
    case Nil
    then show ?case by (auto intro: nth_equalityI)
  next
    case (Cons e es)
    have e: "0 \<le> e" "nat e < length cs" using Cons.prems by auto
    let ?cs = "cs[nat e := cs ! nat e + 1]"
    have "map (\<lambda>k. ?cs ! k + int (count_list es (int k))) [0..<length ?cs] = map (\<lambda>k. cs ! k + int (count_list (e # es) (int k))) [0..<length cs]"
      by (rule map_cong) (use e in \<open>auto simp: nth_list_update\<close>)
    then show ?case
      using Cons.IH[of ?cs] Cons.prems e vec_get_in[of "nat e" cs] vec_set_in[of "nat e" cs] by simp
  qed
  from this[of "md_exps m" "replicate (nat n) 0"] assms show ?thesis
    by (simp add: get_expert_batch_sizes_def c_assert_def cong: map_cong)
qed

text \<open>Writing the position of every element into a table.\<close>

definition index_table :: "int list \<Rightarrow> int list \<Rightarrow> int list \<Rightarrow> bool" where
  "index_table keys d t \<longleftrightarrow> length t = length d \<and> (\<forall>j < length keys. t ! nat (keys ! j) = int j)
     \<and> (\<forall>k < length d. int k \<notin> set keys \<longrightarrow> t ! k = d ! k)"

lemma enumerate_append1: "enumerate n (xs @ [x]) = enumerate n xs @ [(n + length xs, x)]"
  by (simp add: enumerate_append_eq)

lemma index_table_loop:
  assumes "distinct keys" and "\<forall>k \<in> set keys. 0 \<le> k \<and> k < int (length d)"
  shows "\<exists>t. foldM (\<lambda>m (i, g). py_set m g (int i)) d (enumerate 0 keys) = Ok t \<and> index_table keys d t"
  using assms
proof (induction keys rule: rev_induct)
  case Nil
  then show ?case by (simp add: index_table_def)
next
  case (snoc k ks)
  then obtain t where t: "foldM (\<lambda>m (i, g). py_set m g (int i)) d (enumerate 0 ks) = Ok t" "index_table ks d t" by auto
  have k: "0 \<le> k" "nat k < length t" using snoc.prems(2) t(2) by (auto simp: index_table_def)
  have ne: "nat (ks ! j) \<noteq> nat k" if "j < length ks" for j
    using snoc.prems that nth_mem[OF that] by (metis Un_iff distinct_append eq_nat_nat_iff list.set_intros(1) disjoint_iff set_append)
  have "index_table (ks @ [k]) d (t[nat k := int (length ks)])"
    using t(2) k ne ne[symmetric] by (auto simp: index_table_def nth_append less_Suc_eq nth_list_update)
  then show ?case using t(1) k by (simp add: enumerate_append1 py_set_nonneg)
qed

lemma layer_mappings_index:
  assumes "distinct lids" and "\<forall>l \<in> set lids. 0 \<le> l" and "lids \<noteq> []"
  shows "\<exists>t. layer_mappings_of lids = Ok t \<and> (\<forall>v < length lids. py_get t (lids ! v) = Ok (int v))"
proof -
  let ?d = "replicate (nat (Max (set lids) + 1)) (0 :: int)"
  have r: "\<forall>l \<in> set lids. 0 \<le> l \<and> l < int (length ?d)"
  proof
    fix l assume l: "l \<in> set lids"
    then have "l \<le> Max (set lids)" by simp
    then show "0 \<le> l \<and> l < int (length ?d)" using assms(2)[rule_format, OF l] by simp
  qed
  from index_table_loop[OF assms(1) r] obtain t where
    t: "foldM (\<lambda>m (i, g). py_set m g (int i)) ?d (enumerate 0 lids) = Ok t" "index_table lids ?d t" by blast
  have "py_get t (lids ! v) = Ok (int v)" if "v < length lids" for v
    using t(2) r nth_mem[OF that] that by (subst py_get_nonneg) (auto simp: index_table_def)
  then show ?thesis using t(1) assms(3) by (auto simp: layer_mappings_of_def)
qed

text \<open>Rank maps as the engine builds them: ascending local experts, and the table that inverts them.\<close>

definition ranks_ok :: "int \<Rightarrow> int list \<Rightarrow> int list \<Rightarrow> bool" where
  "ranks_ok n l2g g2l \<longleftrightarrow> (\<forall>g \<in> set l2g. 0 \<le> g \<and> g < n) \<and> index_table l2g (replicate (nat n) (- 1)) g2l"

lemma explicit_ranks_ok:
  assumes "distinct ids" and "\<forall>g \<in> set ids. 0 \<le> g \<and> g < n" and "ids \<noteq> []"
  shows "\<exists>g2l. build_expert_ranks (Some ids) n k r = Ok (ids, g2l) \<and> ranks_ok n ids g2l"
proof -
  have "\<forall>k \<in> set ids. 0 \<le> k \<and> k < int (length (replicate (nat n) (- 1 :: int)))" using assms(2) by fastforce
  from index_table_loop[OF assms(1) this] show ?thesis
    using assms(2,3) by (auto simp: build_expert_ranks_def ranks_ok_def Let_def)
qed

lemma ranks_get:
  assumes "ranks_ok n l2g g2l" and "j < length l2g"
  shows "vec_get g2l (l2g ! j) = Ok (int j)"
proof -
  have "0 \<le> l2g ! j" "l2g ! j < n" using assms nth_mem[OF assms(2)] by (auto simp: ranks_ok_def)
  then have "0 \<le> l2g ! j" "l2g ! j < int (nat n)" by simp_all
  then show ?thesis using assms by (simp add: ranks_ok_def index_table_def vec_get_def)
qed

definition local_rank :: "int list \<Rightarrow> int \<Rightarrow> nat" where
  "local_rank l2g g = length (takeWhile (\<lambda>x. x \<noteq> g) l2g)"

lemma local_rank_nth: "distinct l2g \<Longrightarrow> j < length l2g \<Longrightarrow> local_rank l2g (l2g ! j) = j"
proof -
  assume d: "distinct l2g" and j: "j < length l2g"
  have "takeWhile (\<lambda>x. x \<noteq> l2g ! j) l2g = take j l2g"
    by (rule takeWhile_eq_take_P_nth) (use d j in \<open>auto simp: nth_eq_iff_index_eq\<close>)
  then show ?thesis using j by (simp add: local_rank_def)
qed

lemma token_indices_eq:
  assumes "ranks_ok n l2g g2l" and "distinct l2g" and "md_rows m = int (length (md_exps m))" and "set (md_exps m) \<subseteq> set l2g"
  shows "get_token_expert_indices m g2l = Ok (map (\<lambda>e. int (local_rank l2g e)) (md_exps m))"
proof -
  have "rbind (vec_get (md_exps m) i) (\<lambda>e. rbind (vec_get g2l e) (\<lambda>l. rbind (c_assert (l \<noteq> - 1)) (\<lambda>_. Ok l)))
      = Ok (int (local_rank l2g (md_exps m ! nat i)))" if i: "i \<in> set [0..md_rows m - 1]" for i
  proof -
    have r: "0 \<le> i" "nat i < length (md_exps m)" using i assms(3) by auto
    then have "md_exps m ! nat i \<in> set l2g" using assms(4) nth_mem by blast
    then obtain j where j: "j < length l2g" "md_exps m ! nat i = l2g ! j" by (metis in_set_conv_nth)
    show ?thesis
      using r j ranks_get[OF assms(1) j(1)] local_rank_nth[OF assms(2) j(1)] vec_get_in[of "nat i" "md_exps m"] by (simp add: c_assert_def)
  qed
  then have "get_token_expert_indices m g2l = Ok (map (\<lambda>i. int (local_rank l2g (md_exps m ! nat i))) [0..md_rows m - 1])"
    unfolding get_token_expert_indices_def by (rule mapM_Ok_map)
  also have "map (\<lambda>i. int (local_rank l2g (md_exps m ! nat i))) [0..md_rows m - 1] = map (\<lambda>e. int (local_rank l2g e)) (md_exps m)"
    using arg_cong[OF map_nth_upto[OF assms(3)], of "map (\<lambda>e. int (local_rank l2g e))"] by (simp add: comp_def)
  finally show ?thesis .
qed

lemma local_sizes_eq:
  assumes "ranks_ok n l2g g2l" and "0 < n" and "set (md_exps m) \<subseteq> set l2g"
  shows "rbind (get_expert_batch_sizes m n) (\<lambda>bs. mapM (py_get bs) l2g) = Ok (map (\<lambda>g. int (count_list (md_exps m) g)) l2g)"
proof -
  have r: "\<forall>g \<in> set l2g. 0 \<le> g \<and> g < n" using assms(1) by (simp add: ranks_ok_def)
  have "py_get (map (\<lambda>k. int (count_list (md_exps m) (int k))) [0..<nat n]) g = Ok (int (count_list (md_exps m) g))" if "g \<in> set l2g" for g
    using r that by (subst py_get_nonneg) auto
  then have "mapM (py_get (map (\<lambda>k. int (count_list (md_exps m) (int k))) [0..<nat n])) l2g = Ok (map (\<lambda>g. int (count_list (md_exps m) g)) l2g)"
    by (rule mapM_Ok_map)
  moreover have "\<forall>e \<in> set (md_exps m). 0 \<le> e \<and> e < n" using r assms(3) by blast
  ultimately show ?thesis using expert_batch_sizes_eq[OF assms(2), of m] by simp
qed

text \<open>On a sorted batch with ascending local experts the two descriptions agree.\<close>

lemma sizes_are_indices:
  assumes "sorted (md_exps m)" and "sorted_wrt (<) l2g" and "set (md_exps m) \<subseteq> set l2g"
  shows "expand 0 (map (\<lambda>g. int (count_list (md_exps m) g)) l2g) = map (\<lambda>e. int (local_rank l2g e)) (md_exps m)"
proof -
  have d: "distinct l2g" using assms(2) by (simp add: strict_sorted_iff)
  have "\<forall>j < length l2g. int (local_rank l2g (l2g ! j)) = int (0 + j)" using local_rank_nth[OF d] by simp
  from expand_counts[OF this] show ?thesis using sorted_groups[OF assms] by simp
qed

section \<open>Every class runs the right experts\<close>

text \<open>The layers' weights fit the configuration.\<close>

definition expert_weights_ok :: "int list \<Rightarrow> int list \<Rightarrow> real option \<Rightarrow> bool \<Rightarrow> experts list \<Rightarrow> bool" where
  "expert_weights_ok layer_ids l2g limit bias ws \<longleftrightarrow> length ws = length layer_ids \<and>
     (\<forall>ex \<in> set ws. ex_num ex = length l2g \<and> ex_limit ex = limit \<and> (ex_bias ex \<noteq> None) = bias \<and> bias_ok ex)"

definition bf16_cls :: "expert_cls \<Rightarrow> bool" where
  "bf16_cls c \<longleftrightarrow> c = MoEExpertsSerial \<or> c = MoEExpertsCUTLASS \<or> c = MoEExpertsDeepGemmBF16"

lemma serial_rows_m:
  assumes "sorted (md_exps m)" and "sorted_wrt (<) l2g" and "set (md_exps m) \<subseteq> set l2g" and "length data = length (md_exps m)"
  defines "ns \<equiv> map (\<lambda>g. int (count_list (md_exps m) g)) l2g"
  shows "\<forall>n \<in> set ns. 0 \<le> n" and "sum_list ns = int (length data)" and "expand 0 ns = map (\<lambda>e. int (local_rank l2g e)) (md_exps m)"
proof -
  show nn: "\<forall>n \<in> set ns. 0 \<le> n" by (auto simp: ns_def)
  show e: "expand 0 ns = map (\<lambda>e. int (local_rank l2g e)) (md_exps m)" unfolding ns_def by (rule sizes_are_indices[OF assms(1-3)])
  show "sum_list ns = int (length data)" using expand_length[OF nn, of 0] e assms(4) by simp
qed

lemma experts_rows:
  assumes "gemm_contract (k_gemm ks)" and "dgemm_contract (k_dgemm ks)"
    and init: "experts_executor_init lids n l2g g2l grouped sm quant limit bias max_bs ws = Ok ee" and "bf16_cls (ee_cls ee)"
    and "expert_weights_ok lids l2g limit bias ws" and "ranks_ok n l2g g2l" and "0 < n" and "sorted_wrt (<) l2g"
    and "distinct lids" and "\<forall>l \<in> set lids. 0 \<le> l" and v: "v < length lids" "md_layer m = lids ! v"
    and "sorted (md_exps m)" and "set (md_exps m) \<subseteq> set l2g" and "md_rows m = int (length (md_exps m))"
    and data: "length data = length (md_exps m)" "data \<noteq> []" "length data \<le> max_bs"
  shows "rbind (prepare_bsz_and_indices ee m) (\<lambda>(batch_sizes, m_indices).
      experts_execute ks None ee \<lparr> eb_layer_id = md_layer m, eb_num_tokens = length data, eb_data = data,
        eb_batch_sizes = batch_sizes, eb_m_indices = m_indices \<rparr>)
    = Ok (map2 (\<lambda>x e. expert_ffn (ws ! v) (local_rank l2g e) x) data (md_exps m))"
proof -
  let ?ns = "map (\<lambda>g. int (count_list (md_exps m) g)) l2g" and ?idx = "map (\<lambda>e. int (local_rank l2g e)) (md_exps m)"
  obtain t where lm: "layer_mappings_of lids = Ok t" "py_get t (lids ! v) = Ok (int v)"
    using layer_mappings_index[OF assms(9,10)] v(1) by (metis list.size(3) not_less_zero)
  have ee: "ee_layer_mappings ee = t" "ee_num_experts ee = n" "ee_local_to_global ee = l2g" "ee_global_to_local ee = g2l"
    "ee_expert_bias ee = bias" "ee_max_batch_size ee = max_bs" "ee_operators ee = ws"
    "ee_cls ee = MoEExpertsCUTLASS \<or> ee_cls ee = MoEExpertsCUTLASSFP8 \<or> (limit = None \<and> \<not> bias)"
    using init lm(1) by (auto simp: experts_executor_init_def res_simps Let_def split: if_splits)
  have op: "py_get ws (int v) = Ok (ws ! v)" using assms(5) v(1) by (simp add: expert_weights_ok_def py_get_nat)
  have ex: "ex_num (ws ! v) = length l2g" "ex_limit (ws ! v) = limit" "(ex_bias (ws ! v) \<noteq> None) = bias" "bias_ok (ws ! v)"
    using assms(5) v(1) by (simp_all add: expert_weights_ok_def)
  have d: "distinct l2g" using assms(8) by (simp add: strict_sorted_iff)
  note s = serial_rows_m[OF assms(13,8,14) data(1)]
  note sz = local_sizes_eq[OF assms(6,7,14)] and ti = token_indices_eq[OF assms(6) d assms(15,14)]
  have f: "ffn_rows (ws ! v) data ?idx = map2 (\<lambda>x e. expert_ffn (ws ! v) (local_rank l2g e) x) data (md_exps m)"
    using data(1) by (intro nth_equalityI) (simp_all add: ffn_rows_def)
  consider "ee_cls ee = MoEExpertsSerial" | "ee_cls ee = MoEExpertsCUTLASS" | "ee_cls ee = MoEExpertsDeepGemmBF16"
    using assms(4) by (auto simp: bf16_cls_def)
  then show ?thesis
  proof cases
    case 1
    then have "limit = None" "\<not> bias" using ee(8) by simp_all
    then have "ex_bias (ws ! v) = None" "ex_limit (ws ! v) = None" using ex(2,3) by blast+
    from serial_rows[OF s(1,2) data(2) this] have "serial_forward (ws ! v) data ?ns = Ok (ffn_rows (ws ! v) data ?idx)"
      unfolding s(3) .
    then show ?thesis
      using 1 sz lm(2) op data(3) v(2) f by (simp add: prepare_bsz_and_indices_def experts_execute_def ee Let_def)
  next
    case 2
    have "cutlass_forward (k_gemm ks) (k_junk ks) (ws ! v) (length data) data ?ns (Some i) = Ok (ffn_rows (ws ! v) data ?idx)"
      if "bias \<longrightarrow> i = ?idx" for i
      using cutlass_rows[OF assms(1) ex(4) s(1,2), of "Some i"] ex s(3) that by auto
    then show ?thesis
      using 2 sz ti lm(2) op data(3) v(2) f
      by (simp add: prepare_bsz_and_indices_def experts_execute_def experts_execute_eager_def ee Let_def)
  next
    case 3
    have "deep_gemm_forward (k_dgemm ks) (k_junk ks) (ws ! v) (length data) data ?idx = ffn_rows (ws ! v) data ?idx"
      by (rule deep_gemm_rows[OF assms(2)]) (use 3 ex(2,3) ee(8) data(1) in fastforce)+
    then show ?thesis
      using 3 ti lm(2) op data(3) v(2) f
      by (simp add: prepare_bsz_and_indices_def experts_execute_def experts_execute_eager_def ee Let_def)
  qed
qed


text \<open>The products of the contracts.\<close>

definition ref_gemm :: gemm where
  "ref_gemm K W probs a c = map (\<lambda>r. case filter (\<lambda>i. snd (probs ! i) \<le> int r \<and> int r < snd (probs ! i) + fst (probs ! i)) [0..<length probs] of
     [] \<Rightarrow> c ! r | i # _ \<Rightarrow> matvec K (a ! r) (W i)) [0..<length a]"

definition ref_dgemm :: dgemm where
  "ref_dgemm K W a c m = map2 (\<lambda>x e. matvec K x (W (nat e))) a m"

lemma ref_dgemm_contract: "dgemm_contract ref_dgemm"
  by (simp add: dgemm_contract_def ref_dgemm_def)

lemma group_unique:
  assumes "groups_ok probs n" and "i < length probs" and "j < length probs"
    and "snd (probs ! i) \<le> r" "r < snd (probs ! i) + fst (probs ! i)" and "snd (probs ! j) \<le> r" "r < snd (probs ! j) + fst (probs ! j)"
  shows "i = j"
proof (rule ccontr)
  assume "i \<noteq> j"
  have lt: "snd (probs ! a) + fst (probs ! a) \<le> snd (probs ! b)" if "a < b" "b < length probs" for a b
    using assms(1) sorted_wrt_nth_less[of _ probs a b] that by (fastforce simp: groups_ok_def case_prod_unfold)
  show False using \<open>i \<noteq> j\<close> lt[of i j] lt[of j i] assms by (cases "i < j") auto
qed

lemma ref_gemm_contract: "gemm_contract ref_gemm"
  unfolding gemm_contract_def
proof (intro allI impI conjI)
  fix K W probs and a c :: "vec list" and i r
  assume g: "groups_ok probs (length a)" and i: "i < length probs" and r: "r < length a"
    and ir: "snd (probs ! i) \<le> int r \<and> int r < snd (probs ! i) + fst (probs ! i)"
  let ?P = "\<lambda>i. snd (probs ! i) \<le> int r \<and> int r < snd (probs ! i) + fst (probs ! i)"
  have "i \<in> set (filter ?P [0..<length probs])" using i ir by simp
  then obtain j js where f: "filter ?P [0..<length probs] = j # js" by (cases "filter ?P [0..<length probs]") auto
  then have "j \<in> set (filter ?P [0..<length probs])" by simp
  then have "j = i" using group_unique[OF g _ i, of j "int r"] ir by auto
  then show "ref_gemm K W probs a c ! r = matvec K (a ! r) (W i)" using f r by (simp add: ref_gemm_def)
qed (simp add: ref_gemm_def)

text \<open>Two layers, experts 1 and 3 of four local, biases on, three tokens.\<close>

definition demo_experts :: experts where
  "demo_experts = \<lparr> ex_hidden = 1, ex_isz = 1, ex_num = 2, ex_limit = Some 7, ex_alpha = 1, ex_w13 = (\<lambda>e i j. real e),
     ex_w2 = (\<lambda>e i j. 1), ex_bias = Some ([\<lambda>_. 0, \<lambda>_. 1], [\<lambda>_. 2, \<lambda>_. 3]) \<rparr>"

definition demo_kernels :: expert_kernels where
  "demo_kernels = \<lparr> k_gemm = ref_gemm, k_dgemm = ref_dgemm, k_fp8 = (\<lambda>_ _ _ _ _ _. Raise RuntimeError), k_junk = (\<lambda>_. 0) \<rparr>"

definition demo_tokens :: "int metadata" where
  "demo_tokens = \<lparr> md_tag = EXPERT, md_rows = 3, md_dim = 1, md_dtype = ''bf16'', md_layer = 5, md_reqs = [1, 2, 1], md_exps = [1, 1, 3],
     md_weights = [1, 1, 2], md_ranks = [0, 0, 0], md_prefills = [-1, -1, -1], md_prefill_seqs = None, md_prefill_tokens = None,
     md_decode_tokens = None \<rparr>"

definition demo_executor :: experts_executor where
  "demo_executor = \<lparr> ee_layer_ids = [4, 5], ee_layer_mappings = [0, 0, 0, 0, 0, 1], ee_cls = MoEExpertsCUTLASS, ee_num_experts = 4,
     ee_local_to_global = [1, 3], ee_global_to_local = [-1, 0, -1, 1], ee_expert_bias = True, ee_max_batch_size = 8,
     ee_operators = [demo_experts, demo_experts] \<rparr>"


end
