(* ===== verification/Attention.thy ===== *)
theory Attention
  imports Experts Gate
begin

text \<open>
  \<^verbatim>\<open>disagmoe/models/attention.py\<close>: one attention layer. The residual of a token is kept in a stash row between its layers; a layer
  completes its input from the stash, attends over the paged cache, stores the new residual, adds the shared experts and
  routes. The norms, projections and rotary embedding of a layer are functions of a row, given as arguments, as are the flash kernel, \<open>torch.topk\<close>,
  \<open>fused_topk\<close> and the random draws. The triton kernels that find expert segments and inverse permutations are here too. The main
  results: attention with sinks is softmax with one more logit; a layer computes the residual block of the completed
  stream and leaves the next residual in the stash; what it routes is fit for the dispatch to the experts.
\<close>

section \<open>Segment kernels\<close>

text \<open>One program per expert: the last position with an id at most the expert, by binary search.\<close>

function seg_search :: "int list \<Rightarrow> int \<Rightarrow> int \<Rightarrow> int \<Rightarrow> int \<Rightarrow> int" where
  "seg_search ids expert low high target =
     (if low \<le> high then
        let mid = (low + high) div 2 in
        if ids ! nat mid > expert then seg_search ids expert low (mid - 1) target
        else seg_search ids expert (mid + 1) high mid
      else target)"
  by pat_completeness auto
termination by (relation "measure (\<lambda>(ids, e, low, high, t). nat (high - low + 1))") auto

declare seg_search.simps [simp del]

definition compute_seg_indptr :: "int list \<Rightarrow> int \<Rightarrow> int \<Rightarrow> int" where
  "compute_seg_indptr reorder_topk_ids num_toks expert = seg_search reorder_topk_ids expert 0 (num_toks - 1) (- 1) + 1"

text \<open>One program per block of destinations; the programs write disjoint masked ranges, here in order.\<close>

definition src2dst_block :: "int list \<Rightarrow> int \<Rightarrow> int \<Rightarrow> int list \<Rightarrow> int \<Rightarrow> int list res" where
  "src2dst_block reorder_ids num_toks BLOCK src2dst pid =
     foldM (\<lambda>t dst. rbind (vec_get reorder_ids dst) (\<lambda>src. vec_set t src dst)) src2dst
       (filter (\<lambda>dst. dst < num_toks) (map (\<lambda>i. pid * BLOCK + i) [0..BLOCK - 1]))"

definition compute_src2dst :: "int list \<Rightarrow> int \<Rightarrow> int \<Rightarrow> int \<Rightarrow> int list \<Rightarrow> int list res" where
  "compute_src2dst reorder_ids num_toks BLOCK grid src2dst = foldM (src2dst_block reorder_ids num_toks BLOCK) src2dst [0..grid - 1]"

section \<open>The layer\<close>

record attn_dims =
  ad_num_heads :: nat
  ad_num_kv_heads :: nat
  ad_q_size :: nat
  ad_kv_size :: nat
  ad_scaling :: real

definition attention_dims :: "nat \<Rightarrow> nat \<Rightarrow> nat \<Rightarrow> nat \<Rightarrow> attn_dims res" where
  "attention_dims head_dim num_heads num_kv_heads tp_size =
     (if tp_size = 0 then Raise ZeroDivisionError
      else rbind (py_assert (num_heads mod tp_size = 0)) (\<lambda>_.
        rbind (if num_kv_heads \<ge> tp_size then py_assert (num_kv_heads mod tp_size = 0)
               else if num_kv_heads = 0 then Raise ZeroDivisionError
               else py_assert (tp_size mod num_kv_heads = 0)) (\<lambda>_.
        if head_dim = 0 then Raise ZeroDivisionError
        else let nh = num_heads div tp_size; nkv = max 1 (num_kv_heads div tp_size) in
          Ok \<lparr> ad_num_heads = nh, ad_num_kv_heads = nkv, ad_q_size = nh * head_dim, ad_kv_size = nkv * head_dim,
               ad_scaling = 1 / sqrt (real head_dim) \<rparr>)))"

record attn_layer =
  al_layer_id :: int
  al_head_dim :: nat
  al_dims :: attn_dims
  al_num_experts :: nat
  al_top_k :: nat
  al_sliding_window :: "int option"
  al_sinks :: "real list option"
  al_router_norm :: string
  al_router_mode :: string
  al_stash_read :: bool
  al_pre_norm :: "vec \<Rightarrow> vec"
  al_pre_norm_add :: "vec \<Rightarrow> vec \<Rightarrow> vec \<times> vec"
  al_qkv :: "vec \<Rightarrow> vec"
  al_rope :: "int \<Rightarrow> vec \<Rightarrow> vec \<Rightarrow> vec \<times> vec"
  al_o_proj :: "vec \<Rightarrow> vec"
  al_post_norm :: "vec \<Rightarrow> vec \<Rightarrow> vec \<times> vec"
  al_shared :: "(vec \<Rightarrow> vec) list option"
  al_gate :: "vec \<Rightarrow> vec"
  al_profile :: "router option"
  al_weighted :: "real list option"

text \<open>
  The code outside the layer: \<open>triton.next_power_of_2\<close>, the flash kernel, the page size of the cache it works on, \<open>topk\<close> of a row of
  logits, \<open>fused_topk\<close> of a row, the rows of \<open>rand_like\<close>, and the sampled experts of the weighted router.
\<close>

record attn_env =
  ae_npow2 :: "int \<Rightarrow> int"
  ae_flash :: flash
  ae_page :: int
  ae_topk :: "vec \<Rightarrow> nat \<Rightarrow> nat \<Rightarrow> nat list"
  ae_fused_topk :: "vec \<Rightarrow> nat \<Rightarrow> nat \<Rightarrow> (real \<times> nat) list"
  ae_rand :: "nat \<Rightarrow> vec"
  ae_samples :: "nat \<Rightarrow> nat list"

text \<open>A row viewed as heads, and heads flattened.\<close>

definition heads :: "nat \<Rightarrow> vec \<Rightarrow> nat \<Rightarrow> vec" where
  "heads D x = (\<lambda>h d. x (h * D + d))"

definition flat_heads :: "nat \<Rightarrow> (nat \<Rightarrow> vec) \<Rightarrow> vec" where
  "flat_heads D out = (\<lambda>i. out (i div D) (i mod D))"

definition decode_kernel ::
  "attn_env \<Rightarrow> attn_layer \<Rightarrow> (nat \<Rightarrow> vec) list \<Rightarrow> (nat \<Rightarrow> vec) list \<Rightarrow> (nat \<Rightarrow> vec) list \<Rightarrow> cache \<times> cache \<Rightarrow> int list list \<Rightarrow> int list
   \<Rightarrow> (cache \<times> cache \<times> (nat \<Rightarrow> vec \<times> real) list) res" where
  "decode_kernel env la q k v kv bts ctx =
     (let D = al_head_dim la; H = ad_num_heads (al_dims la); KV = ad_num_kv_heads (al_dims la); scale = ad_scaling (al_dims la);
          plain = (let (kf, vf, out, lse) = ae_flash env q (fst kv) (snd kv) k v ctx bts scale in Ok (kf, vf, map2 (\<lambda>y l h. (y h, l h)) out lse)) in
      case al_sliding_window la of
        Some w \<Rightarrow> if w \<noteq> 0 then sliding_window_decode_attention (ae_npow2 env) (ae_flash env) H KV D (ae_page env) q k v (fst kv) (snd kv) bts ctx w scale else plain
      | None \<Rightarrow> plain)"

definition paged_decode_attention ::
  "attn_env \<Rightarrow> attn_layer \<Rightarrow> vec list \<Rightarrow> vec list \<Rightarrow> vec list \<Rightarrow> cache \<times> cache \<Rightarrow> int list list \<Rightarrow> int list \<Rightarrow> ((cache \<times> cache) \<times> vec list) res" where
  "paged_decode_attention env la q k v kv bts ctx =
     (let D = al_head_dim la in
      rbind (decode_kernel env la (map (heads D) q) (map (heads D) k) (map (heads D) v) kv bts ctx) (\<lambda>(kf, vf, rows).
      Ok ((kf, vf), map (\<lambda>row. flat_heads D (\<lambda>h d.
          case al_sinks la of None \<Rightarrow> fst (row h) d | Some s \<Rightarrow> fst (row h) d * sigmoid (snd (row h) - s ! h))) rows)))"

section \<open>Routing\<close>

definition softmax :: "real list \<Rightarrow> real list" where
  "softmax xs = (let t = sum_list (map exp xs) in map (\<lambda>x. exp x / t) xs)"

text \<open>The weighted router: the sampled experts with their renormalised weights.\<close>

definition random_routing_with_weights :: "real list \<Rightarrow> nat list \<Rightarrow> (real \<times> nat) list" where
  "random_routing_with_weights weights topk_ids =
     (let w = map (\<lambda>e. weights ! e) topk_ids; t = sum_list w in zip (map (\<lambda>x. x / t) w) topk_ids)"

definition route_row :: "attn_env \<Rightarrow> attn_layer \<Rightarrow> nat \<Rightarrow> vec \<Rightarrow> (real \<times> nat) list res" where
  "route_row env la r output =
     (let logits = al_gate la output in
      case al_weighted la of
        Some w \<Rightarrow> Ok (random_routing_with_weights w (ae_samples env r))
      | None \<Rightarrow>
        (let logits = (if al_router_mode la = ''random'' then ae_rand env r else logits) in
         if al_router_norm la = ''topk_softmax'' then
           (if al_top_k la > al_num_experts la then Raise RuntimeError
            else let ids = ae_topk env logits (al_num_experts la) (al_top_k la) in Ok (zip (softmax (map logits ids)) ids))
         else Ok (ae_fused_topk env logits (al_num_experts la) (al_top_k la))))"

definition route_rows :: "attn_env \<Rightarrow> attn_layer \<Rightarrow> int list \<Rightarrow> int list option \<Rightarrow> vec list \<Rightarrow> (real list list \<times> int list list) res" where
  "route_rows env la positions request_ids outputs =
     (case al_profile la of
        Some R \<Rightarrow> (case request_ids of
            None \<Rightarrow> Raise AssertionError
          | Some rids \<Rightarrow> rbind (route R rids positions (al_layer_id la) (int (al_top_k la))) (\<lambda>(ws, ids).
              Ok (map (map (\<lambda>(a, b). real_of_int a / real_of_int b)) ws, ids)))
      | None \<Rightarrow> rbind (mapM (\<lambda>(r, y). route_row env la r y) (enumerate 0 outputs)) (\<lambda>rows.
          Ok (map (map fst) rows, map (map (\<lambda>x. int (snd x))) rows)))"

section \<open>The forward pass\<close>

definition stash_select :: "vec list \<Rightarrow> int list \<Rightarrow> vec list res" where
  "stash_select stash slots = mapM (vec_get stash) slots"

definition stash_copy :: "vec list \<Rightarrow> int list \<Rightarrow> vec list \<Rightarrow> vec list res" where
  "stash_copy stash slots rows =
     (if length slots \<noteq> length rows then Raise RuntimeError
      else foldM (\<lambda>s (i, x). vec_set s i x) stash (zip slots rows))"

definition add_shared :: "attn_layer \<Rightarrow> vec \<Rightarrow> vec" where
  "add_shared la x = (case al_shared la of None \<Rightarrow> x | Some es \<Rightarrow> vadd x (foldl (\<lambda>acc e. vadd acc (e x)) (\<lambda>_. 0) es))"

definition split_qkv :: "attn_layer \<Rightarrow> vec \<Rightarrow> vec \<times> vec \<times> vec" where
  "split_qkv la y = (let qs = ad_q_size (al_dims la); ks = ad_kv_size (al_dims la) in (y, (\<lambda>i. y (qs + i)), (\<lambda>i. y (qs + ks + i))))"

definition attn_forward ::
  "attn_env \<Rightarrow> attn_layer \<Rightarrow> vec list option \<Rightarrow> int list \<Rightarrow> vec list \<Rightarrow> cache \<times> cache \<Rightarrow> int list list \<Rightarrow> int list \<Rightarrow> vec list option
   \<Rightarrow> int list option \<Rightarrow> int list option \<Rightarrow> (vec list option \<times> (cache \<times> cache) \<times> vec list \<times> real list list \<times> int list list) res" where
  "attn_forward env la stash positions hidden kv bts ctx residual request_ids stash_slots =
     rbind (case (al_stash_read la, stash, stash_slots) of
         (True, Some s, Some slots) \<Rightarrow> rbind (stash_select s slots) (add_rows hidden)
       | _ \<Rightarrow> Ok hidden) (\<lambda>hidden.
     (let (hidden, residual) = (case residual of
            None \<Rightarrow> (map (al_pre_norm la) hidden, hidden)
          | Some res \<Rightarrow> (map2 (\<lambda>x y. fst (al_pre_norm_add la x y)) hidden res, map2 (\<lambda>x y. snd (al_pre_norm_add la x y)) hidden res));
          qkv = map (\<lambda>x. split_qkv la (al_qkv la x)) hidden;
          qk = map2 (\<lambda>p (q, k, v). al_rope la p q k) positions qkv in
      rbind (paged_decode_attention env la (map fst qk) (map snd qk) (map (\<lambda>(q, k, v). v) qkv) kv bts ctx) (\<lambda>(kv, attn_output).
      (let normed = map2 (\<lambda>y res. al_post_norm la (al_o_proj la y) res) attn_output residual;
           residual = map snd normed in
       rbind (case (stash, stash_slots) of
           (Some s, Some slots) \<Rightarrow> rbind (stash_copy s slots residual) (\<lambda>s. Ok (Some s))
         | _ \<Rightarrow> Ok stash) (\<lambda>stash.
       (let outputs = map (\<lambda>x. add_shared la (fst x)) normed in
        rbind (route_rows env la positions request_ids outputs) (\<lambda>(ws, ids).
        Ok (stash, kv, outputs, ws, ids))))))))"

definition permute_by_exp_ids :: "(int list \<Rightarrow> nat list) \<Rightarrow> (vec list \<Rightarrow> int list \<Rightarrow> vec list res) \<Rightarrow> vec list \<Rightarrow> int list list \<Rightarrow> (vec list \<times> int list) res" where
  "permute_by_exp_ids argsort permute hidden topk_ids =
     (let reorder_ids = map int (argsort (concat topk_ids)) in rbind (permute hidden reorder_ids) (\<lambda>p. Ok (p, reorder_ids)))"

section \<open>Segments\<close>

text \<open>The loop keeps everything below \<open>low\<close> at most the expert and everything above \<open>high\<close> beyond it.\<close>

lemma seg_search_spec:
  assumes "sorted ids" and "0 \<le> low" and "low \<le> high + 1" and "high < int (length ids)" and "target = low - 1"
    and "\<forall>i < length ids. int i < low \<longrightarrow> ids ! i \<le> expert" and "\<forall>i < length ids. high < int i \<longrightarrow> expert < ids ! i"
  shows "let r = seg_search ids expert low high target in
    - 1 \<le> r \<and> r < int (length ids) \<and> (\<forall>i < length ids. ids ! i \<le> expert \<longleftrightarrow> int i \<le> r)"
  using assms
proof (induction ids expert low high target rule: seg_search.induct)
  case (1 ids expert low high target)
  define mid where "mid = (low + high) div 2"
  show ?case
  proof (cases "low \<le> high")
    case True
    then have m: "low \<le> mid" "mid \<le> high" by (auto simp: mid_def)
    have mono: "ids ! i \<le> ids ! j" if "i \<le> j" "j < length ids" for i j using 1(3) that by (simp add: sorted_nth_mono)
    have ml: "nat mid < length ids" using m 1(4,6) by simp
    show ?thesis
    proof (cases "ids ! nat mid > expert")
      case gt: True
      have "\<forall>i < length ids. mid - 1 < int i \<longrightarrow> expert < ids ! i"
      proof (intro allI impI)
        fix i assume i: "i < length ids" "mid - 1 < int i"
        then have "nat mid \<le> i" by simp
        then show "expert < ids ! i" using mono[of "nat mid" i] i(1) gt by linarith
      qed
      from 1(1)[OF True mid_def gt 1(3,4) _ _ 1(7,8) this] m 1(6) show ?thesis
        using True gt by (subst seg_search.simps) (simp add: mid_def[symmetric] Let_def)
    next
      case le: False
      have "\<forall>i < length ids. int i < mid + 1 \<longrightarrow> ids ! i \<le> expert"
      proof (intro allI impI)
        fix i assume i: "i < length ids" "int i < mid + 1"
        then have "i \<le> nat mid" by linarith
        then show "ids ! i \<le> expert" using mono[of i "nat mid"] ml le by linarith
      qed
      from 1(2)[OF True mid_def le 1(3) _ _ 1(6) _ this 1(9)] m 1(4) show ?thesis
        using True le by (subst seg_search.simps) (simp add: mid_def[symmetric] Let_def)
    qed
  next
    case False
    then have "high = low - 1" using 1(5) by simp
    then show ?thesis
      using False 1 by (subst seg_search.simps) (auto simp: Let_def not_le)
  qed
qed

lemma filter_prefix:
  assumes "\<forall>i < length xs. P (xs ! i) \<longleftrightarrow> i < n" and "n \<le> length xs"
  shows "length (filter P xs) = n"
proof -
  have "{i. i < length xs \<and> P (xs ! i)} = {i. i < n}" using assms by auto
  then show ?thesis by (simp add: length_filter_conv_card)
qed

text \<open>
  C39: On sorted expert ids the segment kernel stores, for every expert, the number of rows with an id at most
  the expert: the end of the segment of the expert.
\<close>

theorem seg_indptr_counts:
  assumes "sorted ids"
  shows "compute_seg_indptr ids (int (length ids)) expert = int (length (filter (\<lambda>e. e \<le> expert) ids))"
proof -
  define r where "r = seg_search ids expert 0 (int (length ids) - 1) (- 1)"
  have s: "- 1 \<le> r \<and> r < int (length ids) \<and> (\<forall>i < length ids. ids ! i \<le> expert \<longleftrightarrow> int i \<le> r)"
    unfolding r_def by (rule seg_search_spec[OF assms, unfolded Let_def]) auto
  have "\<forall>i < length ids. ids ! i \<le> expert \<longleftrightarrow> i < nat (r + 1)"
  proof (intro allI impI)
    fix i assume "i < length ids"
    then have "ids ! i \<le> expert \<longleftrightarrow> int i \<le> r" using s by blast
    then show "ids ! i \<le> expert \<longleftrightarrow> i < nat (r + 1)" by linarith
  qed
  moreover have "nat (r + 1) \<le> length ids" using s by linarith
  ultimately have "length (filter (\<lambda>e. e \<le> expert) ids) = nat (r + 1)" by (rule filter_prefix)
  then show ?thesis using s by (simp add: compute_seg_indptr_def r_def[symmetric])
qed

theorem seg_indptr_counts_witness:
  "compute_seg_indptr [0, 0, 2, 5] 4 2 = 3"
  using seg_indptr_counts[of "[0, 0, 2, 5]" 2] by simp

section \<open>Attention with sinks\<close>

text \<open>Softmax attention with one more logit that has no value.\<close>

definition sink_attention :: "nat \<Rightarrow> real \<Rightarrow> vec \<Rightarrow> cache \<Rightarrow> cache \<Rightarrow> nat \<Rightarrow> int list \<Rightarrow> real option \<Rightarrow> vec" where
  "sink_attention D scale q kf vf kvh slots sink =
     (\<lambda>d. softmax_acc D scale q kf vf kvh slots d / (softmax_sum D scale q kf kvh slots + (case sink of None \<Rightarrow> 0 | Some s \<Rightarrow> exp s)))"

lemma rescale_sink:
  assumes "slots \<noteq> []" and "(out, lse) = attention D scale q kf vf kvh slots"
  shows "out d * sigmoid (lse - s) = sink_attention D scale q kf vf kvh slots (Some s) d"
proof -
  define S where "S = softmax_sum D scale q kf kvh slots"
  have S: "0 < S" unfolding S_def by (rule softmax_sum_pos[OF assms(1)])
  have e: "exp (- (ln S - s)) = exp s / S" using S by (simp add: exp_diff)
  have "sigmoid (ln S - s) = S / (S + exp s)" unfolding sigmoid_def e using S by (simp add: field_simps)
  then show ?thesis using assms(2) S by (simp add: attention_def sink_attention_def S_def[symmetric])
qed

definition window_start :: "attn_layer \<Rightarrow> int \<Rightarrow> int" where
  "window_start la c = (case al_sliding_window la of None \<Rightarrow> 0 | Some w \<Rightarrow> if w = 0 then 0 else max (c + 1 - w) 0)"

definition env_ok :: "attn_env \<Rightarrow> attn_layer \<Rightarrow> bool" where
  "env_ok env la \<longleftrightarrow> npow2_contract (ae_npow2 env)
     \<and> flash_contract (ad_num_heads (al_dims la) div ad_num_kv_heads (al_dims la)) (al_head_dim la) (ae_page env) (ae_flash env)
     \<and> 0 < ae_page env \<and> 0 < ad_num_kv_heads (al_dims la)
     \<and> (\<forall>w. al_sliding_window la = Some w \<longrightarrow> w \<noteq> 0 \<longrightarrow> sw_checks (ae_npow2 env) (int (al_head_dim la)) (ae_page env) w = Ok ()
           \<and> ae_page env \<le> w)"

definition attn_batch_ok :: "attn_env \<Rightarrow> nat \<Rightarrow> int list list \<Rightarrow> int list \<Rightarrow> bool" where
  "attn_batch_ok env n bts ctx \<longleftrightarrow> length bts = n \<and> length ctx = n
     \<and> (\<forall>r < n. 0 \<le> ctx ! r \<and> ctx ! r div ae_page env < int (length (bts ! r)) \<and> row_apart (ae_page env) ctx bts r)"

text \<open>What the attention of a batch is: the caches with the new entries, and every row over its window.\<close>

definition ref_attention ::
  "attn_env \<Rightarrow> attn_layer \<Rightarrow> vec list \<Rightarrow> vec list \<Rightarrow> vec list \<Rightarrow> cache \<times> cache \<Rightarrow> int list list \<Rightarrow> int list \<Rightarrow> (cache \<times> cache) \<times> vec list" where
  "ref_attention env la q k v kv bts ctx =
     (let D = al_head_dim la; P = ae_page env; G = ad_num_heads (al_dims la) div ad_num_kv_heads (al_dims la);
          kf = append_rows P (fst kv) (map (heads D) k) ctx bts; vf = append_rows P (snd kv) (map (heads D) v) ctx bts in
      ((kf, vf), map (\<lambda>r. flat_heads D (\<lambda>h. sink_attention D (ad_scaling (al_dims la)) (heads D (q ! r) h) kf vf (h div G)
          (map (paged_slot P (bts ! r)) [window_start la (ctx ! r)..ctx ! r]) (map_option (\<lambda>s. s ! h) (al_sinks la)))) [0..<length q]))"

text \<open>Either kernel, before the sinks; the attention is promised to rows apart from the others.\<close>

definition window_attention :: "attn_env \<Rightarrow> attn_layer \<Rightarrow> (nat \<Rightarrow> vec) list \<Rightarrow> cache \<Rightarrow> cache \<Rightarrow> int list list \<Rightarrow> int list \<Rightarrow> nat \<Rightarrow> nat \<Rightarrow> vec \<times> real" where
  "window_attention env la q kf vf bts ctx r =
     (\<lambda>h. attention (al_head_dim la) (ad_scaling (al_dims la)) ((q ! r) h) kf vf (h div (ad_num_heads (al_dims la) div ad_num_kv_heads (al_dims la)))
       (map (paged_slot (ae_page env) (bts ! r)) [window_start la (ctx ! r)..ctx ! r]))"

definition covered :: "attn_env \<Rightarrow> nat \<Rightarrow> int list list \<Rightarrow> int list \<Rightarrow> bool" where
  "covered env n bts ctx \<longleftrightarrow> length bts = n \<and> length ctx = n \<and> (\<forall>r < n. 0 \<le> ctx ! r \<and> ctx ! r div ae_page env < int (length (bts ! r)))"

lemma flash_rows:
  assumes "env_ok env la" and "covered env (length q) bts ctx" and "length k = length q" "length v = length q"
    and "al_sliding_window la = None \<or> al_sliding_window la = Some 0"
  shows "\<exists>kf vf out lse. ae_flash env q kc vc k v ctx bts (ad_scaling (al_dims la)) = (kf, vf, out, lse)
    \<and> appended kc k (row_slots (ae_page env) ctx bts) kf \<and> appended vc v (row_slots (ae_page env) ctx bts) vf
    \<and> length (map2 (\<lambda>y l h. (y h, l h)) out lse) = length q
    \<and> (\<forall>r < length q. row_apart (ae_page env) ctx bts r \<longrightarrow> map2 (\<lambda>y l h. (y h, l h)) out lse ! r = window_attention env la q kf vf bts ctx r)"
proof -
  let ?fl = "ae_flash env q kc vc k v ctx bts (ad_scaling (al_dims la))"
  obtain kf vf out lse where fl: "?fl = (kf, vf, out, lse)" by (cases ?fl)
  have fc: "flash_contract (ad_num_heads (al_dims la) div ad_num_kv_heads (al_dims la)) (al_head_dim la) (ae_page env) (ae_flash env)"
    using assms(1) by (simp add: env_ok_def)
  have w: "window_start la c = 0" for c using assms(5) by (auto simp: window_start_def)
  show ?thesis
    using fc[unfolded flash_contract_def, rule_format, of k q v ctx bts kc vc "ad_scaling (al_dims la)"] assms(2-4)
    by (intro exI[of _ kf] exI[of _ vf] exI[of _ out] exI[of _ lse]) (simp add: fl covered_def window_attention_def w fun_eq_iff)
qed

lemma decode_kernel_rows:
  assumes "env_ok env la" and "covered env (length q) bts ctx" and "length k = length q" "length v = length q"
  shows "\<exists>kf vf rows. decode_kernel env la q k v kv bts ctx = Ok (kf, vf, rows)
    \<and> appended (fst kv) k (row_slots (ae_page env) ctx bts) kf \<and> appended (snd kv) v (row_slots (ae_page env) ctx bts) vf \<and> length rows = length q
    \<and> (\<forall>r < length q. row_apart (ae_page env) ctx bts r \<longrightarrow> rows ! r = window_attention env la q kf vf bts ctx r)"
proof (cases "\<exists>w. al_sliding_window la = Some w \<and> w \<noteq> 0")
  case True
  then obtain w where w: "al_sliding_window la = Some w" "w \<noteq> 0" by blast
  let ?G = "ad_num_heads (al_dims la) div ad_num_kv_heads (al_dims la)"
  have e: "npow2_contract (ae_npow2 env)" "flash_contract ?G (al_head_dim la) (ae_page env) (ae_flash env)"
    "sw_checks (ae_npow2 env) (int (al_head_dim la)) (ae_page env) w = Ok ()" "0 < ae_page env" "0 < ad_num_kv_heads (al_dims la)"
    using assms(1) w by (simp_all add: env_ok_def)
  have l: "length k = length q \<and> length v = length q \<and> length bts = length q \<and> length ctx = length q"
    "\<forall>r < length q. 0 \<le> ctx ! r \<and> ctx ! r div ae_page env < int (length (bts ! r))" using assms(2-4) by (auto simp: covered_def)
  from sliding_window_rows[OF e l, of "fst kv" "snd kv" "ad_scaling (al_dims la)"] show ?thesis
    using w by (auto simp: decode_kernel_def Let_def window_attention_def window_start_def fun_eq_iff)
next
  case False
  then have n: "al_sliding_window la = None \<or> al_sliding_window la = Some 0" by (cases "al_sliding_window la") auto
  from flash_rows[OF assms this, of "fst kv" "snd kv"] show ?thesis
    using n by (auto simp: decode_kernel_def Let_def)
qed

lemma sink_row:
  assumes "\<forall>h. slots h \<noteq> []"
  shows "(\<lambda>h d. case sinks of None \<Rightarrow> fst (attention D scale (q h) kf vf (g h) (slots h)) d
      | Some s \<Rightarrow> fst (attention D scale (q h) kf vf (g h) (slots h)) d * sigmoid (snd (attention D scale (q h) kf vf (g h) (slots h)) - s ! h))
    = (\<lambda>h. sink_attention D scale (q h) kf vf (g h) (slots h) (map_option (\<lambda>s. s ! h) sinks))"
proof (cases sinks)
  case None
  then show ?thesis by (simp add: sink_attention_def attention_def)
next
  case (Some s)
  have "fst (attention D scale (q h) kf vf (g h) (slots h)) d * sigmoid (snd (attention D scale (q h) kf vf (g h) (slots h)) - s ! h)
      = sink_attention D scale (q h) kf vf (g h) (slots h) (Some (s ! h)) d" for h d
    using assms by (intro rescale_sink) auto
  then show ?thesis using Some by (simp add: fun_eq_iff)
qed

text \<open>The rows of a batch in which some may share slots.\<close>

definition sink_row_of :: "attn_env \<Rightarrow> attn_layer \<Rightarrow> vec \<Rightarrow> cache \<Rightarrow> cache \<Rightarrow> int list \<Rightarrow> int \<Rightarrow> vec" where
  "sink_row_of env la q kf vf bt c =
     flat_heads (al_head_dim la) (\<lambda>h. sink_attention (al_head_dim la) (ad_scaling (al_dims la)) (heads (al_head_dim la) q h) kf vf
       (h div (ad_num_heads (al_dims la) div ad_num_kv_heads (al_dims la)))
       (map (paged_slot (ae_page env) bt) [window_start la c..c]) (map_option (\<lambda>s. s ! h) (al_sinks la)))"

lemma window_nonempty:
  assumes "env_ok env la" and "0 \<le> c"
  shows "window_start la c \<le> c"
  using assms by (auto simp: window_start_def env_ok_def max_def split: option.splits)

lemma decode_rows_apart:
  assumes "env_ok env la" and "covered env (length q) bts ctx" and "length k = length q" and "length v = length q"
  shows "\<exists>kf vf att. paged_decode_attention env la q k v kv bts ctx = Ok ((kf, vf), att)
    \<and> appended (fst kv) (map (heads (al_head_dim la)) k) (row_slots (ae_page env) ctx bts) kf
    \<and> appended (snd kv) (map (heads (al_head_dim la)) v) (row_slots (ae_page env) ctx bts) vf \<and> length att = length q
    \<and> (\<forall>r < length q. row_apart (ae_page env) ctx bts r \<longrightarrow> att ! r = sink_row_of env la (q ! r) kf vf (bts ! r) (ctx ! r))"
proof -
  let ?hd = "map (heads (al_head_dim la))"
  obtain kf vf rows where dk: "decode_kernel env la (?hd q) (?hd k) (?hd v) kv bts ctx = Ok (kf, vf, rows)"
    and ap: "appended (fst kv) (?hd k) (row_slots (ae_page env) ctx bts) kf" "appended (snd kv) (?hd v) (row_slots (ae_page env) ctx bts) vf"
    and l: "length rows = length q"
    and row: "\<forall>r < length q. row_apart (ae_page env) ctx bts r \<longrightarrow> rows ! r = window_attention env la (?hd q) kf vf bts ctx r"
    using decode_kernel_rows[OF assms(1), of "?hd q" bts ctx "?hd k" "?hd v" kv] assms(2-4) by auto
  let ?f = "\<lambda>row. flat_heads (al_head_dim la) (\<lambda>h d. case al_sinks la of None \<Rightarrow> fst (row h) d | Some s \<Rightarrow> fst (row h) d * sigmoid (snd (row h) - s ! h))"
  have "paged_decode_attention env la q k v kv bts ctx = Ok ((kf, vf), map ?f rows)"
    using dk by (simp add: paged_decode_attention_def)
  moreover have "map ?f rows ! r = sink_row_of env la (q ! r) kf vf (bts ! r) (ctx ! r)" if r: "r < length q" "row_apart (ae_page env) ctx bts r" for r
  proof -
    have "window_start la (ctx ! r) \<le> ctx ! r" using window_nonempty[OF assms(1)] assms(2) r(1) by (simp add: covered_def)
    then have ne: "\<forall>h :: nat. map (paged_slot (ae_page env) (bts ! r)) [window_start la (ctx ! r)..ctx ! r] \<noteq> []" by simp
    have "map ?f rows ! r = ?f (window_attention env la (?hd q) kf vf bts ctx r)" unfolding row[rule_format, OF r, symmetric] using r(1) l by simp
    also have "\<dots> = sink_row_of env la (q ! r) kf vf (bts ! r) (ctx ! r)"
      unfolding window_attention_def sink_row_of_def sink_row[OF ne, symmetric] nth_map[OF r(1)] by (rule refl)
    finally show ?thesis .
  qed
  ultimately show ?thesis using ap l by (intro exI[of _ kf] exI[of _ vf] exI[of _ "map ?f rows"]) simp
qed

lemma decode_attention_rows:
  assumes "env_ok env la" and "attn_batch_ok env (length q) bts ctx" and "length k = length q" and "length v = length q"
  shows "paged_decode_attention env la q k v kv bts ctx = Ok (ref_attention env la q k v kv bts ctx)"
proof -
  let ?hd = "map (heads (al_head_dim la))" and ?P = "ae_page env"
  have cov: "covered env (length q) bts ctx" using assms(2) by (simp add: covered_def attn_batch_ok_def)
  obtain kf vf att where pd: "paged_decode_attention env la q k v kv bts ctx = Ok ((kf, vf), att)"
    and ap: "appended (fst kv) (?hd k) (row_slots ?P ctx bts) kf" "appended (snd kv) (?hd v) (row_slots ?P ctx bts) vf" and l: "length att = length q"
    and row: "\<forall>r < length q. row_apart ?P ctx bts r \<longrightarrow> att ! r = sink_row_of env la (q ! r) kf vf (bts ! r) (ctx ! r)"
    using decode_rows_apart[OF assms(1) cov assms(3,4)] by blast
  have lb: "length bts = length ctx" and apart: "\<forall>r < length ctx. row_apart ?P ctx bts r \<and> 0 \<le> ctx ! r"
    using assms(2) by (auto simp: attn_batch_ok_def)
  have lk: "length (?hd k) = length ctx" "length (?hd v) = length ctx" using assms(2-4) by (simp_all add: attn_batch_ok_def)
  have kv: "kf = append_rows ?P (fst kv) (?hd k) ctx bts" "vf = append_rows ?P (snd kv) (?hd v) ctx bts"
    using appended_unique[OF ap(1) append_rows_appended[OF lk(1) lb] lb apart] appended_unique[OF ap(2) append_rows_appended[OF lk(2) lb] lb apart] by simp_all
  have "att = map (\<lambda>r. sink_row_of env la (q ! r) kf vf (bts ! r) (ctx ! r)) [0..<length q]"
    using row l assms(2) by (intro nth_equalityI) (auto simp: attn_batch_ok_def)
  then show ?thesis unfolding pd kv by (simp add: ref_attention_def sink_row_of_def Let_def)
qed

text \<open>
  C26: Paged decode attention, on either kernel, stores every new key and value at the slot of its row and returns for every row and head
  softmax attention over the window of the layer, with the sink of the head, if the layer has sinks, as one more logit without a value. It relies on the
  contracts of the kernels, block tables that cover the current tokens, and rows that do not write where others read.
\<close>

theorem decode_attention_with_sinks:
  assumes "env_ok env la" and "attn_batch_ok env (length q) bts ctx" and "length k = length q" and "length v = length q"
  shows "paged_decode_attention env la q k v kv bts ctx = Ok (ref_attention env la q k v kv bts ctx)"
  by (rule decode_attention_rows[OF assms])

section \<open>The residual stream\<close>

text \<open>The fused norm returns the sum as the new residual.\<close>

definition norm_contract :: "attn_layer \<Rightarrow> bool" where
  "norm_contract la \<longleftrightarrow> (\<forall>y x. snd (al_post_norm la y x) = vadd y x)"

text \<open>
  The block of a layer on the completed stream \<open>xs\<close>: the new caches, the stream after attention, and the rows, weights and experts sent on.
\<close>

definition ref_layer ::
  "attn_env \<Rightarrow> attn_layer \<Rightarrow> int list \<Rightarrow> vec list \<Rightarrow> cache \<times> cache \<Rightarrow> int list list \<Rightarrow> int list \<Rightarrow> int list option
   \<Rightarrow> ((cache \<times> cache) \<times> vec list \<times> vec list \<times> real list list \<times> int list list) res" where
  "ref_layer env la positions xs kv bts ctx request_ids =
     (let qkv = map (\<lambda>x. split_qkv la (al_qkv la (al_pre_norm la x))) xs;
          qk = map2 (\<lambda>p (q, k, v). al_rope la p q k) positions qkv;
          (kv', att) = ref_attention env la (map fst qk) (map snd qk) (map (\<lambda>(q, k, v). v) qkv) kv bts ctx;
          outs = map2 (\<lambda>a x. add_shared la (fst (al_post_norm la (al_o_proj la a) x))) att xs in
      rbind (route_rows env la positions request_ids outs) (\<lambda>(ws, ids).
      Ok (kv', map2 (\<lambda>a x. vadd (al_o_proj la a) x) att xs, outs, ws, ids)))"

definition slots_in :: "vec list \<Rightarrow> int list \<Rightarrow> bool" where
  "slots_in stash slots \<longleftrightarrow> (\<forall>s \<in> set slots. 0 \<le> s \<and> s < int (length stash))"

definition slots_ok :: "vec list \<Rightarrow> int list \<Rightarrow> bool" where
  "slots_ok stash slots \<longleftrightarrow> distinct slots \<and> slots_in stash slots"

definition stash_rows :: "vec list \<Rightarrow> int list \<Rightarrow> vec list" where
  "stash_rows stash slots = map (\<lambda>s. stash ! nat s) slots"

definition put_rows :: "vec list \<Rightarrow> int list \<Rightarrow> vec list \<Rightarrow> vec list" where
  "put_rows stash slots rows = foldl (\<lambda>s (i, x). s[nat i := x]) stash (zip slots rows)"

lemma stash_select_Ok: "slots_in stash slots \<Longrightarrow> stash_select stash slots = Ok (stash_rows stash slots)"
  unfolding stash_select_def stash_rows_def by (rule mapM_Ok_map) (auto simp: slots_in_def vec_get_def)

lemma foldM_put:
  assumes "\<forall>(i, x) \<in> set ps. 0 \<le> i \<and> i < int (length s)"
  shows "foldM (\<lambda>s (i, x). vec_set s i x) s ps = Ok (foldl (\<lambda>s (i, x). s[nat i := x]) s ps) \<and> length (foldl (\<lambda>s (i, x). s[nat i := x]) s ps) = length s"
  using assms
proof (induction ps arbitrary: s)
  case (Cons p ps)
  obtain i x where p: "p = (i, x)" by (cases p)
  have "vec_set s i x = Ok (s[nat i := x])" using Cons.prems p by (simp add: vec_set_def)
  then show ?case using Cons.IH[of "s[nat i := x]"] Cons.prems p by simp
qed simp

lemma stash_copy_Ok:
  assumes "slots_in stash slots" and "length rows = length slots"
  shows "stash_copy stash slots rows = Ok (put_rows stash slots rows)" and "length (put_rows stash slots rows) = length stash"
proof -
  have "\<forall>(i, x) \<in> set (zip slots rows). 0 \<le> i \<and> i < int (length stash)"
    using assms(1) by (auto simp: slots_in_def dest: set_zip_leftD)
  from foldM_put[OF this] show "stash_copy stash slots rows = Ok (put_rows stash slots rows)" "length (put_rows stash slots rows) = length stash"
    using assms(2) by (simp_all add: stash_copy_def put_rows_def)
qed

lemma put_rows_other: "\<forall>i \<in> set slots. nat i \<noteq> j \<Longrightarrow> put_rows stash slots rows ! j = stash ! j"
  unfolding put_rows_def
proof (induction slots arbitrary: stash rows)
  case (Cons i slots)
  then show ?case by (cases rows) auto
qed simp

text \<open>What a batch stored it reads back, and rows of other requests stay.\<close>

lemma stash_rows_put:
  assumes "slots_ok stash slots" and "length rows = length slots"
  shows "stash_rows (put_rows stash slots rows) slots = rows"
  using assms
proof (induction slots arbitrary: stash rows)
  case Nil
  then show ?case by (simp add: stash_rows_def)
next
  case (Cons i slots)
  then obtain x xs where rows: "rows = x # xs" "length xs = length slots" by (cases rows) auto
  let ?s = "stash[nat i := x]"
  have ok: "slots_ok ?s slots" and i: "0 \<le> i" "nat i < length stash" using Cons.prems(1) by (auto simp: slots_ok_def slots_in_def)
  have "nat j \<noteq> nat i" if "j \<in> set slots" for j using Cons.prems(1) that i by (auto simp: slots_ok_def slots_in_def nat_eq_iff2)
  then have "put_rows ?s slots xs ! nat i = x" using put_rows_other[of slots "nat i" ?s xs] i by simp
  then show ?case using Cons.IH[OF ok rows(2)] rows by (simp add: stash_rows_def put_rows_def)
qed

lemma ref_attention_length: "length (snd (ref_attention env la q k v kv bts ctx)) = length q"
  by (simp add: ref_attention_def Let_def)

text \<open>The steps of the pass around the attention of its rows.\<close>

definition stream_in :: "attn_layer \<Rightarrow> vec list \<Rightarrow> vec list \<Rightarrow> int list \<Rightarrow> vec list" where
  "stream_in la hidden stash slots = (if al_stash_read la then map2 vadd hidden (stash_rows stash slots) else hidden)"

definition qkv_rows :: "attn_layer \<Rightarrow> vec list \<Rightarrow> (vec \<times> vec \<times> vec) list" where
  "qkv_rows la xs = map (\<lambda>x. split_qkv la (al_qkv la (al_pre_norm la x))) xs"

definition qk_rows :: "attn_layer \<Rightarrow> int list \<Rightarrow> vec list \<Rightarrow> (vec \<times> vec) list" where
  "qk_rows la positions xs = map2 (\<lambda>p (q, k, v). al_rope la p q k) positions (qkv_rows la xs)"

definition attention_of :: "attn_env \<Rightarrow> attn_layer \<Rightarrow> int list \<Rightarrow> vec list \<Rightarrow> cache \<times> cache \<Rightarrow> int list list \<Rightarrow> int list \<Rightarrow> ((cache \<times> cache) \<times> vec list) res" where
  "attention_of env la positions xs kv bts ctx =
     paged_decode_attention env la (map fst (qk_rows la positions xs)) (map snd (qk_rows la positions xs)) (map (\<lambda>(q, k, v). v) (qkv_rows la xs)) kv bts ctx"

definition out_rows :: "attn_layer \<Rightarrow> vec list \<Rightarrow> vec list \<Rightarrow> vec list" where
  "out_rows la att xs = map2 (\<lambda>a x. add_shared la (fst (al_post_norm la (al_o_proj la a) x))) att xs"

definition res_rows :: "attn_layer \<Rightarrow> vec list \<Rightarrow> vec list \<Rightarrow> vec list" where
  "res_rows la att xs = map2 (\<lambda>a x. snd (al_post_norm la (al_o_proj la a) x)) att xs"

lemma stream_in_length: "length slots = length hidden \<Longrightarrow> length (stream_in la hidden stash slots) = length hidden"
  by (simp add: stream_in_def stash_rows_def)

lemma attn_forward_steps:
  assumes "slots_in stash slots" and "length slots = length hidden" and "xs = stream_in la hidden stash slots"
    and "attention_of env la positions xs kv bts ctx = Ok (kv', att)" and "length att = length hidden"
  shows "attn_forward env la (Some stash) positions hidden kv bts ctx None request_ids (Some slots) =
    rbind (route_rows env la positions request_ids (out_rows la att xs)) (\<lambda>(ws, ids).
      Ok (Some (put_rows stash slots (res_rows la att xs)), kv', out_rows la att xs, ws, ids))"
proof -
  have lx: "length xs = length hidden" using assms(2,3) by (simp add: stream_in_length)
  have st: "(case (al_stash_read la, Some stash, Some slots) of (True, Some s, Some slots) \<Rightarrow> rbind (stash_select s slots) (add_rows hidden) | _ \<Rightarrow> Ok hidden) = Ok xs"
    using assms(2) by (auto simp: assms(3) stream_in_def stash_select_Ok[OF assms(1)] add_rows_def stash_rows_def)
  have q: "map (\<lambda>x. split_qkv la (al_qkv la x)) (map (al_pre_norm la) xs) = qkv_rows la xs" by (simp add: qkv_rows_def)
  have res: "map snd (map2 (\<lambda>y res. al_post_norm la (al_o_proj la y) res) att xs) = res_rows la att xs"
    and outs: "map (\<lambda>x. add_shared la (fst x)) (map2 (\<lambda>y res. al_post_norm la (al_o_proj la y) res) att xs) = out_rows la att xs"
    by (auto simp: res_rows_def out_rows_def)
  have cp: "stash_copy stash slots (res_rows la att xs) = Ok (put_rows stash slots (res_rows la att xs))"
    using stash_copy_Ok(1)[OF assms(1)] assms(2,5) lx by (simp add: res_rows_def)
  show ?thesis
    unfolding attn_forward_def st
    unfolding rbind_Ok option.case prod.case Let_def q qk_rows_def[symmetric] attention_of_def[symmetric] assms(4)
    unfolding rbind_Ok prod.case res outs cp
    by simp
qed

text \<open>One layer: the block of the completed stream, with the next residual left in the stash.\<close>

lemma attn_forward_block:
  assumes "env_ok env la" and "norm_contract la" and "attn_batch_ok env (length hidden) bts ctx" and "length positions = length hidden"
    and "slots_ok stash slots" and "length slots = length hidden"
  defines "xs \<equiv> (if al_stash_read la then map2 vadd hidden (stash_rows stash slots) else hidden)"
  shows "attn_forward env la (Some stash) positions hidden kv bts ctx None request_ids (Some slots) =
    rbind (ref_layer env la positions xs kv bts ctx request_ids) (\<lambda>(kv', res, outs, ws, ids). Ok (Some (put_rows stash slots res), kv', outs, ws, ids))"
proof -
  have xs: "xs = stream_in la hidden stash slots" by (simp add: xs_def stream_in_def)
  have lx: "length xs = length hidden" using assms(6) by (simp add: xs stream_in_length)
  let ?q = "map fst (qk_rows la positions xs)" and ?k = "map snd (qk_rows la positions xs)" and ?v = "map (\<lambda>(q, k, v). v) (qkv_rows la xs)"
  have lq: "length (qk_rows la positions xs) = length hidden" "length (qkv_rows la xs) = length hidden"
    using lx assms(4) by (simp_all add: qk_rows_def qkv_rows_def)
  obtain kv' att where ra: "ref_attention env la ?q ?k ?v kv bts ctx = (kv', att)" by (cases "ref_attention env la ?q ?k ?v kv bts ctx")
  have la: "length att = length hidden" using ref_attention_length[of env la ?q ?k ?v kv bts ctx] ra lq by simp
  have "attention_of env la positions xs kv bts ctx = Ok (kv', att)"
    using decode_attention_rows[OF assms(1), of ?q bts ctx ?k ?v kv] assms(3) lq ra by (simp add: attention_of_def)
  from attn_forward_steps[OF _ assms(6) xs this la] assms(5)
  have "attn_forward env la (Some stash) positions hidden kv bts ctx None request_ids (Some slots) =
    rbind (route_rows env la positions request_ids (out_rows la att xs)) (\<lambda>(ws, ids).
      Ok (Some (put_rows stash slots (res_rows la att xs)), kv', out_rows la att xs, ws, ids))"
    by (simp add: slots_ok_def)
  moreover have "res_rows la att xs = map2 (\<lambda>a x. vadd (al_o_proj la a) x) att xs"
    using assms(2) by (auto simp: res_rows_def norm_contract_def)
  moreover have "ref_layer env la positions xs kv bts ctx request_ids =
      rbind (route_rows env la positions request_ids (out_rows la att xs)) (\<lambda>(ws, ids).
      Ok (kv', map2 (\<lambda>a x. vadd (al_o_proj la a) x) att xs, out_rows la att xs, ws, ids))"
    unfolding ref_layer_def Let_def qkv_rows_def[symmetric] qk_rows_def[symmetric] ra prod.case out_rows_def ..
  ultimately show ?thesis by (simp add: rbind_assoc case_prod_unfold)
qed

text \<open>
  A token step through consecutive layers of one worker. A layer comes with the experts that answer its rows and with what the
  worker does to the stash for other requests before the answer is back.
\<close>

record stream_layer =
  sl_layer :: attn_layer
  sl_experts :: "vec list \<Rightarrow> real list list \<Rightarrow> int list list \<Rightarrow> vec list"
  sl_others :: "vec list \<Rightarrow> vec list"

fun run_stash ::
  "attn_env \<Rightarrow> int list \<Rightarrow> int list list \<Rightarrow> int list \<Rightarrow> int list option \<Rightarrow> int list \<Rightarrow> stream_layer list \<Rightarrow> (cache \<times> cache) list \<Rightarrow> vec list \<Rightarrow> vec list
   \<Rightarrow> ((cache \<times> cache) list \<times> vec list) res" where
  "run_stash env positions bts ctx rids slots (l # ls) (kv # kvs) stash hidden =
     rbind (attn_forward env (sl_layer l) (Some stash) positions hidden kv bts ctx None rids (Some slots)) (\<lambda>(stash, kv, outs, ws, ids).
     rbind (run_stash env positions bts ctx rids slots ls kvs (sl_others l (the stash)) (sl_experts l outs ws ids)) (\<lambda>(kvs, y). Ok (kv # kvs, y)))"
| "run_stash env positions bts ctx rids slots _ _ stash hidden = rbind (stash_select stash slots) (\<lambda>rows. Ok ([], map2 vadd hidden rows))"

text \<open>The residual network: attention and experts add to the stream.\<close>

fun run_residual ::
  "attn_env \<Rightarrow> int list \<Rightarrow> int list list \<Rightarrow> int list \<Rightarrow> int list option \<Rightarrow> stream_layer list \<Rightarrow> (cache \<times> cache) list \<Rightarrow> vec list
   \<Rightarrow> ((cache \<times> cache) list \<times> vec list) res" where
  "run_residual env positions bts ctx rids (l # ls) (kv # kvs) xs =
     rbind (ref_layer env (sl_layer l) positions xs kv bts ctx rids) (\<lambda>(kv, xs, outs, ws, ids).
     rbind (run_residual env positions bts ctx rids ls kvs (map2 vadd (sl_experts l outs ws ids) xs)) (\<lambda>(kvs, y). Ok (kv # kvs, y)))"
| "run_residual env positions bts ctx rids _ _ xs = Ok ([], xs)"

definition layer_ok :: "attn_env \<Rightarrow> int list \<Rightarrow> stream_layer \<Rightarrow> bool" where
  "layer_ok env slots l \<longleftrightarrow> env_ok env (sl_layer l) \<and> norm_contract (sl_layer l)
     \<and> (\<forall>outs ws ids. length (sl_experts l outs ws ids) = length outs)
     \<and> (\<forall>s. length (sl_others l s) = length s \<and> stash_rows (sl_others l s) slots = stash_rows s slots)"

lemma ref_layer_lengths:
  assumes "ref_layer env la positions xs kv bts ctx rids = Ok (kv', res, outs, ws, ids)" and "length positions = length xs"
  shows "length res = length xs" and "length outs = length xs"
proof -
  define qkv where "qkv = map (\<lambda>x. split_qkv la (al_qkv la (al_pre_norm la x))) xs"
  define qk where "qk = map2 (\<lambda>p (q, k, v). al_rope la p q k) positions qkv"
  obtain kv0 att where ra: "ref_attention env la (map fst qk) (map snd qk) (map (\<lambda>(q, k, v). v) qkv) kv bts ctx = (kv0, att)"
    by (cases "ref_attention env la (map fst qk) (map snd qk) (map (\<lambda>(q, k, v). v) qkv) kv bts ctx")
  have la: "length att = length xs"
    using ref_attention_length[of env la "map fst qk" "map snd qk" "map (\<lambda>(q, k, v). v) qkv" kv bts ctx] ra assms(2)
    by (simp add: qk_def qkv_def)
  have "res = map2 (\<lambda>a x. vadd (al_o_proj la a) x) att xs \<and> outs = map2 (\<lambda>a x. add_shared la (fst (al_post_norm la (al_o_proj la a) x))) att xs"
    using assms(1) unfolding ref_layer_def Let_def qkv_def[symmetric] qk_def[symmetric] ra prod.case rbind_eq_Ok by auto
  then show "length res = length xs" "length outs = length xs" using la by simp_all
qed

text \<open>With layers that read the stash, the run follows the residual network on the completed input.\<close>

lemma run_stash_reads:
  assumes "\<forall>l \<in> set ls. layer_ok env slots l \<and> al_stash_read (sl_layer l)" and "length kvs = length ls"
    and "attn_batch_ok env (length hidden) bts ctx" and "length positions = length hidden"
    and "slots_ok stash slots" and "length slots = length hidden"
  shows "run_stash env positions bts ctx rids slots ls kvs stash hidden
    = run_residual env positions bts ctx rids ls kvs (map2 vadd hidden (stash_rows stash slots))"
  using assms
proof (induction ls arbitrary: kvs stash hidden)
  case Nil
  then show ?case by (simp add: stash_select_Ok slots_ok_def)
next
  case (Cons l ls)
  then obtain kv kvs' where kvs: "kvs = kv # kvs'" "length kvs' = length ls" by (cases kvs) auto
  have lo: "layer_ok env slots l" and rd: "al_stash_read (sl_layer l)" using Cons.prems(1) by simp_all
  then have ok: "env_ok env (sl_layer l)" "norm_contract (sl_layer l)"
    and ex: "\<And>outs ws ids. length (sl_experts l outs ws ids) = length outs"
    and ot: "\<And>s. length (sl_others l s) = length s" "\<And>s. stash_rows (sl_others l s) slots = stash_rows s slots"
    by (auto simp: layer_ok_def)
  define xs where "xs = map2 vadd hidden (stash_rows stash slots)"
  have lx: "length xs = length hidden" using Cons.prems(6) by (simp add: xs_def stash_rows_def)
  note f = attn_forward_block[OF ok Cons.prems(3-6), of kv rids, unfolded if_P[OF rd] xs_def[symmetric]]
  show ?case
  proof (cases "ref_layer env (sl_layer l) positions xs kv bts ctx rids")
    case (Inl e)
    then show ?thesis unfolding kvs(1) run_stash.simps run_residual.simps f xs_def[symmetric] by simp
  next
    case (Inr r)
    obtain kv' res outs ws ids where r: "r = (kv', res, outs, ws, ids)" by (cases r)
    have lens: "length res = length hidden" "length outs = length hidden"
      using ref_layer_lengths[OF Inr[unfolded r]] Cons.prems(4) lx by simp_all
    let ?s = "sl_others l (put_rows stash slots res)" and ?h = "sl_experts l outs ws ids"
    have so: "slots_ok ?s slots" "stash_rows ?s slots = res"
      using Cons.prems(5,6) lens ot stash_copy_Ok(2)[of stash slots res] stash_rows_put[OF Cons.prems(5), of res] by (simp_all add: slots_ok_def slots_in_def)
    have "run_stash env positions bts ctx rids slots ls kvs' ?s ?h = run_residual env positions bts ctx rids ls kvs' (map2 vadd ?h res)"
      using Cons.IH[of kvs' ?h ?s] Cons.prems lens ex so kvs(2) by simp
    then show ?thesis unfolding kvs(1) run_stash.simps run_residual.simps f xs_def[symmetric] Inr r by simp
  qed
qed

text \<open>
  C12: A step of a batch through the layers of a worker, with the residual of every token in its stash row, computes the residual
  network: the first layer starts a fresh stream from its input, every later layer and the sampler complete the stream from the stash, and the
  caches and the completed rows, or the error of the first failing router, are those of a network that adds attention and experts to one stream. What the worker
  does to the stash rows of other requests in between does not matter.
\<close>

theorem stash_is_residual_stream:
  assumes "layer_ok env slots l" and "\<not> al_stash_read (sl_layer l)"
    and "\<forall>l \<in> set ls. layer_ok env slots l \<and> al_stash_read (sl_layer l)" and "length kvs = Suc (length ls)"
    and "attn_batch_ok env (length hidden) bts ctx" and "length positions = length hidden"
    and "slots_ok stash slots" and "length slots = length hidden"
  shows "run_stash env positions bts ctx rids slots (l # ls) kvs stash hidden = run_residual env positions bts ctx rids (l # ls) kvs hidden"
proof -
  obtain kv kvs' where kvs: "kvs = kv # kvs'" "length kvs' = length ls" using assms(4) by (cases kvs) auto
  have ok: "env_ok env (sl_layer l)" "norm_contract (sl_layer l)"
    and ex: "\<And>outs ws ids. length (sl_experts l outs ws ids) = length outs"
    and ot: "\<And>s. length (sl_others l s) = length s" "\<And>s. stash_rows (sl_others l s) slots = stash_rows s slots"
    using assms(1) by (auto simp: layer_ok_def)
  note f = attn_forward_block[OF ok assms(5-8), of kv rids, unfolded if_not_P[OF assms(2)]]
  show ?thesis
  proof (cases "ref_layer env (sl_layer l) positions hidden kv bts ctx rids")
    case (Inl e)
    then show ?thesis unfolding kvs(1) run_stash.simps run_residual.simps f by simp
  next
    case (Inr r)
    obtain kv' res outs ws ids where r: "r = (kv', res, outs, ws, ids)" by (cases r)
    have lens: "length res = length hidden" "length outs = length hidden"
      using ref_layer_lengths[OF Inr[unfolded r] assms(6)] by simp_all
    let ?s = "sl_others l (put_rows stash slots res)" and ?h = "sl_experts l outs ws ids"
    have so: "slots_ok ?s slots" "stash_rows ?s slots = res"
      using assms(7,8) lens ot stash_copy_Ok(2)[of stash slots res] stash_rows_put[OF assms(7), of res] by (simp_all add: slots_ok_def slots_in_def)
    have "run_stash env positions bts ctx rids slots ls kvs' ?s ?h = run_residual env positions bts ctx rids ls kvs' (map2 vadd ?h res)"
      using run_stash_reads[OF assms(3) kvs(2), of ?h bts ctx positions ?s] assms lens ex so by simp
    then show ?thesis unfolding kvs(1) run_stash.simps run_residual.simps f Inr r by simp
  qed
qed

section \<open>What is routed\<close>

definition topk_contract :: "(vec \<Rightarrow> nat \<Rightarrow> nat \<Rightarrow> nat list) \<Rightarrow> bool" where
  "topk_contract topk \<longleftrightarrow> (\<forall>x n k. k \<le> n \<longrightarrow> length (topk x n k) = k \<and> distinct (topk x n k) \<and> (\<forall>e \<in> set (topk x n k). e < n)
     \<and> (\<forall>e \<in> set (topk x n k). \<forall>f < n. f \<notin> set (topk x n k) \<longrightarrow> x f \<le> x e))"

text \<open>\<open>fused_topk\<close> with renormalised weights.\<close>

definition fused_contract :: "(vec \<Rightarrow> nat \<Rightarrow> nat \<Rightarrow> (real \<times> nat) list) \<Rightarrow> bool" where
  "fused_contract fused \<longleftrightarrow> (\<forall>x n k. k \<le> n \<longrightarrow> length (fused x n k) = k \<and> distinct (map snd (fused x n k)) \<and> (\<forall>(w, e) \<in> set (fused x n k). 0 \<le> w \<and> e < n)
     \<and> (0 < k \<longrightarrow> sum_list (map fst (fused x n k)) = 1))"

lemma softmax_length [simp]: "length (softmax xs) = length xs"
  by (simp add: softmax_def Let_def)

lemma exp_sum_pos: "xs \<noteq> [] \<Longrightarrow> 0 < sum_list (map exp (xs :: real list))"
  by (induction xs rule: list_nonempty_induct) (simp_all add: add_pos_pos)

lemma softmax_nonneg: "w \<in> set (softmax xs) \<Longrightarrow> 0 \<le> w"
proof -
  assume w: "w \<in> set (softmax xs)"
  then have "xs \<noteq> []" by (auto simp: softmax_def Let_def)
  from exp_sum_pos[OF this] w show ?thesis by (auto simp: softmax_def Let_def)
qed

lemma softmax_sum_one: "xs \<noteq> [] \<Longrightarrow> sum_list (softmax xs) = 1"
proof -
  assume ne: "xs \<noteq> []"
  have "sum_list (map (\<lambda>x. exp x / t) xs) = sum_list (map exp xs) / t" for t :: real
    by (induction xs) (simp_all add: add_divide_distrib)
  then show ?thesis using exp_sum_pos[OF ne] by (simp add: softmax_def Let_def)
qed

definition routed_ok :: "nat \<Rightarrow> nat \<Rightarrow> (real \<times> nat) list \<Rightarrow> bool" where
  "routed_ok n k row \<longleftrightarrow> length row = k \<and> distinct (map snd row) \<and> (\<forall>(w, e) \<in> set row. 0 \<le> w \<and> e < n) \<and> sum_list (map fst row) = 1"

lemma route_row_ok:
  assumes "topk_contract (ae_topk env)" and "fused_contract (ae_fused_topk env)"
    and "al_weighted la = None" and "al_top_k la \<le> al_num_experts la" and "0 < al_top_k la"
  shows "\<exists>row. route_row env la r y = Ok row \<and> routed_ok (al_num_experts la) (al_top_k la) row"
proof -
  define logits where "logits = (if al_router_mode la = ''random'' then ae_rand env r else al_gate la y)"
  show ?thesis
  proof (cases "al_router_norm la = ''topk_softmax''")
    case True
    let ?ids = "ae_topk env logits (al_num_experts la) (al_top_k la)"
    have t: "length ?ids = al_top_k la" "distinct ?ids" "\<forall>e \<in> set ?ids. e < al_num_experts la"
      using assms(1,4) by (simp_all add: topk_contract_def)
    then have "?ids \<noteq> []" using assms(5) by auto
    then have "routed_ok (al_num_experts la) (al_top_k la) (zip (softmax (map logits ?ids)) ?ids)"
      using t softmax_sum_one[of "map logits ?ids"] softmax_nonneg[of _ "map logits ?ids"]
      by (auto simp: routed_ok_def dest: set_zip_leftD set_zip_rightD)
    then show ?thesis using True assms(3,4) by (auto simp: route_row_def Let_def logits_def)
  next
    case False
    have "routed_ok (al_num_experts la) (al_top_k la) (ae_fused_topk env logits (al_num_experts la) (al_top_k la))"
      using assms(2,4,5) by (simp add: fused_contract_def routed_ok_def)
    then show ?thesis using False assms(3) by (auto simp: route_row_def Let_def logits_def)
  qed
qed


section \<open>Instances\<close>

definition ref_topk :: "vec \<Rightarrow> nat \<Rightarrow> nat \<Rightarrow> nat list" where
  "ref_topk x n k = take k (sort_key (\<lambda>e. - x e) [0..<n])"

definition ref_fused :: "vec \<Rightarrow> nat \<Rightarrow> nat \<Rightarrow> (real \<times> nat) list" where
  "ref_fused x n k = zip (softmax (map x (ref_topk x n k))) (ref_topk x n k)"

lemma ref_topk_contract: "topk_contract ref_topk"
  unfolding topk_contract_def
proof (intro allI impI)
  fix x :: vec and n k :: nat assume k: "k \<le> n"
  let ?s = "sort_key (\<lambda>e. - x e) [0..<n]"
  have s: "set ?s = {0..<n}" "distinct ?s" "length ?s = n" by simp_all
  have st: "sorted (map (\<lambda>e. - x e) (take k ?s @ drop k ?s))" by simp
  have "x f \<le> x e" if "e \<in> set (take k ?s)" "f < n" "f \<notin> set (take k ?s)" for e f
  proof -
    have "f \<in> set (take k ?s) \<union> set (drop k ?s)" using that(2) s(1) by (metis append_take_drop_id atLeast0LessThan lessThan_iff set_append)
    then have "f \<in> set (drop k ?s)" using that(3) by simp
    then have "- x e \<le> - x f" using st that(1) by (auto simp: sorted_append simp del: append_take_drop_id)
    then show ?thesis by simp
  qed
  then show "length (ref_topk x n k) = k \<and> distinct (ref_topk x n k) \<and> (\<forall>e \<in> set (ref_topk x n k). e < n)
     \<and> (\<forall>e \<in> set (ref_topk x n k). \<forall>f < n. f \<notin> set (ref_topk x n k) \<longrightarrow> x f \<le> x e)"
    unfolding ref_topk_def using k s set_take_subset[of k ?s] by auto
qed

lemma ref_fused_contract: "fused_contract ref_fused"
  unfolding fused_contract_def
proof (intro allI impI)
  fix x :: vec and n k :: nat assume k: "k \<le> n"
  have t: "length (ref_topk x n k) = k" "distinct (ref_topk x n k)" "\<forall>e \<in> set (ref_topk x n k). e < n"
    using ref_topk_contract k by (simp_all add: topk_contract_def)
  show "length (ref_fused x n k) = k \<and> distinct (map snd (ref_fused x n k)) \<and> (\<forall>(w, e) \<in> set (ref_fused x n k). 0 \<le> w \<and> e < n)
     \<and> (0 < k \<longrightarrow> sum_list (map fst (ref_fused x n k)) = 1)"
    using t softmax_nonneg softmax_sum_one[of "map x (ref_topk x n k)"]
    by (cases "ref_topk x n k = []") (auto simp: ref_fused_def dest: set_zip_leftD set_zip_rightD)
qed

text \<open>Two layers of width two with a window of six tokens and sinks, one token at position nine.\<close>

definition demo_env :: attn_env where
  "demo_env = \<lparr> ae_npow2 = npow2_from 1, ae_flash = demo_flash, ae_page = 4, ae_topk = ref_topk, ae_fused_topk = ref_fused,
     ae_rand = (\<lambda>_ _. 0), ae_samples = (\<lambda>_. []) \<rparr>"

definition demo_layer :: "bool \<Rightarrow> attn_layer" where
  "demo_layer rd = \<lparr> al_layer_id = (if rd then 1 else 0), al_head_dim = 2,
     al_dims = \<lparr> ad_num_heads = 2, ad_num_kv_heads = 1, ad_q_size = 4, ad_kv_size = 2, ad_scaling = 1 / sqrt 2 \<rparr>,
     al_num_experts = 4, al_top_k = 2, al_sliding_window = Some 6, al_sinks = Some [1, 2], al_router_norm = ''topk_softmax'', al_router_mode = ''model'',
     al_stash_read = rd, al_pre_norm = (\<lambda>x. x), al_pre_norm_add = (\<lambda>x y. (vadd x y, vadd x y)), al_qkv = (\<lambda>x i. x 0 + real i),
     al_rope = (\<lambda>p q k. (q, k)), al_o_proj = (\<lambda>x. x), al_post_norm = (\<lambda>y x. (vadd y x, vadd y x)), al_shared = Some [\<lambda>x. x],
     al_gate = (\<lambda>x e. x e), al_profile = None, al_weighted = None \<rparr>"

definition demo_stream :: "bool \<Rightarrow> stream_layer" where
  "demo_stream rd = \<lparr> sl_layer = demo_layer rd, sl_experts = (\<lambda>outs ws ids. outs), sl_others = (\<lambda>s. s[1 := (\<lambda>_. 7)]) \<rparr>"

lemma demo_env_ok: "env_ok demo_env (demo_layer rd)"
proof -
  have "sw_checks (npow2_from 1) 2 4 6 = Ok ()" by code_simp
  then show ?thesis using npow2_from_contract demo_flash_contract by (simp add: env_ok_def demo_env_def demo_layer_def numeral_2_eq_2)
qed

lemma demo_rows_ok: "attn_batch_ok demo_env 1 [[7, 2, 5]] [9]"
  by (simp add: attn_batch_ok_def demo_env_def row_apart_def)

lemma stash_rows_update: "length slots = 1 \<Longrightarrow> slots ! 0 = 0 \<Longrightarrow> stash_rows (s[1 := v]) slots = stash_rows s slots"
  by (cases slots) (simp_all add: stash_rows_def)

lemma demo_layer_ok: "layer_ok demo_env [0] (demo_stream rd)"
  using demo_env_ok[of rd] stash_rows_update[of "[0]"]
  by (simp add: layer_ok_def demo_stream_def norm_contract_def demo_layer_def)

theorem decode_attention_with_sinks_witness:
  "paged_decode_attention demo_env (demo_layer True) [\<lambda>_. 1] [\<lambda>_. 2] [\<lambda>_. 3] (\<lambda>s h d. 0, \<lambda>s h d. 0) [[7, 2, 5]] [9]
    = Ok (ref_attention demo_env (demo_layer True) [\<lambda>_. 1] [\<lambda>_. 2] [\<lambda>_. 3] (\<lambda>s h d. 0, \<lambda>s h d. 0) [[7, 2, 5]] [9])"
  by (rule decode_attention_with_sinks[OF demo_env_ok]) (use demo_rows_ok in simp_all)

theorem stash_is_residual_stream_witness:
  "run_stash demo_env [9] [[7, 2, 5]] [9] None [0] [demo_stream False, demo_stream True] [(\<lambda>s h d. 0, \<lambda>s h d. 0), (\<lambda>s h d. 0, \<lambda>s h d. 0)]
      [\<lambda>_. 5, \<lambda>_. 6] [\<lambda>_. 1]
    = run_residual demo_env [9] [[7, 2, 5]] [9] None [demo_stream False, demo_stream True] [(\<lambda>s h d. 0, \<lambda>s h d. 0), (\<lambda>s h d. 0, \<lambda>s h d. 0)] [\<lambda>_. 1]"
  by (rule stash_is_residual_stream[OF demo_layer_ok])
     (use demo_layer_ok[of True] demo_rows_ok in \<open>simp_all add: slots_ok_def slots_in_def demo_stream_def demo_layer_def\<close>)


end
