(* ===== verification/Padding.thy ===== *)
theory Padding
  imports Attention
begin

text \<open>
  A batch padded with rows that write to a scratch block: the forward pass gives the real rows what it gives them without the padding, and the caches
  and the stash differ only in the scratch block and the scratch row. CUDA graphs rely on this, since they run batches of fixed sizes.
\<close>

section \<open>Rows of a padded batch\<close>

definition padded_rows :: "int \<Rightarrow> nat \<Rightarrow> nat \<Rightarrow> int list list \<Rightarrow> int list \<Rightarrow> int list list \<Rightarrow> int list \<Rightarrow> bool" where
  "padded_rows scratch n b bts ctx T C \<longleftrightarrow> n \<le> b \<and> length T = b \<and> length C = b \<and> take n C = ctx
     \<and> (\<forall>r < n. \<exists>rest. T ! r = bts ! r @ rest) \<and> (\<forall>r < b. n \<le> r \<longrightarrow> C ! r = 0 \<and> T ! r \<noteq> [] \<and> hd (T ! r) = scratch)"

lemma paged_slot_prefix: "0 < P \<Longrightarrow> 0 \<le> i \<Longrightarrow> i \<le> c \<Longrightarrow> c div P < int (length bt) \<Longrightarrow> paged_slot P (bt @ rest) i = paged_slot P bt i"
  using zdiv_mono1[of i c P] by (simp add: paged_slot_def nth_append nat_less_iff pos_imp_zdiv_nonneg_iff)

lemma paged_slot_block: "0 < P \<Longrightarrow> paged_slot P bt i div P = bt ! nat (i div P)"
  by (simp add: paged_slot_def)

definition padding_ok :: "attn_env \<Rightarrow> int \<Rightarrow> nat \<Rightarrow> nat \<Rightarrow> int list list \<Rightarrow> int list \<Rightarrow> int list list \<Rightarrow> int list \<Rightarrow> bool" where
  "padding_ok env scratch n b bts ctx T C \<longleftrightarrow>
     attn_batch_ok env n bts ctx \<and> padded_rows scratch n b bts ctx T C \<and> 0 < ae_page env \<and> (\<forall>r < n. scratch \<notin> set (bts ! r))"

lemma padding_real:
  assumes "padding_ok env scratch n b bts ctx T C" and "r < n"
  shows "C ! r = ctx ! r" and "0 \<le> ctx ! r" and "ctx ! r div ae_page env < int (length (bts ! r))" and "length (bts ! r) \<le> length (T ! r)"
    and "\<And>i. 0 \<le> i \<Longrightarrow> i \<le> ctx ! r \<Longrightarrow> paged_slot (ae_page env) (T ! r) i = paged_slot (ae_page env) (bts ! r) i"
    and "\<And>i. 0 \<le> i \<Longrightarrow> i \<le> ctx ! r \<Longrightarrow> paged_slot (ae_page env) (bts ! r) i div ae_page env \<noteq> scratch"
proof -
  have p: "0 < ae_page env" and rows: "attn_batch_ok env n bts ctx" and away: "scratch \<notin> set (bts ! r)"
    and tk: "take n C = ctx" using assms by (auto simp: padding_ok_def padded_rows_def)
  show "C ! r = ctx ! r" using tk assms(2) by auto
  show c: "0 \<le> ctx ! r" "ctx ! r div ae_page env < int (length (bts ! r))" using rows assms(2) by (auto simp: attn_batch_ok_def)
  obtain rest where t: "T ! r = bts ! r @ rest" using assms by (auto simp: padding_ok_def padded_rows_def)
  then show "length (bts ! r) \<le> length (T ! r)" by simp
  show "paged_slot (ae_page env) (T ! r) i = paged_slot (ae_page env) (bts ! r) i" if "0 \<le> i" "i \<le> ctx ! r" for i
    using paged_slot_prefix[OF p that c(2)] t by simp
  show "paged_slot (ae_page env) (bts ! r) i div ae_page env \<noteq> scratch" if "0 \<le> i" "i \<le> ctx ! r" for i
  proof -
    have "nat (i div ae_page env) < length (bts ! r)" using zdiv_mono1[OF that(2) p] that(1) c(2) p by (simp add: nat_less_iff pos_imp_zdiv_nonneg_iff)
    from nth_mem[OF this] show ?thesis using away paged_slot_block[OF p] by metis
  qed
qed

lemma padding_scratch:
  assumes "padding_ok env scratch n b bts ctx T C" and "n \<le> r" and "r < b"
  shows "C ! r = 0" and "T ! r \<noteq> []" and "paged_slot (ae_page env) (T ! r) (C ! r) div ae_page env = scratch"
proof -
  have p: "0 < ae_page env" using assms(1) by (simp add: padding_ok_def)
  show c: "C ! r = 0" and t: "T ! r \<noteq> []" using assms by (auto simp: padding_ok_def padded_rows_def)
  have "hd (T ! r) = scratch" using assms by (auto simp: padding_ok_def padded_rows_def)
  then show "paged_slot (ae_page env) (T ! r) (C ! r) div ae_page env = scratch" using paged_slot_block[OF p] c t by (simp add: hd_conv_nth)
qed

lemma padding_covered:
  assumes "padding_ok env scratch n b bts ctx T C"
  shows "covered env b T C"
  unfolding covered_def
proof (intro conjI allI impI)
  show "length T = b" "length C = b" using assms by (auto simp: padding_ok_def padded_rows_def)
  fix r assume r: "r < b"
  show "0 \<le> C ! r" "C ! r div ae_page env < int (length (T ! r))"
    using padding_real(1-4)[OF assms, of r] padding_scratch[OF assms _ r] by (cases "r < n"; simp)+
qed

lemma padding_apart:
  assumes "padding_ok env scratch n b bts ctx T C" and "r < n"
  shows "row_apart (ae_page env) C T r"
  unfolding row_apart_def
proof (intro allI impI)
  let ?P = "ae_page env"
  fix r' assume r': "r' < length C" "r' \<noteq> r"
  have lc: "length C = b" "length ctx = n" using assms by (auto simp: padding_ok_def padded_rows_def attn_batch_ok_def)
  note pr = padding_real[OF assms]
  have same: "set (map (paged_slot ?P (T ! r)) [0..C ! r]) = set (map (paged_slot ?P (bts ! r)) [0..ctx ! r])"
    using pr(1,5) by (auto simp: image_def)
  show "paged_slot ?P (T ! r') (C ! r') \<notin> set (map (paged_slot ?P (T ! r)) [0..C ! r])"
  proof (cases "r' < n")
    case True
    note pr' = padding_real[OF assms(1) True]
    have "row_apart ?P ctx bts r" using assms by (auto simp: padding_ok_def attn_batch_ok_def)
    then show ?thesis using True lc r' pr'(1,2,5) unfolding same row_apart_def by auto
  next
    case False
    then have eq: "paged_slot ?P (T ! r') (C ! r') div ?P = scratch" using padding_scratch(3)[OF assms(1)] r' lc by simp
    show ?thesis unfolding same
    proof
      assume "paged_slot ?P (T ! r') (C ! r') \<in> set (map (paged_slot ?P (bts ! r)) [0..ctx ! r])"
      then obtain i where i: "0 \<le> i" "i \<le> ctx ! r" "paged_slot ?P (T ! r') (C ! r') = paged_slot ?P (bts ! r) i" by auto
      show False using pr(6)[OF i(1,2)] eq unfolding i(3) by (rule notE)
    qed
  qed
qed

text \<open>Outside the scratch block the caches get the same entries.\<close>

lemma padding_caches:
  assumes "padding_ok env scratch n b bts ctx T C" and "length K = b" and "take n K = k"
    and "appended kc k (row_slots (ae_page env) ctx bts) kf" and "appended kc K (row_slots (ae_page env) C T) Kf" and "s div ae_page env \<noteq> scratch"
  shows "Kf s = kf s"
proof -
  let ?P = "ae_page env"
  have l: "length T = b" "length C = b" "length bts = n" "length ctx = n" "n \<le> b" using assms(1) by (auto simp: padding_ok_def padded_rows_def attn_batch_ok_def)
  have real: "row_slots ?P C T ! r = row_slots ?P ctx bts ! r" if "r < n" for r using padding_real(1,2,5)[OF assms(1) that] that l by simp
  have only: "r < n" if "r < b" "row_slots ?P C T ! r = s" for r
    using padding_scratch(3)[OF assms(1) _ that(1)] that l assms(6) by (cases "r < n") auto
  show ?thesis
  proof (cases "s \<in> set (row_slots ?P ctx bts)")
    case True
    then obtain r where r: "r < n" "row_slots ?P ctx bts ! r = s" using l by (auto simp: in_set_conv_nth)
    have "row_apart ?P ctx bts r" "0 \<le> ctx ! r" using assms(1) r(1) by (auto simp: padding_ok_def attn_batch_ok_def)
    then have "kf s = k ! r" using appended_own[OF assms(4), of r] r l by simp
    moreover have "Kf s = K ! r"
      using appended_own[OF assms(5) padding_apart[OF assms(1) r(1)]] real[OF r(1)] r l padding_real(1,2)[OF assms(1) r(1)] by simp
    moreover have "K ! r = k ! r" using assms(3) r(1) by auto
    ultimately show ?thesis by simp
  next
    case False
    have "s \<notin> set (row_slots ?P C T)"
    proof
      assume "s \<in> set (row_slots ?P C T)"
      then obtain r where "r < b" "row_slots ?P C T ! r = s" using l by (auto simp: in_set_conv_nth)
      moreover from only[OF this] have "r < n" .
      ultimately show False using False real[of r] l nth_mem[of r "row_slots ?P ctx bts"] by simp
    qed
    then show ?thesis using False assms(4,5) by (simp add: appended_def)
  qed
qed

text \<open>The attention of a row depends on the caches at its slots only.\<close>

lemma sink_row_cong:
  assumes "\<And>i. 0 \<le> i \<Longrightarrow> i \<le> c \<Longrightarrow> paged_slot (ae_page env) bt i = paged_slot (ae_page env) bt' i"
    and "\<And>i. 0 \<le> i \<Longrightarrow> i \<le> c \<Longrightarrow> kf (paged_slot (ae_page env) bt' i) = kf' (paged_slot (ae_page env) bt' i)"
    and "\<And>i. 0 \<le> i \<Longrightarrow> i \<le> c \<Longrightarrow> vf (paged_slot (ae_page env) bt' i) = vf' (paged_slot (ae_page env) bt' i)"
  shows "sink_row_of env la q kf vf bt c = sink_row_of env la q kf' vf' bt' c"
proof -
  have w: "0 \<le> window_start la c" by (auto simp: window_start_def split: option.splits)
  let ?sl = "map (paged_slot (ae_page env) bt') [window_start la c..c]"
  have sl: "map (paged_slot (ae_page env) bt) [window_start la c..c] = ?sl" using assms(1) w by auto
  have k: "kf s = kf' s" and v: "vf s = vf' s" if "s \<in> set ?sl" for s using that assms(2,3) w by auto
  have "softmax_sum D scale y kf g ?sl = softmax_sum D scale y kf' g ?sl" for D scale y g
    unfolding softmax_sum_def by (rule arg_cong[of _ _ sum_list], rule map_cong[OF refl]) (simp only: k)
  moreover have "softmax_acc D scale y kf vf g ?sl = softmax_acc D scale y kf' vf' g ?sl" for D scale y g
    unfolding softmax_acc_def by (rule ext, rule arg_cong[of _ _ sum_list], rule map_cong[OF refl]) (simp only: k v)
  ultimately show ?thesis unfolding sink_row_of_def sl sink_attention_def by simp
qed

lemma qk_rows_take: "take n (qk_rows la P xs) = qk_rows la (take n P) (take n xs)"
  and qkv_rows_take: "take n (qkv_rows la xs) = qkv_rows la (take n xs)"
  by (simp_all add: qk_rows_def qkv_rows_def take_map take_zip)

lemma padding_attention:
  assumes "env_ok env la" and "padding_ok env scratch n b bts ctx T C"
    and "length XS = b" and "length PS = b" and "take n XS = xs" and "take n PS = positions"
  shows "\<exists>kv1 att1 kv2 att2. attention_of env la positions xs kv bts ctx = Ok (kv1, att1) \<and> attention_of env la PS XS kv T C = Ok (kv2, att2)
    \<and> length att1 = n \<and> length att2 = b \<and> take n att2 = att1
    \<and> (\<forall>s. s div ae_page env \<noteq> scratch \<longrightarrow> fst kv2 s = fst kv1 s \<and> snd kv2 s = snd kv1 s)"
proof -
  let ?q = "map fst (qk_rows la positions xs)" and ?k = "map snd (qk_rows la positions xs)" and ?v = "map (\<lambda>(q, k, v). v) (qkv_rows la xs)"
  let ?Q = "map fst (qk_rows la PS XS)" and ?K = "map snd (qk_rows la PS XS)" and ?V = "map (\<lambda>(q, k, v). v) (qkv_rows la XS)"
  let ?h = "map (heads (al_head_dim la))"
  have nb: "n \<le> b" and rows: "attn_batch_ok env n bts ctx" using assms(2) by (auto simp: padding_ok_def padded_rows_def)
  have l: "length ?q = n" "length ?k = n" "length ?v = n" "length ?Q = b" "length ?K = b" "length ?V = b"
    using assms(3-6) nb by (auto simp: qk_rows_def qkv_rows_def)
  have tk: "take n ?Q = ?q" "take n (?h ?K) = ?h ?k" "take n (?h ?V) = ?h ?v"
    using assms(5,6) by (simp_all add: take_map qk_rows_take qkv_rows_take)
  have cov: "covered env n bts ctx" using rows by (simp add: covered_def attn_batch_ok_def)
  obtain kf vf att where r1: "paged_decode_attention env la ?q ?k ?v kv bts ctx = Ok ((kf, vf), att)"
    "appended (fst kv) (?h ?k) (row_slots (ae_page env) ctx bts) kf" "appended (snd kv) (?h ?v) (row_slots (ae_page env) ctx bts) vf" "length att = n"
    "\<forall>r < n. row_apart (ae_page env) ctx bts r \<longrightarrow> att ! r = sink_row_of env la (?q ! r) kf vf (bts ! r) (ctx ! r)"
    using decode_rows_apart[OF assms(1), of ?q bts ctx ?k ?v kv] cov l by auto
  obtain Kf Vf Att where r2: "paged_decode_attention env la ?Q ?K ?V kv T C = Ok ((Kf, Vf), Att)"
    "appended (fst kv) (?h ?K) (row_slots (ae_page env) C T) Kf" "appended (snd kv) (?h ?V) (row_slots (ae_page env) C T) Vf" "length Att = b"
    "\<forall>r < b. row_apart (ae_page env) C T r \<longrightarrow> Att ! r = sink_row_of env la (?Q ! r) Kf Vf (T ! r) (C ! r)"
    using decode_rows_apart[OF assms(1), of ?Q T C ?K ?V kv] padding_covered[OF assms(2)] l by auto
  have K: "Kf s = kf s" if "s div ae_page env \<noteq> scratch" for s
    by (rule padding_caches[OF assms(2) _ tk(2) r1(2) r2(2) that]) (use l in simp)
  have V: "Vf s = vf s" if "s div ae_page env \<noteq> scratch" for s
    by (rule padding_caches[OF assms(2) _ tk(3) r1(3) r2(3) that]) (use l in simp)
  have "Att ! r = att ! r" if r: "r < n" for r
  proof -
    note pr = padding_real[OF assms(2) r]
    have "Att ! r = sink_row_of env la (?Q ! r) Kf Vf (T ! r) (C ! r)" using r2(5) padding_apart[OF assms(2) r] r nb by simp
    also have "\<dots> = sink_row_of env la (?q ! r) Kf Vf (T ! r) (ctx ! r)" using pr(1) r unfolding tk(1)[symmetric] by simp
    also have "\<dots> = sink_row_of env la (?q ! r) kf vf (bts ! r) (ctx ! r)"
      using pr(5,6) K V by (intro sink_row_cong) auto
    also have "\<dots> = att ! r" using r1(5) rows r by (simp add: attn_batch_ok_def)
    finally show ?thesis .
  qed
  then have "take n Att = att" using r1(4) r2(4) nb by (intro nth_equalityI) auto
  then show ?thesis
    unfolding attention_of_def
    by (intro exI[of _ "(kf, vf)"] exI[of _ att] exI[of _ "(Kf, Vf)"] exI[of _ Att]) (simp add: r1(1,4) r2(1,4) K V)
qed

section \<open>The forward pass on a padded batch\<close>

text \<open>A router that works row by row and cannot fail.\<close>

definition routes_rows :: "attn_layer \<Rightarrow> bool" where
  "routes_rows la \<longleftrightarrow> al_profile la = None \<and> al_top_k la \<le> al_num_experts la"

lemma route_row_total: "routes_rows la \<Longrightarrow> \<exists>row. route_row env la r y = Ok row"
  by (auto simp: routes_rows_def route_row_def Let_def split: option.splits)

lemma mapM_total: "(\<And>x. x \<in> set xs \<Longrightarrow> \<exists>y. f x = Ok y) \<Longrightarrow> \<exists>ys. mapM f xs = Ok ys"
proof (induction xs)
  case (Cons x xs)
  then obtain y ys where "f x = Ok y" "mapM f xs = Ok ys" by (meson list.set_intros)
  then show ?case by simp
qed simp

lemma mapM_take: "mapM f xs = Ok ys \<Longrightarrow> mapM f (take n xs) = Ok (take n ys)"
  by (simp add: mapM_eq_Ok list_all2_takeI)

lemma take_enumerate: "take n (enumerate k xs) = enumerate k (take n xs)"
  by (simp add: enumerate_eq_zip take_zip min_def)

lemma route_rows_padded:
  assumes "routes_rows la" and "n \<le> length ys"
  shows "\<exists>ws ids. route_rows env la P rids ys = Ok (ws, ids) \<and> length ws = length ys \<and> length ids = length ys
    \<and> route_rows env la p rids' (take n ys) = Ok (take n ws, take n ids)"
proof -
  obtain rows where r: "mapM (\<lambda>(r, y). route_row env la r y) (enumerate 0 ys) = Ok rows"
    using mapM_total[of "enumerate 0 ys" "\<lambda>(r, y). route_row env la r y"] route_row_total[OF assms(1)] by auto
  show ?thesis
    using assms(1) r mapM_length[OF r] mapM_take[OF r, of n] by (auto simp: route_rows_def routes_rows_def take_enumerate take_map)
qed

lemma stream_in_take: "take n (stream_in la H stash S) = stream_in la (take n H) stash (take n S)"
  by (simp add: stream_in_def stash_rows_def take_map take_zip)

lemma out_rows_take: "take n (out_rows la A X) = out_rows la (take n A) (take n X)"
  and res_rows_take: "take n (res_rows la A X) = res_rows la (take n A) (take n X)"
  by (simp_all add: out_rows_def res_rows_def take_map take_zip)

text \<open>Padded rows store their residual in the scratch row.\<close>

lemma put_rows_padded:
  assumes "length R = length S" and "\<forall>i \<in> set (drop n S). nat i \<noteq> j"
  shows "put_rows stash S R ! j = put_rows stash (take n S) (take n R) ! j"
proof -
  have z: "zip S R = zip (take n S) (take n R) @ zip (drop n S) (drop n R)"
    by (simp only: take_zip[symmetric] drop_zip[symmetric] append_take_drop_id)
  have "put_rows stash S R = put_rows (put_rows stash (take n S) (take n R)) (drop n S) (drop n R)"
    unfolding put_rows_def by (subst z) simp
  then show ?thesis using put_rows_other[OF assms(2)] by simp
qed

definition same_but_scratch :: "int \<Rightarrow> int \<Rightarrow> cache \<times> cache \<Rightarrow> cache \<times> cache \<Rightarrow> bool" where
  "same_but_scratch page scratch kv kv' \<longleftrightarrow> (\<forall>s. s div page \<noteq> scratch \<longrightarrow> fst kv' s = fst kv s \<and> snd kv' s = snd kv s)"

lemma attn_forward_padded:
  assumes "env_ok env la" and "routes_rows la" and "padding_ok env scratch n b bts ctx T C"
    and "length H = b" and "length PS = b" and "length S = b" and "slots_in stash S" and "\<forall>i \<in> set (drop n S). i = row"
  shows "\<exists>s1 kv1 s2 kv2 Y W I.
    attn_forward env la (Some stash) (take n PS) (take n H) kv bts ctx None rids (Some (take n S)) = Ok (Some s1, kv1, take n Y, take n W, take n I)
    \<and> attn_forward env la (Some stash) PS H kv T C None rids' (Some S) = Ok (Some s2, kv2, Y, W, I)
    \<and> same_but_scratch (ae_page env) scratch kv1 kv2 \<and> length s1 = length stash \<and> length s2 = length stash
    \<and> (\<forall>j. j \<noteq> nat row \<longrightarrow> s2 ! j = s1 ! j) \<and> length Y = b \<and> length W = b \<and> length I = b"
proof -
  define XS where "XS = stream_in la H stash S"
  have nb: "n \<le> b" using assms(3) by (auto simp: padding_ok_def padded_rows_def)
  have lx: "length XS = b" using assms(4,6) by (simp add: XS_def stream_in_length)
  have xs: "take n XS = stream_in la (take n H) stash (take n S)" by (simp add: XS_def stream_in_take)
  obtain kv1 att1 kv2 att2 where a: "attention_of env la (take n PS) (take n XS) kv bts ctx = Ok (kv1, att1)"
    "attention_of env la PS XS kv T C = Ok (kv2, att2)" "length att1 = n" "length att2 = b" "take n att2 = att1"
    and kv: "same_but_scratch (ae_page env) scratch kv1 kv2"
    using padding_attention[OF assms(1,3) lx assms(5) refl refl, of kv] unfolding same_but_scratch_def by blast
  let ?O = "out_rows la att2 XS" and ?R = "res_rows la att2 XS"
  have lo: "length ?O = b" "length ?R = b" using a(4) lx by (simp_all add: out_rows_def res_rows_def)
  obtain W I where r: "route_rows env la PS rids' ?O = Ok (W, I)" "length W = b" "length I = b"
    "route_rows env la (take n PS) rids (take n ?O) = Ok (take n W, take n I)"
    using route_rows_padded[OF assms(2), of n ?O env PS rids' "take n PS" rids] nb lo by auto
  have si: "slots_in stash (take n S)" using assms(7) by (auto simp: slots_in_def dest: in_set_takeD)
  have f1: "attn_forward env la (Some stash) (take n PS) (take n H) kv bts ctx None rids (Some (take n S))
      = Ok (Some (put_rows stash (take n S) (take n ?R)), kv1, take n ?O, take n W, take n I)"
    using attn_forward_steps[OF si _ xs a(1), of rids] a(3,5) assms(4,6) nb r(4) by (simp add: out_rows_take res_rows_take)
  have f2: "attn_forward env la (Some stash) PS H kv T C None rids' (Some S) = Ok (Some (put_rows stash S ?R), kv2, ?O, W, I)"
    using attn_forward_steps[OF assms(7) _ XS_def a(2), of rids'] a(4) assms(4,6) r(1) by simp
  have "put_rows stash S ?R ! j = put_rows stash (take n S) (take n ?R) ! j" if "j \<noteq> nat row" for j
  proof (rule put_rows_padded)
    show "length ?R = length S" using assms(6) lo(2) by simp
    show "\<forall>i \<in> set (drop n S). nat i \<noteq> j" using assms(8) that by auto
  qed
  moreover have "length (put_rows stash (take n S) (take n ?R)) = length stash" "length (put_rows stash S ?R) = length stash"
    using stash_copy_Ok(2)[OF si, of "take n ?R"] stash_copy_Ok(2)[OF assms(7), of ?R] assms(6) lo by simp_all
  ultimately show ?thesis
    by (intro exI[of _ "put_rows stash (take n S) (take n ?R)"] exI[of _ kv1] exI[of _ "put_rows stash S ?R"] exI[of _ kv2] exI[of _ ?O] exI[of _ W] exI[of _ I])
       (simp add: f1 f2 kv lo r)
qed

end
