(* ===== verification/Cuda_Graph.thy ===== *)
theory Cuda_Graph
  imports Padding Model_Utils
begin

text \<open>
  The attention executor (\<^verbatim>\<open>AttnExecutor\<close> in \<^verbatim>\<open>disagmoe/executor/executor.py\<close>) and its CUDA graphs (\<^verbatim>\<open>CUDAGraphAttnExecutor\<close> in
  \<^verbatim>\<open>disagmoe/executor/cuda_graph.py\<close>), with the copy kernels they call (\<^verbatim>\<open>csrc/cuda_ops/cuda_graph.cu\<close>). Tensors are lists of their entries or rows. A
  captured graph is the call it recorded; replaying it is an argument, \<open>replay\<close>, whose contract is that the recorded call runs again on what the recorded
  tensors hold now. Contents of fresh tensors are arguments. A kernel that would write outside a tensor gives \<open>IndexError\<close>. The main result is that
  executing a decode batch through a graph, padded to the captured size, gives the outputs and state of executing it eagerly, except in the scratch rows.
\<close>

section \<open>Captured sizes\<close>

text \<open>\<open>range(a, b, s)\<close> for a positive step.\<close>

definition range_step :: "nat \<Rightarrow> nat \<Rightarrow> nat \<Rightarrow> nat list" where
  "range_step a b s = map (\<lambda>i. a + i * s) [0..<(b - a + (s - 1)) div s]"

fun graph_stages :: "nat \<Rightarrow> nat list \<Rightarrow> (nat \<times> nat \<times> nat) list \<Rightarrow> nat list" where
  "graph_stages m bsz [] = bsz"
| "graph_stages m bsz ((lo, hi, inc) # stages) =
     (if m > hi then graph_stages m (bsz @ range_step lo hi inc) stages
      else let bsz = bsz @ range_step lo m inc in if last bsz \<noteq> m then bsz @ [m] else bsz)"

definition get_graph_batch_sizes :: "nat \<Rightarrow> nat list res" where
  "get_graph_batch_sizes m =
     rbind (py_assert (m \<le> 1024)) (\<lambda>_. Ok (graph_stages m [1] [(8, 128, 32), (128, 256, 64), (256, 512, 128), (512, 1024, 256)]))"

fun get_bucket_by_num_tokens :: "nat list \<Rightarrow> nat \<Rightarrow> nat res" where
  "get_bucket_by_num_tokens [] n = Raise AssertionError"
| "get_bucket_by_num_tokens (sz # sizes) n = (if sz \<ge> n then Ok sz else get_bucket_by_num_tokens sizes n)"

section \<open>The executor\<close>

type_synonym attn_out = "vec list \<times> real list list \<times> int list list"

record attn_executor =
  ax_layer_ids :: "int list"
  ax_layer_mappings :: "int list"
  ax_operators :: "attn_layer list"
  ax_kv_cache :: "(cache \<times> cache) list"
  ax_residual_stash :: "vec list option"
  ax_num_cache_blocks :: int
  ax_max_running_reqs :: int
  ax_has_profile_gating :: bool

definition execute_eager ::
  "attn_env \<Rightarrow> attn_executor \<Rightarrow> int \<Rightarrow> int list \<Rightarrow> vec list \<Rightarrow> flash_attn_metadata \<Rightarrow> int list option \<Rightarrow> int list option \<Rightarrow> (attn_executor \<times> attn_out) res" where
  "execute_eager env ex lid positions hidden_states meta request_ids stash_slots =
     rbind (py_get (ax_layer_mappings ex) lid) (\<lambda>vid.
     rbind (py_get (ax_operators ex) vid) (\<lambda>la.
     rbind (py_get (ax_kv_cache ex) vid) (\<lambda>kv.
     rbind (attn_forward env la (ax_residual_stash ex) positions hidden_states kv (fa_block_tables meta) (context_lens_tensor meta) None request_ids stash_slots)
       (\<lambda>(stash, kv, outputs, topk_weights, topk_ids).
     rbind (py_set (ax_kv_cache ex) vid kv) (\<lambda>kvs.
     Ok (ex\<lparr>ax_kv_cache := kvs, ax_residual_stash := stash\<rparr>, (outputs, topk_weights, topk_ids)))))))"

text \<open>The blocks that fit the memory budget, with the floor divisions of the source.\<close>

definition determine_kv_cache_blocks :: "real \<Rightarrow> real \<Rightarrow> real \<Rightarrow> real \<Rightarrow> nat \<Rightarrow> nat \<Rightarrow> nat \<Rightarrow> nat \<Rightarrow> int res" where
  "determine_kv_cache_blocks init_mem free_mem total_mem utilization head_dim num_kv_heads block_size num_layers =
     (let peak = init_mem - free_mem; cache_block_size = head_dim * num_kv_heads * block_size * 2 * 2 in
      if cache_block_size = 0 \<or> num_layers = 0 then Raise ZeroDivisionError
      else Ok \<lfloor>real_of_int \<lfloor>(total_mem * utilization - peak) / real cache_block_size\<rfloor> / real num_layers\<rfloor>)"

definition init_kv_cache :: "string \<Rightarrow> int option \<Rightarrow> int res \<Rightarrow> int \<Rightarrow> attn_executor \<Rightarrow> attn_executor res" where
  "init_kv_cache cache_dtype num_gpu_blocks determined block_size ex =
     rbind (py_assert (take 3 cache_dtype \<noteq> ''fp8'')) (\<lambda>_.
     rbind (case num_gpu_blocks of None \<Rightarrow> determined | Some n \<Rightarrow> Ok n) (\<lambda>blocks.
     (let max_running = blocks * block_size div 100 + 1 in
      if max_running + 1 < 0 then Raise RuntimeError
      else Ok (ex\<lparr>ax_num_cache_blocks := blocks, ax_kv_cache := replicate (length (ax_operators ex)) (\<lambda>_ _ _. 0, \<lambda>_ _ _. 0),
            ax_max_running_reqs := max_running, ax_residual_stash := Some (replicate (nat (max_running + 1)) (\<lambda>_. 0))\<rparr>))))"

section \<open>Graphs and their buffers\<close>

text \<open>A captured graph: the layer and size it was recorded for, and the metadata whose host fields and table width were recorded.\<close>

record captured =
  cg_layer :: int
  cg_bsz :: nat
  cg_meta :: flash_attn_metadata

record attn_graphs =
  ag_sizes :: "nat list"
  ag_input :: "vec list"
  ag_positions :: "int list"
  ag_block_table :: "int list list"
  ag_slot_mapping :: "int list"
  ag_seq_lens :: "int list"
  ag_context_lens :: "int list"
  ag_seq_start_loc :: "int list"
  ag_query_start_loc :: "int list"
  ag_request_ids :: "int list"
  ag_stash_slots :: "int list"
  ag_stash_scratch_slot :: int
  ag_kv_scratch_block :: int
  ag_fused_copy :: bool
  ag_graphs :: "nat \<rightharpoonup> captured option list"
  ag_static_outputs :: "nat \<rightharpoonup> int list"
  ag_outputs :: "nat \<times> int \<Rightarrow> attn_out"

definition create_cuda_graph_buffers ::
  "bool \<Rightarrow> nat \<Rightarrow> nat \<Rightarrow> nat \<Rightarrow> (nat \<Rightarrow> vec) \<Rightarrow> (nat \<Rightarrow> int) \<Rightarrow> (nat \<times> int \<Rightarrow> attn_out) \<Rightarrow> attn_executor \<Rightarrow> attn_graphs res" where
  "create_cuda_graph_buffers enabled batch_size max_seq_len block_size junk_input junk_table junk_out ex =
     rbind (py_assert enabled) (\<lambda>_.
     if block_size = 0 then Raise ZeroDivisionError
     else let columns = max_seq_len div block_size in
     if batch_size * max_seq_len div block_size \<noteq> batch_size * columns then Raise RuntimeError
     else rbind (get_graph_batch_sizes batch_size) (\<lambda>sizes.
       Ok \<lparr> ag_sizes = sizes, ag_input = map junk_input [0..<batch_size], ag_positions = replicate batch_size 0,
            ag_block_table = map (\<lambda>r. map (\<lambda>c. junk_table (r * columns + c)) [0..<columns]) [0..<batch_size],
            ag_slot_mapping = replicate batch_size 0, ag_seq_lens = replicate batch_size 0, ag_context_lens = replicate batch_size 0,
            ag_seq_start_loc = replicate (batch_size + 1) 0, ag_query_start_loc = [0..int batch_size],
            ag_request_ids = replicate batch_size 0,
            ag_stash_slots = replicate batch_size (ax_max_running_reqs ex), ag_stash_scratch_slot = ax_max_running_reqs ex,
            ag_kv_scratch_block = ax_num_cache_blocks ex, ag_fused_copy = True,
            ag_graphs = (\<lambda>b. if b \<in> set sizes then Some (replicate (length (ax_layer_ids ex)) None) else None),
            ag_static_outputs = (\<lambda>b. if b \<in> set sizes then Some [] else None), ag_outputs = junk_out \<rparr>))"

text \<open>Views of the static buffers, cut to the tokens and table columns of \<open>meta\<close>.\<close>

definition prepare_metadata_for_capture :: "attn_graphs \<Rightarrow> flash_attn_metadata \<Rightarrow> flash_attn_metadata res" where
  "prepare_metadata_for_capture g meta =
     (let num_tokens = fa_num_prefill_tokens meta + fa_num_decode_tokens meta in
      rbind (table_columns (fa_block_tables meta)) (\<lambda>max_num_blocks.
      Ok \<lparr> num_prefills = 0, fa_num_prefill_tokens = 0, fa_num_decode_tokens = num_tokens, fa_slot_mapping = take num_tokens (ag_slot_mapping g),
           fa_seq_lens = fa_seq_lens meta, fa_seq_lens_tensor = take num_tokens (ag_seq_lens g), max_query_len = 0, max_prefill_seq_len = 0,
           max_decode_seq_len = max_decode_seq_len meta, max_decode_query_len = 1,
           fa_query_start_loc = take (num_tokens + 1) (ag_query_start_loc g), fa_seq_start_loc = take (num_tokens + 1) (ag_seq_start_loc g),
           context_lens_tensor = take num_tokens (ag_context_lens g),
           fa_block_tables = map (take max_num_blocks) (take num_tokens (ag_block_table g)),
           use_cuda_graph = use_cuda_graph meta, enable_kv_scales_calculation = enable_kv_scales_calculation meta \<rparr>))"

section \<open>Copying a batch into the buffers\<close>

text \<open>The last block of the fused kernel: entry \<open>i < n\<close> is copied, the others get the padding value.\<close>

definition pad_copy :: "'a list \<Rightarrow> nat \<Rightarrow> 'a \<Rightarrow> nat \<Rightarrow> 'a list \<Rightarrow> 'a list res" where
  "pad_copy src n pad bsz dst =
     foldM (\<lambda>dst i. rbind (if i < n then vec_get src (int i) else Ok pad) (vec_set dst (int i))) dst [0..<bsz]"

text \<open>A row of the block table: the columns of the batch go to the first columns of the static row.\<close>

definition copy_columns :: "'a list \<Rightarrow> 'a list \<Rightarrow> 'a list res" where
  "copy_columns src dst = (if length dst < length src then Raise IndexError else Ok (src @ drop (length src) dst))"

definition copy_token :: "vec list \<Rightarrow> int list list \<Rightarrow> vec list \<times> int list list \<Rightarrow> nat \<Rightarrow> (vec list \<times> int list list) res" where
  "copy_token hidden tables dst token =
     rbind (vec_get hidden (int token)) (\<lambda>h.
     rbind (vec_set (fst dst) (int token) h) (\<lambda>out_hidden.
     rbind (vec_get tables (int token)) (\<lambda>src_bt.
     rbind (vec_get (snd dst) (int token)) (\<lambda>dst_bt.
     rbind (copy_columns src_bt dst_bt) (\<lambda>bt.
     rbind (vec_set (snd dst) (int token) bt) (\<lambda>out_tables. Ok (out_hidden, out_tables)))))))"

definition preprocess_fused :: "attn_graphs \<Rightarrow> vec list \<Rightarrow> int list \<Rightarrow> flash_attn_metadata \<Rightarrow> nat \<Rightarrow> attn_graphs res" where
  "preprocess_fused g hidden positions meta bsz =
     (let T = length hidden in
      rbind (table_columns (fa_block_tables meta)) (\<lambda>_.
      rbind (foldM (copy_token hidden (fa_block_tables meta)) (ag_input g, ag_block_table g) [0..<T]) (\<lambda>(inp, table).
      rbind (pad_copy positions T 0 bsz (ag_positions g)) (\<lambda>pos.
      rbind (pad_copy (fa_slot_mapping meta) T (- 1) bsz (ag_slot_mapping g)) (\<lambda>sm.
      rbind (pad_copy (fa_seq_lens_tensor meta) T 0 bsz (ag_seq_lens g)) (\<lambda>sl.
      rbind (pad_copy (context_lens_tensor meta) T 0 bsz (ag_context_lens g)) (\<lambda>cl.
      rbind (pad_copy (fa_seq_start_loc meta) (T + 1) 0 (bsz + 1) (ag_seq_start_loc g)) (\<lambda>ssl.
      Ok (g\<lparr>ag_input := inp, ag_block_table := table, ag_positions := pos, ag_slot_mapping := sm, ag_seq_lens := sl,
            ag_context_lens := cl, ag_seq_start_loc := ssl\<rparr>)))))))))"

text \<open>\<open>t[:rows, :cols].copy_(v)\<close>.\<close>

definition table_set :: "'a list list \<Rightarrow> nat \<Rightarrow> nat \<Rightarrow> 'a list list \<Rightarrow> 'a list list res" where
  "table_set tab rows cols v =
     (let k = min rows (length tab) in
      rbind (if length v = k then Ok v else if length v = 1 then Ok (replicate k (hd v)) else Raise RuntimeError) (\<lambda>v.
      rbind (mapM (\<lambda>(old, new). slice_set old 0 cols new) (zip tab v)) (\<lambda>new. Ok (new @ drop k tab))))"

definition preprocess_copies :: "attn_graphs \<Rightarrow> vec list \<Rightarrow> int list \<Rightarrow> flash_attn_metadata \<Rightarrow> attn_graphs res" where
  "preprocess_copies g hidden positions meta =
     (let n = length hidden in
      rbind (table_columns (fa_block_tables meta)) (\<lambda>max_num_blocks.
      rbind (slice_set (ag_input g) 0 n hidden) (\<lambda>inp.
      rbind (slice_set (ag_positions g) 0 n positions) (\<lambda>pos.
      rbind (table_set (ag_block_table g) n max_num_blocks (fa_block_tables meta)) (\<lambda>table.
      rbind (slice_set (ag_slot_mapping g) 0 n (fa_slot_mapping meta)) (\<lambda>sm.
      rbind (slice_set (ag_seq_lens g) 0 n (fa_seq_lens_tensor meta)) (\<lambda>sl.
      rbind (slice_set (ag_context_lens g) 0 n (context_lens_tensor meta)) (\<lambda>cl.
      rbind (slice_set (ag_seq_start_loc g) 0 (n + 1) (fa_seq_start_loc meta)) (\<lambda>ssl.
      Ok (g\<lparr>ag_input := inp, ag_block_table := table, ag_positions := pos, ag_slot_mapping := sm, ag_seq_lens := sl,
            ag_context_lens := cl, ag_seq_start_loc := ssl\<rparr>))))))))))"

definition cuda_graph_preprocess :: "attn_graphs \<Rightarrow> vec list \<Rightarrow> int list \<Rightarrow> flash_attn_metadata \<Rightarrow> nat \<Rightarrow> attn_graphs res" where
  "cuda_graph_preprocess g hidden positions meta bsz =
     (if ag_fused_copy g then preprocess_fused g hidden positions meta bsz else preprocess_copies g hidden positions meta)"

section \<open>Capture and replay\<close>

text \<open>The call a graph records: \<open>run_once\<close> on the static buffers.\<close>

definition run_once :: "attn_env \<Rightarrow> captured \<Rightarrow> attn_executor \<times> attn_graphs \<Rightarrow> (attn_executor \<times> attn_out) res" where
  "run_once env c st =
     (let (ex, g) = st; b = cg_bsz c in
      rbind (prepare_metadata_for_capture g (cg_meta c)) (\<lambda>meta.
      execute_eager env ex (cg_layer c) (take b (ag_positions g)) (take b (ag_input g)) meta
        (if ax_has_profile_gating ex then Some (take b (ag_request_ids g)) else None) (Some (take b (ag_stash_slots g)))))"

type_synonym replayer =
  "(attn_executor \<times> attn_graphs \<Rightarrow> (attn_executor \<times> attn_out) res) \<Rightarrow> attn_executor \<times> attn_graphs \<Rightarrow> (attn_executor \<times> attn_out) res"

text \<open>
  Capturing a layer: two warm-up calls, then the call that is recorded without running its kernels. A graph that is captured already, and the pool of
  a first graph that is not, raise.
\<close>

definition capture_layer :: "attn_env \<Rightarrow> nat \<Rightarrow> flash_attn_metadata \<Rightarrow> attn_executor \<times> attn_graphs \<Rightarrow> int \<Rightarrow> (attn_executor \<times> attn_graphs) res" where
  "capture_layer env b meta st lid =
     (let (ex, g) = st; c = \<lparr> cg_layer = lid, cg_bsz = b, cg_meta = meta \<rparr> in
      rbind (dict_get (ag_graphs g) b) (\<lambda>graph_list.
      rbind (py_get graph_list lid) (\<lambda>graph.
      rbind (run_once env c (ex, g)) (\<lambda>(ex, _).
      rbind (run_once env c (ex, g)) (\<lambda>(ex, _).
      rbind (if lid = 0 then Ok () else rbind (py_get graph_list 0) (\<lambda>g0. if g0 = None then Raise RuntimeError else Ok ())) (\<lambda>_.
      rbind (if graph = None then Ok () else Raise RuntimeError) (\<lambda>_.
      rbind (run_once env c (ex, g)) (\<lambda>_.
      rbind (py_set graph_list lid (Some c)) (\<lambda>graph_list.
      rbind (dict_get (ag_static_outputs g) b) (\<lambda>outs.
      Ok (ex, g\<lparr>ag_graphs := (ag_graphs g)(b \<mapsto> graph_list), ag_static_outputs := (ag_static_outputs g)(b \<mapsto> outs @ [lid])\<rparr>)))))))))))"

definition capture_size ::
  "attn_env \<Rightarrow> (nat \<Rightarrow> vec list) \<Rightarrow> (nat \<Rightarrow> flash_attn_metadata res) \<Rightarrow> int \<Rightarrow> attn_executor \<times> attn_graphs \<Rightarrow> nat \<Rightarrow> (attn_executor \<times> attn_graphs) res" where
  "capture_size env dummy pack max_seq_len st b =
     (let (ex, g) = st in
      rbind (pack b) (\<lambda>meta.
      rbind (cuda_graph_preprocess g (dummy b) (replicate b max_seq_len) meta b) (\<lambda>g.
      rbind (prepare_metadata_for_capture g meta) (\<lambda>_.
      rbind (if ax_has_profile_gating ex then slice_set (ag_request_ids g) 0 b [0..int b - 1] else Ok (ag_request_ids g)) (\<lambda>rids.
      foldM (capture_layer env b meta) (ex, g\<lparr>ag_request_ids := rids\<rparr>) (ax_layer_ids ex))))))"

text \<open>
  Running a batch: it is staged in the buffers, padded rows pointed at the scratch row and block, and the graph of its layer replayed. A failure to find a
  size is raised inside the block whose handler reads the size. The flag set on the metadata is not read again and left out.
\<close>

definition fill_column :: "int list list \<Rightarrow> nat \<Rightarrow> nat \<Rightarrow> int \<Rightarrow> int list list res" where
  "fill_column table a b x = foldM (\<lambda>t i. rbind (vec_get t (int i)) (\<lambda>row. rbind (vec_set row 0 x) (vec_set t (int i)))) table [a..<b]"

definition stage_batch ::
  "bool \<Rightarrow> attn_graphs \<Rightarrow> int list \<Rightarrow> vec list \<Rightarrow> flash_attn_metadata \<Rightarrow> int list option \<Rightarrow> int list option \<Rightarrow> nat \<Rightarrow> attn_graphs res" where
  "stage_batch has_profile_gating g positions hidden_states meta request_ids stash_slots b =
     (let n = length hidden_states in
      rbind (cuda_graph_preprocess g hidden_states positions meta b) (\<lambda>g.
      rbind (case request_ids of None \<Rightarrow> Ok (ag_request_ids g)
        | Some r \<Rightarrow> if has_profile_gating then slice_set (ag_request_ids g) 0 n r else Ok (ag_request_ids g)) (\<lambda>rids.
      rbind (case stash_slots of None \<Rightarrow> Ok (ag_stash_slots g)
        | Some slots \<Rightarrow> rbind (slice_set (ag_stash_slots g) 0 n slots) (\<lambda>s.
            if n < b then slice_set s n b [ag_stash_scratch_slot g] else Ok s)) (\<lambda>slots.
      rbind (if n < b then fill_column (ag_block_table g) n b (ag_kv_scratch_block g) else Ok (ag_block_table g)) (\<lambda>table.
      Ok (g\<lparr>ag_request_ids := rids, ag_stash_slots := slots, ag_block_table := table\<rparr>))))))"

definition graph_run ::
  "attn_env \<Rightarrow> replayer \<Rightarrow> attn_executor \<Rightarrow> attn_graphs \<Rightarrow> int \<Rightarrow> int list \<Rightarrow> vec list \<Rightarrow> flash_attn_metadata \<Rightarrow> int list option \<Rightarrow> int list option
   \<Rightarrow> (attn_executor \<times> attn_graphs \<times> attn_out) res" where
  "graph_run env replay ex g lid positions hidden_states meta request_ids stash_slots =
     (let n = length hidden_states in
      case get_bucket_by_num_tokens (ag_sizes g) n of Inl _ \<Rightarrow> Raise UnboundLocalError
      | Inr b \<Rightarrow>
      rbind (stage_batch (ax_has_profile_gating ex) g positions hidden_states meta request_ids stash_slots b) (\<lambda>g.
      rbind (dict_get (ag_graphs g) b) (\<lambda>graph_list.
      rbind (py_get graph_list lid) (\<lambda>graph.
      case graph of None \<Rightarrow> Raise RuntimeError
      | Some c \<Rightarrow> rbind (replay (run_once env c) (ex, g)) (\<lambda>(ex, out).
        (let g = g\<lparr>ag_outputs := (ag_outputs g)((b, cg_layer c) := out)\<rparr> in
         rbind (dict_get (ag_static_outputs g) b) (\<lambda>outs.
         rbind (py_get outs lid) (\<lambda>l.
         (let (outputs, topk_weights, topk_ids) = ag_outputs g (b, l) in
          Ok (ex, g, (take n outputs, take n topk_weights, take n topk_ids)))))))))))"

text \<open>The self test after capture, and the whole capture.\<close>

definition test_graph ::
  "attn_env \<Rightarrow> replayer \<Rightarrow> (nat \<Rightarrow> vec list) \<Rightarrow> (nat \<Rightarrow> flash_attn_metadata res) \<Rightarrow> int \<Rightarrow> attn_executor \<times> attn_graphs \<Rightarrow> (attn_executor \<times> attn_graphs) res" where
  "test_graph env replay dummy pack max_seq_len st =
     foldM (\<lambda>(ex, g) (lid, b). rbind (pack b) (\<lambda>meta.
         rbind (graph_run env replay ex g lid (replicate b max_seq_len) (dummy b) meta
             (if ax_has_profile_gating ex then Some [0..int b - 1] else None) None) (\<lambda>(ex, g, _). Ok (ex, g))))
       st (List.product (ax_layer_ids (fst st)) (ag_sizes (snd st)))"

definition capture ::
  "attn_env \<Rightarrow> replayer \<Rightarrow> (nat \<Rightarrow> vec list) \<Rightarrow> (nat \<Rightarrow> flash_attn_metadata res) \<Rightarrow> int \<Rightarrow> attn_executor \<times> attn_graphs \<Rightarrow> (attn_executor \<times> attn_graphs) res" where
  "capture env replay dummy pack max_seq_len st =
     rbind (foldM (capture_size env dummy pack max_seq_len) st (ag_sizes (snd st))) (\<lambda>st.
     test_graph env replay dummy pack max_seq_len st)"

section \<open>Executing a batch\<close>

record attn_forward_batch =
  fb_layer_id :: int
  fb_data :: "vec list"
  fb_num_tokens :: nat
  fb_positions :: "int list"
  fb_metadata :: flash_attn_metadata
  fb_req_ids :: "int list option"
  fb_stash_slots :: "int list option"
  fb_expert_ids_buffer :: "int list list option"
  fb_expert_weights_buffer :: "real list list option"

definition execute_normal :: "attn_env \<Rightarrow> attn_executor \<Rightarrow> attn_forward_batch \<Rightarrow> (attn_executor \<times> attn_out) res" where
  "execute_normal env ex b =
     execute_eager env ex (fb_layer_id b) (fb_positions b) (fb_data b) (fb_metadata b) (fb_req_ids b) (fb_stash_slots b)"

text \<open>The first \<open>n\<close> rows of a tensor over those of another.\<close>

definition copy_prefix :: "nat \<Rightarrow> 'a list \<Rightarrow> 'a list \<Rightarrow> 'a list res" where
  "copy_prefix n src dst = (if length src < n \<or> length dst < n then Raise IndexError else Ok (take n src @ drop n dst))"

definition copy_graph_results :: "attn_out \<Rightarrow> attn_out \<Rightarrow> nat \<Rightarrow> attn_out res" where
  "copy_graph_results src dst num_tokens =
     (let (tokens, weights, ids) = src; (out_tokens, out_weights, out_ids) = dst;
          n = (if num_tokens = 0 then length tokens else num_tokens) in
      rbind (c_assert (length tokens \<ge> num_tokens \<and> length out_tokens \<ge> num_tokens)) (\<lambda>_.
      rbind (c_assert (num_tokens = 0 \<longrightarrow> length out_tokens = n \<and> length out_ids = n \<and> length out_weights = n)) (\<lambda>_.
      rbind (copy_prefix n tokens out_tokens) (\<lambda>t.
      rbind (copy_prefix n weights out_weights) (\<lambda>w.
      rbind (copy_prefix n ids out_ids) (\<lambda>i.
      Ok (t, w, i)))))))"

text \<open>\<open>empty_like\<close>, with the contents an argument.\<close>

definition empty_like :: "(nat \<Rightarrow> 'a) \<Rightarrow> 'a list \<Rightarrow> 'a list" where
  "empty_like junk xs = map junk [0..<length xs]"

type_synonym junk_out = "(nat \<Rightarrow> vec) \<times> (nat \<Rightarrow> real list) \<times> (nat \<Rightarrow> int list)"

definition execute_graph ::
  "attn_env \<Rightarrow> replayer \<Rightarrow> junk_out \<Rightarrow> attn_executor \<Rightarrow> attn_graphs \<Rightarrow> attn_forward_batch \<Rightarrow> (attn_executor \<times> attn_graphs \<times> attn_out) res" where
  "execute_graph env replay junk ex g b =
     rbind (graph_run env replay ex g (fb_layer_id b) (fb_positions b) (fb_data b) (fb_metadata b)
         (if ax_has_profile_gating ex then fb_req_ids b else None) (fb_stash_slots b)) (\<lambda>(ex, g, (tokens, weights, ids)).
     (let (jt, jw, ji) = junk in
      rbind (case fb_expert_ids_buffer b of
          Some buf \<Rightarrow> (case fb_expert_weights_buffer b of None \<Rightarrow> Raise TypeError | Some wbuf \<Rightarrow> Ok (buf, wbuf))
        | None \<Rightarrow> Ok (empty_like ji ids, empty_like jw weights)) (\<lambda>(ibuf, wbuf).
      rbind (copy_graph_results (tokens, weights, ids) (empty_like jt tokens, wbuf, ibuf) (fb_num_tokens b)) (\<lambda>out.
      Ok (ex, g, out)))))"

definition attn_execute ::
  "attn_env \<Rightarrow> replayer \<Rightarrow> junk_out \<Rightarrow> bool \<Rightarrow> nat \<Rightarrow> attn_executor \<Rightarrow> attn_graphs \<Rightarrow> attn_forward_batch \<Rightarrow> (attn_executor \<times> attn_graphs \<times> attn_out) res" where
  "attn_execute env replay junk enable_cuda_graph max_attn_graph_bsz ex g b =
     (if enable_cuda_graph \<and> fa_num_decode_tokens (fb_metadata b) \<le> max_attn_graph_bsz then execute_graph env replay junk ex g b
      else rbind (execute_normal env ex b) (\<lambda>(ex, out). Ok (ex, g, out)))"

section \<open>The captured size of a batch\<close>

lemma le_last: "sorted_wrt (<) xs \<Longrightarrow> x \<in> set xs \<Longrightarrow> x \<le> last xs" for x :: nat
  by (induction xs) (auto intro: less_imp_le)

lemma range_step_props:
  assumes "0 < s"
  shows "sorted_wrt (<) (range_step a b s)" and "x \<in> set (range_step a b s) \<Longrightarrow> a \<le> x \<and> x < b"
proof -
  show "sorted_wrt (<) (range_step a b s)"
    using assms by (auto simp: range_step_def sorted_wrt_map sorted_wrt_upt intro: sorted_wrt_mono_rel[OF _ sorted_wrt_upt])
  assume "x \<in> set (range_step a b s)"
  then obtain i where "i \<in> set [0..<(b - a + (s - 1)) div s]" and x: "x = a + i * s" unfolding range_step_def set_map by blast
  then have i: "x = a + i * s" "i < (b - a + (s - 1)) div s" by simp_all
  then have "Suc i * s \<le> b - a + (s - 1)" using assms by (metis Suc_leI div_le_mono2 less_eq_div_iff_mult_less_eq)
  then show "a \<le> x \<and> x < b" using i(1) assms by simp
qed

text \<open>Stages that follow on each other.\<close>

fun stages_from :: "nat \<Rightarrow> (nat \<times> nat \<times> nat) list \<Rightarrow> nat \<Rightarrow> bool" where
  "stages_from l [] m \<longleftrightarrow> False"
| "stages_from l ((lo, hi, inc) # st) m \<longleftrightarrow> lo = l \<and> lo \<le> hi \<and> 0 < inc \<and> (m \<le> hi \<or> stages_from hi st m)"

lemma graph_stages_ascend:
  assumes "stages_from l st m" and "bsz \<noteq> []" and "sorted_wrt (<) bsz" and "\<forall>x \<in> set bsz. x < l \<and> x \<le> m"
  shows "sorted_wrt (<) (graph_stages m bsz st) \<and> m \<in> set (graph_stages m bsz st) \<and> (\<forall>x \<in> set (graph_stages m bsz st). x \<le> m)"
  using assms
proof (induction m bsz st arbitrary: l rule: graph_stages.induct)
  case (2 m bsz lo hi inc st)
  have inc: "0 < inc" and lo: "lo = l" "lo \<le> hi" using 2(2) by simp_all
  note rs = range_step_props[OF inc]
  have app: "sorted_wrt (<) (bsz @ range_step lo k inc)" for k
    using 2(4,5) rs(1)[of lo k] rs(2)[of _ lo k] lo(1) by (auto simp: sorted_wrt_append) (meson less_le_trans)
  show ?case
  proof (cases "m > hi")
    case True
    have "stages_from hi st m" using 2(2) True by simp
    moreover have "\<forall>x \<in> set (bsz @ range_step lo hi inc). x < hi \<and> x \<le> m"
      using 2(5) rs(2)[of _ lo hi] lo True by (auto intro: less_le_trans less_imp_le)
    ultimately show ?thesis using 2(1)[OF True, of hi] 2(3) app[of hi] True by simp
  next
    case False
    let ?b = "bsz @ range_step lo m inc"
    have le: "\<forall>x \<in> set ?b. x \<le> m" using 2(5) rs(2)[of _ lo m] by (auto intro: less_imp_le)
    have ne: "?b \<noteq> []" using 2(3) by simp
    show ?thesis
    proof (cases "last ?b = m")
      case True
      then have "m \<in> set ?b" using last_in_set[OF ne] by simp
      then show ?thesis using False True app[of m] le by simp
    next
      case neq: False
      have "x < m" if x: "x \<in> set ?b" for x
      proof -
        have "last ?b < m" using neq le last_in_set[OF ne] by (meson le_neq_implies_less)
        moreover have "x \<le> last ?b" using app[of m] x by (rule le_last)
        ultimately show ?thesis by simp
      qed
      then show ?thesis using False neq app[of m] le by (simp add: sorted_wrt_append)
    qed
  qed
qed simp

lemma get_graph_batch_sizes_ascend:
  assumes "1 \<le> m" and "m \<le> 1024"
  shows "\<exists>sizes. get_graph_batch_sizes m = Ok sizes \<and> sorted_wrt (<) sizes \<and> m \<in> set sizes \<and> (\<forall>x \<in> set sizes. x \<le> m)"
  using graph_stages_ascend[of 8 "[(8, 128, 32), (128, 256, 64), (256, 512, 128), (512, 1024, 256)]" m "[1]"] assms
  by (auto simp: get_graph_batch_sizes_def)

lemma get_bucket_least:
  assumes "sorted_wrt (<) sizes" and "m \<in> set sizes" and "n \<le> m"
  shows "\<exists>b. get_bucket_by_num_tokens sizes n = Ok b \<and> b \<in> set sizes \<and> n \<le> b \<and> (\<forall>s \<in> set sizes. n \<le> s \<longrightarrow> b \<le> s)"
  using assms by (induction sizes) (auto intro: less_imp_le)

text \<open>
  C33: Every batch the attention graphs are enabled for has a graph that fits it and the buffers. For a limit between 1 and 1024 the captured sizes exist,
  and a batch of at most the limit gets the smallest captured size that holds it, which is at most the limit.
\<close>

theorem graph_size_fits:
  assumes "1 \<le> m" and "m \<le> 1024" and "n \<le> m"
  shows "\<exists>sizes b. get_graph_batch_sizes m = Ok sizes \<and> get_bucket_by_num_tokens sizes n = Ok b \<and> n \<le> b \<and> b \<le> m
    \<and> (\<forall>s \<in> set sizes. n \<le> s \<longrightarrow> b \<le> s)"
proof -
  obtain sizes where s: "get_graph_batch_sizes m = Ok sizes" "sorted_wrt (<) sizes" "m \<in> set sizes" "\<forall>x \<in> set sizes. x \<le> m"
    using get_graph_batch_sizes_ascend[OF assms(1,2)] by blast
  from get_bucket_least[OF s(2,3) assms(3)] s(1,4) show ?thesis by auto
qed

theorem graph_size_fits_witness:
  "\<exists>sizes b. get_graph_batch_sizes 160 = Ok sizes \<and> get_bucket_by_num_tokens sizes 130 = Ok b \<and> 130 \<le> b \<and> b \<le> 160
    \<and> (\<forall>s \<in> set sizes. 130 \<le> s \<longrightarrow> b \<le> s)"
  by (rule graph_size_fits) simp_all

section \<open>The copies into the buffers\<close>

lemma foldM_writes:
  assumes "m \<le> length dst" and "\<And>i. i < m \<Longrightarrow> get i = Ok (f i)"
  shows "foldM (\<lambda>dst i. rbind (get i) (vec_set dst (int i))) dst [0..<m] = Ok (map f [0..<m] @ drop m dst)"
  using assms
proof (induction m)
  case (Suc m)
  have "drop m dst = dst ! m # drop (Suc m) dst" using Suc.prems(1) by (simp add: Cons_nth_drop_Suc)
  then show ?case using Suc by (simp add: vec_set_in list_update_append)
qed simp

lemma pad_copy_Ok:
  assumes "n \<le> length src" and "n \<le> bsz" and "bsz \<le> length dst"
  shows "pad_copy src n pad bsz dst = Ok (take n src @ replicate (bsz - n) pad @ drop bsz dst)"
proof -
  let ?f = "\<lambda>i. if i < n then src ! i else pad"
  have "pad_copy src n pad bsz dst = Ok (map ?f [0..<bsz] @ drop bsz dst)"
    unfolding pad_copy_def using assms(1) by (intro foldM_writes[OF assms(3)]) simp
  moreover have "map ?f [0..<bsz] = take n src @ replicate (bsz - n) pad"
    using assms by (intro nth_equalityI) (auto simp: nth_append)
  ultimately show ?thesis by simp
qed

text \<open>The rows of the block table after the copy.\<close>

definition over_row :: "'a list \<Rightarrow> 'a list \<Rightarrow> 'a list" where
  "over_row src dst = src @ drop (length src) dst"

lemma copy_tokens_Ok:
  assumes "m \<le> length hidden" and "m \<le> length tables" and "m \<le> length inp" and "m \<le> length tab"
    and "\<And>r. r < m \<Longrightarrow> length (tables ! r) \<le> length (tab ! r)"
  shows "foldM (copy_token hidden tables) (inp, tab) [0..<m]
    = Ok (take m hidden @ drop m inp, map (\<lambda>r. over_row (tables ! r) (tab ! r)) [0..<m] @ drop m tab)"
  using assms
proof (induction m)
  case (Suc m)
  have d: "drop m inp = inp ! m # drop (Suc m) inp" "drop m tab = tab ! m # drop (Suc m) tab" using Suc.prems by (simp_all add: Cons_nth_drop_Suc)
  have t: "take (Suc m) hidden = take m hidden @ [hidden ! m]" using Suc.prems(1) by (simp add: take_Suc_conv_app_nth)
  have l: "length (tables ! m) \<le> length (tab ! m)" using Suc.prems(5) by simp
  show ?case
    using Suc l by (simp add: t d copy_token_def vec_set_in list_update_append nth_append copy_columns_def over_row_def not_less)
qed simp

lemma fill_column_Ok:
  assumes "\<And>r. r < length tab \<Longrightarrow> tab ! r \<noteq> []" and "n \<le> b" and "b \<le> length tab"
  shows "fill_column tab n b x = Ok (take n tab @ map (\<lambda>r. (tab ! r)[0 := x]) [n..<b] @ drop b tab)"
  unfolding fill_column_def using assms(2,3)
proof (induction b)
  case (Suc b)
  show ?case
  proof (cases "n = Suc b")
    case False
    then have nb: "n \<le> b" using Suc.prems(1) by simp
    have d: "drop b tab = tab ! b # drop (Suc b) tab" using Suc.prems(2) by (simp add: Cons_nth_drop_Suc)
    let ?t = "take n tab @ map (\<lambda>r. (tab ! r)[0 := x]) [n..<b] @ drop b tab"
    have l: "length (take n tab @ map (\<lambda>r. (tab ! r)[0 := x]) [n..<b]) = b" using nb Suc.prems(2) by simp
    have g: "vec_get ?t (int b) = Ok (tab ! b)" using l d Suc.prems(2) by (simp add: vec_get_def nth_append)
    have s: "vec_set (tab ! b) 0 x = Ok ((tab ! b)[0 := x])" using vec_set_in[of 0 "tab ! b" x] assms(1)[of b] Suc.prems(2) by simp
    have w: "vec_set ?t (int b) y = Ok (take n tab @ map (\<lambda>r. (tab ! r)[0 := x]) [n..<b] @ y # drop (Suc b) tab)" for y
      using vec_set_in[of b ?t y] l d nb Suc.prems(2) by (simp add: list_update_append)
    show ?thesis using Suc.IH nb Suc.prems(2) g s w by simp
  qed simp
qed simp

section \<open>Buffers and captured graphs that fit each other\<close>

text \<open>Static buffers for \<open>M\<close> rows, with \<open>D\<close> columns in the block table.\<close>

definition buffers_ok :: "nat \<Rightarrow> nat \<Rightarrow> attn_graphs \<Rightarrow> bool" where
  "buffers_ok M D g \<longleftrightarrow> length (ag_input g) = M \<and> length (ag_positions g) = M \<and> length (ag_block_table g) = M
     \<and> (\<forall>row \<in> set (ag_block_table g). length row = D) \<and> length (ag_slot_mapping g) = M \<and> length (ag_seq_lens g) = M
     \<and> length (ag_context_lens g) = M \<and> length (ag_seq_start_loc g) = M + 1 \<and> length (ag_stash_slots g) = M
     \<and> length (ag_request_ids g) = M \<and> ag_fused_copy g"

text \<open>All graphs of \<open>L\<close> layers captured, with \<open>W\<close> columns of the block table.\<close>

definition graphs_captured :: "nat \<Rightarrow> nat \<Rightarrow> attn_graphs \<Rightarrow> bool" where
  "graphs_captured L W g \<longleftrightarrow> (\<forall>b \<in> set (ag_sizes g). \<exists>meta.
     fa_num_prefill_tokens meta + fa_num_decode_tokens meta = b \<and> table_columns (fa_block_tables meta) = Ok W
     \<and> ag_graphs g b = Some (map (\<lambda>l. Some \<lparr> cg_layer = int l, cg_bsz = b, cg_meta = meta \<rparr>) [0..<L])
     \<and> ag_static_outputs g b = Some (map int [0..<L]))"

definition executor_ok :: "nat \<Rightarrow> attn_executor \<Rightarrow> bool" where
  "executor_ok L ex \<longleftrightarrow> ax_layer_ids ex = map int [0..<L] \<and> ax_layer_mappings ex = map int [0..<L] \<and> length (ax_operators ex) = L
     \<and> length (ax_kv_cache ex) = L \<and> 0 \<le> ax_max_running_reqs ex
     \<and> (\<exists>stash. ax_residual_stash ex = Some stash \<and> int (length stash) = ax_max_running_reqs ex + 1)"

definition graphs_ready :: "nat \<Rightarrow> nat \<Rightarrow> nat \<Rightarrow> nat \<Rightarrow> attn_executor \<Rightarrow> attn_graphs \<Rightarrow> bool" where
  "graphs_ready L M D W ex g \<longleftrightarrow> executor_ok L ex \<and> buffers_ok M D g \<and> graphs_captured L W g \<and> 0 < D \<and> 0 < W \<and> 1 \<le> M
     \<and> get_graph_batch_sizes M = Ok (ag_sizes g)
     \<and> ag_stash_scratch_slot g = ax_max_running_reqs ex \<and> ag_kv_scratch_block g = ax_num_cache_blocks ex"

text \<open>
  A decode batch: one row per token with its block table, lengths, position and stash row, on blocks that are not the scratch block and stash rows
  that are not the scratch row.
\<close>

definition graph_batch_ok :: "attn_env \<Rightarrow> nat \<Rightarrow> attn_executor \<Rightarrow> attn_forward_batch \<Rightarrow> bool" where
  "graph_batch_ok env w ex b \<longleftrightarrow> (let n = length (fb_data b); m = fb_metadata b in
     1 \<le> n \<and> fb_num_tokens b = n \<and> length (fb_positions b) = n \<and> fa_num_decode_tokens m = n
     \<and> attn_batch_ok env n (fa_block_tables m) (context_lens_tensor m)
     \<and> (\<forall>row \<in> set (fa_block_tables m). length row \<le> w \<and> ax_num_cache_blocks ex \<notin> set row)
     \<and> length (fa_slot_mapping m) = n \<and> length (fa_seq_lens_tensor m) = n \<and> length (fa_seq_start_loc m) = n + 1
     \<and> (\<exists>slots. fb_stash_slots b = Some slots \<and> length slots = n \<and> (\<forall>s \<in> set slots. 0 \<le> s \<and> s < ax_max_running_reqs ex))
     \<and> (case fb_expert_ids_buffer b of None \<Rightarrow> True
        | Some ib \<Rightarrow> length ib = n \<and> (\<exists>wb. fb_expert_weights_buffer b = Some wb \<and> length wb = n))
     \<and> (\<exists>v < length (ax_operators ex). fb_layer_id b = int v \<and> env_ok env (ax_operators ex ! v) \<and> routes_rows (ax_operators ex ! v)))"

lemma preprocess_Ok:
  assumes "buffers_ok M D g" and "length hidden = n" and "1 \<le> n" and "n \<le> b" and "b \<le> M" and "length positions = n"
    and "length (fa_block_tables m) = n" and "\<forall>row \<in> set (fa_block_tables m). length row \<le> D" and "length (context_lens_tensor m) = n"
    and "length (fa_slot_mapping m) = n" and "length (fa_seq_lens_tensor m) = n" and "length (fa_seq_start_loc m) = n + 1"
  shows "\<exists>g'. cuda_graph_preprocess g hidden positions m b = Ok g'
    \<and> g' = g\<lparr>ag_input := hidden @ drop n (ag_input g),
        ag_block_table := map (\<lambda>r. over_row (fa_block_tables m ! r) (ag_block_table g ! r)) [0..<n] @ drop n (ag_block_table g),
        ag_positions := positions @ replicate (b - n) 0 @ drop b (ag_positions g),
        ag_slot_mapping := ag_slot_mapping g', ag_seq_lens := ag_seq_lens g',
        ag_context_lens := context_lens_tensor m @ replicate (b - n) 0 @ drop b (ag_context_lens g),
        ag_seq_start_loc := ag_seq_start_loc g'\<rparr>
    \<and> buffers_ok M D g'"
proof -
  note bo = assms(1)[unfolded buffers_ok_def]
  obtain c where tc: "table_columns (fa_block_tables m) = Ok c" using assms(3,7) by (cases "fa_block_tables m") (auto simp: table_columns_def)
  have rl: "length (fa_block_tables m ! r) \<le> length (ag_block_table g ! r)" if "r < n" for r
    using bo assms(4,5,7,8) that by (metis less_le_trans nth_mem)
  have ct: "foldM (copy_token hidden (fa_block_tables m)) (ag_input g, ag_block_table g) [0..<n]
    = Ok (hidden @ drop n (ag_input g), map (\<lambda>r. over_row (fa_block_tables m ! r) (ag_block_table g ! r)) [0..<n] @ drop n (ag_block_table g))"
    using copy_tokens_Ok[of n hidden "fa_block_tables m" "ag_input g" "ag_block_table g"] bo assms rl by simp
  have pc: "pad_copy positions n 0 b (ag_positions g) = Ok (positions @ replicate (b - n) 0 @ drop b (ag_positions g))"
    "pad_copy (fa_slot_mapping m) n (- 1) b (ag_slot_mapping g) = Ok (fa_slot_mapping m @ replicate (b - n) (- 1) @ drop b (ag_slot_mapping g))"
    "pad_copy (fa_seq_lens_tensor m) n 0 b (ag_seq_lens g) = Ok (fa_seq_lens_tensor m @ replicate (b - n) 0 @ drop b (ag_seq_lens g))"
    "pad_copy (context_lens_tensor m) n 0 b (ag_context_lens g) = Ok (context_lens_tensor m @ replicate (b - n) 0 @ drop b (ag_context_lens g))"
    "pad_copy (fa_seq_start_loc m) (n + 1) 0 (b + 1) (ag_seq_start_loc g) = Ok (fa_seq_start_loc m @ replicate (b - n) 0 @ drop (b + 1) (ag_seq_start_loc g))"
    using bo assms by (simp_all add: pad_copy_Ok)
  have ol: "length (over_row (fa_block_tables m ! r) (ag_block_table g ! r)) = D" if "r < n" for r
  proof -
    have "length (ag_block_table g ! r) = D" using bo assms(4,5) that by simp
    then show ?thesis using rl[OF that] by (simp add: over_row_def)
  qed
  have rows: "\<forall>row \<in> set (map (\<lambda>r. over_row (fa_block_tables m ! r) (ag_block_table g ! r)) [0..<n] @ drop n (ag_block_table g)). length row = D"
    using ol bo by (auto dest: in_set_dropD)
  have e: "cuda_graph_preprocess g hidden positions m b =
      Ok (g\<lparr>ag_input := hidden @ drop n (ag_input g),
        ag_block_table := map (\<lambda>r. over_row (fa_block_tables m ! r) (ag_block_table g ! r)) [0..<n] @ drop n (ag_block_table g),
        ag_positions := positions @ replicate (b - n) 0 @ drop b (ag_positions g),
        ag_slot_mapping := fa_slot_mapping m @ replicate (b - n) (- 1) @ drop b (ag_slot_mapping g),
        ag_seq_lens := fa_seq_lens_tensor m @ replicate (b - n) 0 @ drop b (ag_seq_lens g),
        ag_context_lens := context_lens_tensor m @ replicate (b - n) 0 @ drop b (ag_context_lens g),
        ag_seq_start_loc := fa_seq_start_loc m @ replicate (b - n) 0 @ drop (b + 1) (ag_seq_start_loc g)\<rparr>)"
    using bo unfolding cuda_graph_preprocess_def preprocess_fused_def Let_def assms(2) tc rbind_Ok ct prod.case pc by simp
  show ?thesis by (rule exI, intro conjI, rule e) (use bo assms rows in \<open>simp_all add: buffers_ok_def\<close>)
qed

section \<open>Running a batch through its graph\<close>

definition replay_contract :: "replayer \<Rightarrow> bool" where
  "replay_contract replay \<longleftrightarrow> (\<forall>f st. replay f st = f st)"

lemma execute_eager_Ok:
  assumes "executor_ok L ex" and "v < L" and "ax_residual_stash ex = Some stash"
    and "attn_forward env (ax_operators ex ! v) (Some stash) positions hidden (ax_kv_cache ex ! v) (fa_block_tables m) (context_lens_tensor m) None rids slots
      = Ok (stash', kv', outs)"
  shows "execute_eager env ex (int v) positions hidden m rids slots = Ok (ex\<lparr>ax_kv_cache := (ax_kv_cache ex)[v := kv'], ax_residual_stash := stash'\<rparr>, outs)"
proof -
  have "py_get (ax_layer_mappings ex) (int v) = Ok (int v)" "py_get (ax_operators ex) (int v) = Ok (ax_operators ex ! v)"
    "py_get (ax_kv_cache ex) (int v) = Ok (ax_kv_cache ex ! v)" "py_set (ax_kv_cache ex) (int v) kv' = Ok ((ax_kv_cache ex)[v := kv'])"
    using assms(1,2) by (simp_all add: executor_ok_def py_get_nat py_set_nat)
  then show ?thesis by (cases outs) (simp add: execute_eager_def assms(3,4))
qed

lemma slots_fill:
  assumes "length slots = n" and "n \<le> b" and "b \<le> length buf"
  shows "rbind (slice_set buf 0 n slots) (\<lambda>s. if n < b then slice_set s n b [x] else Ok s) = Ok (slots @ replicate (b - n) x @ drop b buf)"
proof -
  have s: "slice_set buf 0 n slots = Ok (slots @ drop n buf)" using assms by (intro slice_set_prefix) simp_all
  have "slice_set (slots @ drop n buf) n b [x] = Ok (slots @ replicate (b - n) x @ drop b buf)" if "n < b"
  proof -
    have sl: "slice_len (slots @ drop n buf) n b = b - n" using assms that by (simp add: slice_len_def)
    have tk: "take n (slots @ drop n buf) = slots" "drop (n + (b - n)) (slots @ drop n buf) = drop b buf" using assms that by simp_all
    show ?thesis unfolding slice_set_def sl Let_def tk using that by (cases "b - n = 1") simp_all
  qed
  then show ?thesis using s assms by (cases "n < b") simp_all
qed

text \<open>The block tables and lengths a graph reads form a padded batch.\<close>

lemma graph_tables_padded:
  assumes "attn_batch_ok env n bts ctx" and "0 < ae_page env" and "\<forall>row \<in> set bts. length row \<le> W \<and> length row \<le> D \<and> scratch \<notin> set row"
    and "length tab = M" and "\<forall>row \<in> set tab. length row = D" and "n \<le> b" and "b \<le> M" and "0 < D" and "0 < W"
    and "T = map (take W) (map (\<lambda>r. over_row (bts ! r) (tab ! r)) [0..<n] @ map (\<lambda>r. (tab ! r)[0 := scratch]) [n..<b])"
    and "C = ctx @ replicate (b - n) 0"
  shows "padding_ok env scratch n b bts ctx T C"
proof -
  have l: "length bts = n" "length ctx = n" using assms(1) by (simp_all add: attn_batch_ok_def)
  have "\<exists>rest. T ! r = bts ! r @ rest" if "r < n" for r
    using that assms(3,10) l nth_mem[of r bts] by (auto simp: nth_append over_row_def)
  moreover have "C ! r = 0 \<and> T ! r \<noteq> [] \<and> hd (T ! r) = scratch" if r: "r < b" "n \<le> r" for r
  proof -
    have "tab ! r \<noteq> []" using assms(4,5,7,8) r by (metis less_le_trans list.size(3) nth_mem not_less_zero)
    then obtain y ys where "tab ! r = y # ys" by (cases "tab ! r") auto
    moreover have "T ! r = take W ((tab ! r)[0 := scratch])" using assms(10) r by (simp add: nth_append)
    ultimately show ?thesis using assms(9,11) r l by (cases W) (simp_all add: nth_append)
  qed
  ultimately show ?thesis
    using assms l nth_mem[of _ bts] by (auto simp: padding_ok_def padded_rows_def)
qed

text \<open>What serving can observe of two executors: everything but the scratch block of the caches and the scratch row of the stash.\<close>

definition same_serving_state :: "attn_env \<Rightarrow> attn_executor \<Rightarrow> attn_executor \<Rightarrow> bool" where
  "same_serving_state env ex ex' \<longleftrightarrow>
     ex'\<lparr>ax_kv_cache := ax_kv_cache ex, ax_residual_stash := ax_residual_stash ex\<rparr> = ex
     \<and> list_all2 (same_but_scratch (ae_page env) (ax_num_cache_blocks ex)) (ax_kv_cache ex) (ax_kv_cache ex')
     \<and> (\<exists>s s'. ax_residual_stash ex = Some s \<and> ax_residual_stash ex' = Some s' \<and> length s' = length s
          \<and> (\<forall>j. int j \<noteq> ax_max_running_reqs ex \<longrightarrow> s' ! j = s ! j))"

lemma same_but_scratch_refl [simp]: "same_but_scratch page scratch kv kv"
  by (simp add: same_but_scratch_def)

lemma same_serving_stateI:
  assumes "ax_residual_stash ex = Some s0" and "v < length (ax_kv_cache ex)"
    and "same_but_scratch (ae_page env) (ax_num_cache_blocks ex) kv1 kv2"
    and "0 \<le> ax_max_running_reqs ex" and "length s2 = length s1" and "\<forall>j. j \<noteq> nat (ax_max_running_reqs ex) \<longrightarrow> s2 ! j = s1 ! j"
  shows "same_serving_state env (ex\<lparr>ax_kv_cache := (ax_kv_cache ex)[v := kv1], ax_residual_stash := Some s1\<rparr>)
    (ex\<lparr>ax_kv_cache := (ax_kv_cache ex)[v := kv2], ax_residual_stash := Some s2\<rparr>)"
proof -
  have "list_all2 (same_but_scratch (ae_page env) (ax_num_cache_blocks ex)) ((ax_kv_cache ex)[v := kv1]) ((ax_kv_cache ex)[v := kv2])"
    using assms(3) by (intro list_all2_update_cong) (auto intro: list_all2_refl)
  moreover have "\<forall>j. int j \<noteq> ax_max_running_reqs ex \<longrightarrow> s2 ! j = s1 ! j" using assms(4,6) by (metis nat_0_le)
  ultimately show ?thesis using assms(5) by (simp add: same_serving_state_def)
qed

lemma executor_ok_update:
  assumes "executor_ok L ex" and "ax_residual_stash ex = Some s0" and "length s = length s0"
  shows "executor_ok L (ex\<lparr>ax_kv_cache := (ax_kv_cache ex)[v := kv], ax_residual_stash := Some s\<rparr>)"
  using assms by (simp add: executor_ok_def)

text \<open>The graph of a size, replayed on buffers that hold a padded batch.\<close>

lemma run_once_padded:
  assumes "executor_ok L ex" and "v < L" and "ax_residual_stash ex = Some stash" and "\<not> ax_has_profile_gating ex"
    and "env_ok env (ax_operators ex ! v)" and "routes_rows (ax_operators ex ! v)"
    and "fa_num_prefill_tokens meta0 + fa_num_decode_tokens meta0 = b" and "table_columns (fa_block_tables meta0) = Ok W"
    and "b \<le> length (ag_input g)" and "b \<le> length (ag_positions g)" and "b \<le> length (ag_stash_slots g)"
    and "padding_ok env (ax_num_cache_blocks ex) n b (fa_block_tables m) (context_lens_tensor m)
           (map (take W) (take b (ag_block_table g))) (take b (ag_context_lens g))"
    and "slots_in stash (take b (ag_stash_slots g))" and "\<forall>i \<in> set (drop n (take b (ag_stash_slots g))). i = ax_max_running_reqs ex"
    and "take n (ag_input g) = hidden" and "take n (ag_positions g) = positions" and "take n (ag_stash_slots g) = slots"
  shows "\<exists>ex1 ex2 Y Wt I. run_once env \<lparr> cg_layer = int v, cg_bsz = b, cg_meta = meta0 \<rparr> (ex, g) = Ok (ex2, (Y, Wt, I))
    \<and> execute_eager env ex (int v) positions hidden m rids (Some slots) = Ok (ex1, (take n Y, take n Wt, take n I))
    \<and> same_serving_state env ex1 ex2 \<and> executor_ok L ex2 \<and> ax_max_running_reqs ex2 = ax_max_running_reqs ex
    \<and> ax_num_cache_blocks ex2 = ax_num_cache_blocks ex \<and> length Y = b \<and> length Wt = b \<and> length I = b"
proof -
  let ?la = "ax_operators ex ! v" and ?kv = "ax_kv_cache ex ! v"
  let ?T = "map (take W) (take b (ag_block_table g))" and ?C = "take b (ag_context_lens g)"
  have nb: "n \<le> b" using assms(12) by (auto simp: padding_ok_def padded_rows_def)
  then have tk: "take n (take b (ag_input g)) = hidden" "take n (take b (ag_positions g)) = positions" "take n (take b (ag_stash_slots g)) = slots"
    using assms(15-17) by (simp_all add: min_def)
  obtain s1 kv1 s2 kv2 Y Wt I where
    f1: "attn_forward env ?la (Some stash) positions hidden ?kv (fa_block_tables m) (context_lens_tensor m) None rids (Some slots)
        = Ok (Some s1, kv1, take n Y, take n Wt, take n I)"
    and f2: "attn_forward env ?la (Some stash) (take b (ag_positions g)) (take b (ag_input g)) ?kv ?T ?C None None (Some (take b (ag_stash_slots g)))
        = Ok (Some s2, kv2, Y, Wt, I)"
    and sm: "same_but_scratch (ae_page env) (ax_num_cache_blocks ex) kv1 kv2" "length s1 = length stash" "length s2 = length stash"
      "\<forall>j. j \<noteq> nat (ax_max_running_reqs ex) \<longrightarrow> s2 ! j = s1 ! j" and l: "length Y = b" "length Wt = b" "length I = b"
    using attn_forward_padded[OF assms(5,6,12) _ _ _ assms(13,14), of "take b (ag_input g)" "take b (ag_positions g)" ?kv rids None] assms(9-11) tk by auto
  obtain m' where pm: "prepare_metadata_for_capture g meta0 = Ok m'" "fa_block_tables m' = ?T" "context_lens_tensor m' = ?C"
    using assms(7,8) by (simp add: prepare_metadata_for_capture_def Let_def)
  have lk: "v < length (ax_kv_cache ex)" using assms(1,2) by (simp add: executor_ok_def)
  let ?ex1 = "ex\<lparr>ax_kv_cache := (ax_kv_cache ex)[v := kv1], ax_residual_stash := Some s1\<rparr>"
  let ?ex2 = "ex\<lparr>ax_kv_cache := (ax_kv_cache ex)[v := kv2], ax_residual_stash := Some s2\<rparr>"
  have "run_once env \<lparr> cg_layer = int v, cg_bsz = b, cg_meta = meta0 \<rparr> (ex, g) = Ok (?ex2, (Y, Wt, I))"
    using execute_eager_Ok[OF assms(1-3), where m = m'] f2 assms(4) by (simp add: run_once_def pm)
  moreover have "execute_eager env ex (int v) positions hidden m rids (Some slots) = Ok (?ex1, (take n Y, take n Wt, take n I))"
    using execute_eager_Ok[OF assms(1-3) f1] by simp
  moreover have "same_serving_state env ?ex1 ?ex2"
    using same_serving_stateI[OF assms(3) lk sm(1)] sm(2-4) assms(1) by (simp add: executor_ok_def)
  moreover have "executor_ok L ?ex2" using executor_ok_update[OF assms(1,3)] sm(3) by simp
  ultimately show ?thesis using l
    by (intro exI[of _ ?ex1] exI[of _ ?ex2] exI[of _ Y] exI[of _ Wt] exI[of _ I]) simp
qed

text \<open>A staged batch: the real rows first, the padding pointed at the scratch block and the scratch row.\<close>

lemma stage_batch_Ok:
  assumes "graphs_ready L M D W ex g" and "graph_batch_ok env (min D W) ex bt" and "fb_stash_slots bt = Some slots"
    and "length (fb_data bt) \<le> b" and "b \<le> M"
  defines "n \<equiv> length (fb_data bt)" and "m \<equiv> fb_metadata bt" and "scr \<equiv> ax_num_cache_blocks ex" and "row \<equiv> ax_max_running_reqs ex"
  shows "\<exists>g'. stage_batch p g (fb_positions bt) (fb_data bt) m None (Some slots) b = Ok g' \<and> buffers_ok M D g'
    \<and> ag_graphs g' = ag_graphs g \<and> ag_static_outputs g' = ag_static_outputs g \<and> ag_sizes g' = ag_sizes g
    \<and> ag_stash_scratch_slot g' = row \<and> ag_kv_scratch_block g' = scr
    \<and> padding_ok env scr n b (fa_block_tables m) (context_lens_tensor m) (map (take W) (take b (ag_block_table g'))) (take b (ag_context_lens g'))
    \<and> take b (ag_stash_slots g') = slots @ replicate (b - n) row
    \<and> take n (ag_input g') = fb_data bt \<and> take n (ag_positions g') = fb_positions bt"
proof -
  note gr = assms(1)[unfolded graphs_ready_def] and bo = assms(2)[unfolded graph_batch_ok_def Let_def, folded n_def m_def scr_def row_def]
  have sl: "length slots = n" and pg: "0 < ae_page env" using bo assms(3) by (auto simp: env_ok_def)
  have nb: "n \<le> b" "b \<le> M" and bb: "buffers_ok M D g" using assms(4,5) gr by (simp_all add: n_def)
  obtain g1 where p: "cuda_graph_preprocess g (fb_data bt) (fb_positions bt) m b = Ok g1" and g1: "buffers_ok M D g1" and
    e: "g1 = g\<lparr>ag_input := fb_data bt @ drop n (ag_input g),
        ag_block_table := map (\<lambda>r. over_row (fa_block_tables m ! r) (ag_block_table g ! r)) [0..<n] @ drop n (ag_block_table g),
        ag_positions := fb_positions bt @ replicate (b - n) 0 @ drop b (ag_positions g),
        ag_slot_mapping := ag_slot_mapping g1, ag_seq_lens := ag_seq_lens g1,
        ag_context_lens := context_lens_tensor m @ replicate (b - n) 0 @ drop b (ag_context_lens g),
        ag_seq_start_loc := ag_seq_start_loc g1\<rparr>"
    using preprocess_Ok[OF bb n_def[THEN meta_eq_to_obj_eq, symmetric], of b "fb_positions bt" m] bo nb by (auto simp: attn_batch_ok_def)
  let ?over = "map (\<lambda>r. over_row (fa_block_tables m ! r) (ag_block_table g ! r)) [0..<n]"
  let ?fill = "map (\<lambda>r. (ag_block_table g ! r)[0 := scr]) [n..<b]"
  define tab ss where "tab = ?over @ ?fill @ drop b (ag_block_table g)" and "ss = slots @ replicate (b - n) row @ drop b (ag_stash_slots g)"
  have f1: "ag_block_table g1 = ?over @ drop n (ag_block_table g)" "ag_stash_slots g1 = ag_stash_slots g" "ag_graphs g1 = ag_graphs g"
    "ag_static_outputs g1 = ag_static_outputs g" "ag_kv_scratch_block g1 = scr" "ag_stash_scratch_slot g1 = row" "ag_sizes g1 = ag_sizes g"
    "ag_input g1 = fb_data bt @ drop n (ag_input g)" "ag_positions g1 = fb_positions bt @ replicate (b - n) 0 @ drop b (ag_positions g)"
    "ag_context_lens g1 = context_lens_tensor m @ replicate (b - n) 0 @ drop b (ag_context_lens g)"
    using gr by (subst e, simp add: scr_def row_def)+
  have lens: "length (ag_block_table g) = M" "length (ag_stash_slots g) = M" "\<forall>r \<in> set (ag_block_table g). length r = D" using bb by (simp_all add: buffers_ok_def)
  have fs: "rbind (slice_set (ag_stash_slots g1) 0 n slots) (\<lambda>s. if n < b then slice_set s n b [ag_stash_scratch_slot g1] else Ok s) = Ok ss"
    unfolding f1(2,6) ss_def using sl nb lens by (intro slots_fill) simp_all
  have ne: "ag_block_table g1 ! r \<noteq> []" if "r < length (ag_block_table g1)" for r
    using nth_mem[OF that] g1 gr by (auto simp: buffers_ok_def)
  have tab: "take n (ag_block_table g1) @ map (\<lambda>r. (ag_block_table g1 ! r)[0 := scr]) [n..<b] @ drop b (ag_block_table g1) = tab"
    using nb lens(1) by (simp add: f1(1) tab_def nth_append)
  have ft: "(if n < b then fill_column (ag_block_table g1) n b (ag_kv_scratch_block g1) else Ok (ag_block_table g1)) = Ok tab"
    using fill_column_Ok[of "ag_block_table g1" n b scr, OF ne nb(1)] tab nb g1 by (cases "n < b") (auto simp: f1(5) buffers_ok_def)
  define g2 where "g2 = g1\<lparr>ag_request_ids := ag_request_ids g1, ag_stash_slots := ss, ag_block_table := tab\<rparr>"
  have "padding_ok env scr n b (fa_block_tables m) (context_lens_tensor m) (map (take W) (take b (ag_block_table g2))) (take b (ag_context_lens g2))"
  proof (rule graph_tables_padded[where D = D and M = M and W = W and tab = "ag_block_table g"])
    show "map (take W) (take b (ag_block_table g2)) = map (take W) (?over @ ?fill)" using nb by (simp add: g2_def tab_def)
    show "take b (ag_context_lens g2) = context_lens_tensor m @ replicate (b - n) 0" using nb bo by (simp add: g2_def f1 attn_batch_ok_def)
  qed (use pg bo gr nb lens scr_def in simp_all)
  moreover have "buffers_ok M D g2"
  proof -
    have "\<forall>x \<in> set (?over @ drop n (ag_block_table g)). length x = D" using g1 by (simp add: buffers_ok_def f1(1))
    then have "\<forall>x \<in> set tab. length x = D" using lens(1,3) nb(2) by (auto simp: tab_def dest: in_set_dropD)
    then show ?thesis using g1 sl nb lens by (simp add: buffers_ok_def g2_def ss_def tab_def)
  qed
  moreover have "stage_batch p g (fb_positions bt) (fb_data bt) m None (Some slots) b = Ok g2"
    unfolding stage_batch_def Let_def n_def[symmetric] p rbind_Ok option.case fs ft g2_def ..
  ultimately show ?thesis using bo sl nb n_def by (intro exI[of _ g2]) (simp add: g2_def f1 ss_def)
qed

lemma graph_run_eager:
  assumes "replay_contract replay" and "graphs_ready L M D W ex g" and "graph_batch_ok env (min D W) ex bt" and "length (fb_data bt) \<le> M"
    and "\<not> ax_has_profile_gating ex"
  shows "\<exists>ex1 ex2 g' out. graph_run env replay ex g (fb_layer_id bt) (fb_positions bt) (fb_data bt) (fb_metadata bt) None (fb_stash_slots bt) = Ok (ex2, g', out)
    \<and> execute_normal env ex bt = Ok (ex1, out) \<and> same_serving_state env ex1 ex2 \<and> graphs_ready L M D W ex2 g'
    \<and> length (fst out) = length (fb_data bt) \<and> length (fst (snd out)) = length (fb_data bt) \<and> length (snd (snd out)) = length (fb_data bt)"
proof -
  define n m where "n = length (fb_data bt)" and "m = fb_metadata bt"
  note gr = assms(2)[unfolded graphs_ready_def] and bo = assms(3)[unfolded graph_batch_ok_def Let_def, folded n_def m_def]
  obtain slots where sl: "fb_stash_slots bt = Some slots" "length slots = n" "\<forall>s \<in> set slots. 0 \<le> s \<and> s < ax_max_running_reqs ex" using bo by blast
  obtain v where v: "v < L" "fb_layer_id bt = int v" "env_ok env (ax_operators ex ! v)" "routes_rows (ax_operators ex ! v)"
    using bo gr by (auto simp: executor_ok_def)
  obtain stash where st: "ax_residual_stash ex = Some stash" "int (length stash) = ax_max_running_reqs ex + 1" using gr by (auto simp: executor_ok_def)
  have M: "M \<le> 1024" using gr by (auto simp: get_graph_batch_sizes_def res_simps)
  obtain b where b: "get_bucket_by_num_tokens (ag_sizes g) n = Ok b" "b \<in> set (ag_sizes g)" "n \<le> b" "b \<le> M"
    using get_graph_batch_sizes_ascend[of M] get_bucket_least[of "ag_sizes g" M n] M gr assms(4) n_def by auto
  from stage_batch_Ok[OF assms(2,3) sl(1) b(3)[unfolded n_def] b(4), of False, folded n_def m_def]
  obtain g2 where g2: "stage_batch False g (fb_positions bt) (fb_data bt) m None (Some slots) b = Ok g2" "buffers_ok M D g2"
    and h: "ag_graphs g2 = ag_graphs g" "ag_static_outputs g2 = ag_static_outputs g" "ag_sizes g2 = ag_sizes g"
      "ag_stash_scratch_slot g2 = ax_max_running_reqs ex" "ag_kv_scratch_block g2 = ax_num_cache_blocks ex"
    and pad: "padding_ok env (ax_num_cache_blocks ex) n b (fa_block_tables m) (context_lens_tensor m) (map (take W) (take b (ag_block_table g2))) (take b (ag_context_lens g2))"
    and ss: "take b (ag_stash_slots g2) = slots @ replicate (b - n) (ax_max_running_reqs ex)"
    and tk: "take n (ag_input g2) = fb_data bt" "take n (ag_positions g2) = fb_positions bt" by blast
  have sl2: "slots_in stash (take b (ag_stash_slots g2))" "\<forall>i \<in> set (drop n (take b (ag_stash_slots g2))). i = ax_max_running_reqs ex"
    using sl st(2) gr by (auto simp: ss slots_in_def executor_ok_def)
  have "take n (take b (ag_stash_slots g2)) = slots" using sl(2) by (simp add: ss)
  then have tk2: "take n (ag_stash_slots g2) = slots" using b(3) by (simp add: min_def)
  have gl: "b \<le> length (ag_input g2)" "b \<le> length (ag_positions g2)" "b \<le> length (ag_stash_slots g2)" using g2(2) b(4) by (simp_all add: buffers_ok_def)
  obtain meta0 where c: "fa_num_prefill_tokens meta0 + fa_num_decode_tokens meta0 = b" "table_columns (fa_block_tables meta0) = Ok W"
    "ag_graphs g b = Some (map (\<lambda>l. Some \<lparr> cg_layer = int l, cg_bsz = b, cg_meta = meta0 \<rparr>) [0..<L])" "ag_static_outputs g b = Some (map int [0..<L])"
    using gr b(2) by (auto simp: graphs_captured_def)
  have ex: "executor_ok L ex" using gr by simp
  obtain ex1 ex2 Y Wt I where r: "run_once env \<lparr> cg_layer = int v, cg_bsz = b, cg_meta = meta0 \<rparr> (ex, g2) = Ok (ex2, (Y, Wt, I))"
    "execute_eager env ex (int v) (fb_positions bt) (fb_data bt) m (fb_req_ids bt) (Some slots) = Ok (ex1, (take n Y, take n Wt, take n I))"
    "same_serving_state env ex1 ex2" "executor_ok L ex2" "ax_max_running_reqs ex2 = ax_max_running_reqs ex" "ax_num_cache_blocks ex2 = ax_num_cache_blocks ex"
    "length Y = b" "length Wt = b" "length I = b"
    using run_once_padded[OF ex v(1) st(1) assms(5) v(3,4) c(1,2) gl pad sl2 tk tk2, of "fb_req_ids bt"] by blast
  let ?g = "g2\<lparr>ag_outputs := (ag_outputs g2)((b, int v) := (Y, Wt, I))\<rparr>"
  have py: "py_get (map (\<lambda>l. Some \<lparr> cg_layer = int l, cg_bsz = b, cg_meta = meta0 \<rparr>) [0..<L]) (int v) = Ok (Some \<lparr> cg_layer = int v, cg_bsz = b, cg_meta = meta0 \<rparr>)"
    "py_get (map int [0..<L]) (int v) = Ok (int v)" using v(1) by (simp_all add: py_get_nat)
  have fp: "ax_has_profile_gating ex = False" using assms(5) by simp
  have run: "graph_run env replay ex g (int v) (fb_positions bt) (fb_data bt) m None (Some slots) = Ok (ex2, ?g, (take n Y, take n Wt, take n I))"
    unfolding graph_run_def Let_def n_def[symmetric] b(1) sum.case fp g2(1) rbind_Ok
    by (simp add: h c(3,4) dict_get_hit py assms(1)[unfolded replay_contract_def] r(1))
  have "graphs_ready L M D W ex2 ?g"
    using gr g2(2) r(4-6) by (simp add: graphs_ready_def graphs_captured_def buffers_ok_def h)
  then show ?thesis
    using run r(2,3,7-9) b(3) by (intro exI[of _ ex1] exI[of _ ex2] exI[of _ ?g] exI[of _ "(take n Y, take n Wt, take n I)"])
       (simp add: v(2) sl(1) execute_normal_def m_def[symmetric] n_def[symmetric])
qed

text \<open>Copying results of exactly the requested rows returns them, whatever the target held.\<close>

lemma copy_graph_results_full:
  assumes "0 < n" and "length t = n" "length w = n" "length i = n" and "length t' = n" "length w' = n" "length i' = n"
  shows "copy_graph_results (t, w, i) (t', w', i') n = Ok (t, w, i)"
  using assms by (simp add: copy_graph_results_def copy_prefix_def)

text \<open>
  C11: Executing a decode batch with CUDA graphs is executing it eagerly. For graphs captured for all layers and a batch that fits them, with rows that
  do not write where others read, tables without the scratch block and stash rows other than the scratch row, execution pads the batch, replays
  the graph of its layer and returns exactly the rows, weights and experts of eager execution; the caches and the stash are the same outside the scratch block and
  the scratch row; and the graphs are ready for the next batch. It relies on the contracts of the attention kernels and of replay, and on a router
  that works row by row.
\<close>

theorem graph_execution_is_eager:
  assumes "replay_contract replay" and "graphs_ready L M D W ex g" and "graph_batch_ok env (min D W) ex b" and "length (fb_data b) \<le> M"
    and "\<not> ax_has_profile_gating ex"
  shows "\<exists>ex1 ex2 g' out. attn_execute env replay junk True M ex g b = Ok (ex2, g', out) \<and> attn_execute env replay junk False M ex g b = Ok (ex1, g, out)
    \<and> same_serving_state env ex1 ex2 \<and> graphs_ready L M D W ex2 g'"
proof -
  let ?n = "length (fb_data b)"
  note bo = assms(3)[unfolded graph_batch_ok_def Let_def]
  obtain ex1 ex2 g' t w i where r: "graph_run env replay ex g (fb_layer_id b) (fb_positions b) (fb_data b) (fb_metadata b) None (fb_stash_slots b) = Ok (ex2, g', (t, w, i))"
    "execute_normal env ex b = Ok (ex1, (t, w, i))" "same_serving_state env ex1 ex2" "graphs_ready L M D W ex2 g'"
    and l: "length t = ?n" "length w = ?n" "length i = ?n"
    using graph_run_eager[OF assms] by (metis fst_conv snd_conv prod.exhaust)
  obtain jt jw ji where j: "junk = (jt, jw, ji)" by (cases junk)
  have n: "0 < ?n" "fb_num_tokens b = ?n" "fa_num_decode_tokens (fb_metadata b) \<le> M" using bo assms(4) by auto
  have "\<exists>ib wb. (case fb_expert_ids_buffer b of Some buf \<Rightarrow> (case fb_expert_weights_buffer b of None \<Rightarrow> Raise TypeError | Some wbuf \<Rightarrow> Ok (buf, wbuf))
        | None \<Rightarrow> Ok (empty_like ji i, empty_like jw w)) = Ok (ib, wb) \<and> length ib = ?n \<and> length wb = ?n"
    using bo l by (auto simp: empty_like_def split: option.splits)
  then obtain ib wb where ib: "(case fb_expert_ids_buffer b of Some buf \<Rightarrow> (case fb_expert_weights_buffer b of None \<Rightarrow> Raise TypeError | Some wbuf \<Rightarrow> Ok (buf, wbuf))
        | None \<Rightarrow> Ok (empty_like ji i, empty_like jw w)) = Ok (ib, wb)" "length ib = ?n" "length wb = ?n" by blast
  have "execute_graph env replay junk ex g b = Ok (ex2, g', (t, w, i))"
    using assms(5) copy_graph_results_full[OF n(1) l, of "empty_like jt t" wb ib] ib l n(2)
    by (simp add: execute_graph_def r(1) j empty_like_def)
  then show ?thesis using r(2-4) n(3)
    by (intro exI[of _ ex1] exI[of _ ex2] exI[of _ g'] exI[of _ "(t, w, i)"]) (simp add: attn_execute_def)
qed

text \<open>An instance: two layers, sizes 1 and 4, and a batch of two rows that is padded to four.\<close>

definition demo_exec :: attn_executor where
  "demo_exec = \<lparr> ax_layer_ids = [0, 1], ax_layer_mappings = [0, 1], ax_operators = [demo_layer False, demo_layer True],
     ax_kv_cache = [(\<lambda>_ _ _. 0, \<lambda>_ _ _. 0), (\<lambda>_ _ _. 0, \<lambda>_ _ _. 0)], ax_residual_stash = Some (replicate 6 (\<lambda>_. 3)),
     ax_num_cache_blocks = 8, ax_max_running_reqs = 5, ax_has_profile_gating = False \<rparr>"

definition demo_capture_meta :: "nat \<Rightarrow> flash_attn_metadata" where
  "demo_capture_meta b = (make_profile_decode_meta b)\<lparr>fa_block_tables := replicate b [0, 0, 0]\<rparr>"

definition demo_graphs :: attn_graphs where
  "demo_graphs = \<lparr> ag_sizes = [1, 4], ag_input = replicate 4 (\<lambda>_. 9), ag_positions = replicate 4 0, ag_block_table = replicate 4 [6, 6, 6],
     ag_slot_mapping = replicate 4 0, ag_seq_lens = replicate 4 0, ag_context_lens = replicate 4 0, ag_seq_start_loc = replicate 5 0,
     ag_query_start_loc = [0, 1, 2, 3, 4], ag_request_ids = replicate 4 0, ag_stash_slots = replicate 4 5, ag_stash_scratch_slot = 5,
     ag_kv_scratch_block = 8, ag_fused_copy = True,
     ag_graphs = (\<lambda>b. if b = 1 \<or> b = 4 then Some (map (\<lambda>l. Some \<lparr> cg_layer = int l, cg_bsz = b, cg_meta = demo_capture_meta b \<rparr>) [0..<2]) else None),
     ag_static_outputs = (\<lambda>b. if b = 1 \<or> b = 4 then Some (map int [0..<2]) else None), ag_outputs = (\<lambda>_. ([], [], [])) \<rparr>"

definition demo_forward_batch :: attn_forward_batch where
  "demo_forward_batch = \<lparr> fb_layer_id = 1, fb_data = [\<lambda>_. 1, \<lambda>_. 2], fb_num_tokens = 2, fb_positions = [9, 5],
     fb_metadata = (make_profile_decode_meta 2)\<lparr>fa_block_tables := [[7, 2, 5], [1, 3, 0]], context_lens_tensor := [9, 5]\<rparr>,
     fb_req_ids = None, fb_stash_slots = Some [0, 4], fb_expert_ids_buffer = None, fb_expert_weights_buffer = None \<rparr>"

lemma table_columns_replicate: "0 < n \<Longrightarrow> table_columns (replicate n row) = Ok (length row)"
  by (cases n) (simp_all add: table_columns_def)

lemma demo_graphs_ready: "graphs_ready 2 4 3 3 demo_exec demo_graphs"
proof -
  have "get_graph_batch_sizes 4 = Ok [1, 4]" by (simp add: get_graph_batch_sizes_def range_step_def)
  then show ?thesis
    by (simp add: graphs_ready_def executor_ok_def buffers_ok_def graphs_captured_def demo_exec_def demo_graphs_def demo_capture_meta_def
        make_profile_decode_meta_def table_columns_replicate table_columns_def[of "[_]"] numeral_2_eq_2 exI[of _ "demo_capture_meta _"])
qed

lemma demo_forward_rows: "attn_batch_ok demo_env 2 [[7, 2, 5], [1, 3, 0]] [9, 5]"
proof -
  have "row_apart 4 [9, 5] [[7, 2, 5], [1, 3, 0]] 0" "row_apart 4 [9, 5] [[7, 2, 5], [1, 3, 0]] 1" by code_simp+
  then show ?thesis by (simp add: attn_batch_ok_def demo_env_def numeral_2_eq_2 All_less_Suc)
qed

lemma demo_forward_batch_ok: "graph_batch_ok demo_env 3 demo_exec demo_forward_batch"
  using demo_forward_rows demo_env_ok[of True]
  by (simp add: graph_batch_ok_def Let_def demo_forward_batch_def make_profile_decode_meta_def demo_exec_def exI[of _ 1] routes_rows_def demo_layer_def numeral_2_eq_2)

theorem graph_execution_is_eager_witness:
  "\<exists>ex1 ex2 g' out. attn_execute demo_env (\<lambda>f st. f st) (\<lambda>_ _. 0, \<lambda>_. [], \<lambda>_. []) True 4 demo_exec demo_graphs demo_forward_batch = Ok (ex2, g', out)
    \<and> attn_execute demo_env (\<lambda>f st. f st) (\<lambda>_ _. 0, \<lambda>_. [], \<lambda>_. []) False 4 demo_exec demo_graphs demo_forward_batch = Ok (ex1, demo_graphs, out)
    \<and> same_serving_state demo_env ex1 ex2 \<and> graphs_ready 2 4 3 3 ex2 g'"
  by (rule graph_execution_is_eager[OF _ demo_graphs_ready])
     (use demo_forward_batch_ok in \<open>simp_all add: replay_contract_def demo_forward_batch_def demo_exec_def\<close>)

end
