(* ===== verification/Expert_Graph.thy ===== *)
theory Expert_Graph
  imports Cuda_Graph
begin

text \<open>
  The CUDA graphs of the expert workers (\<^verbatim>\<open>CUDAGraphExpertsExecutor\<close> in \<^verbatim>\<open>disagmoe/executor/cuda_graph.py\<close>) and the kernel that fills their buffers
  (\<^verbatim>\<open>csrc/cuda_ops/indices_copy_pad.cu\<close>). A graph runs the experts on a whole captured size; the rows beyond the batch belong to no group, or to
  the first expert, and are cut off. The main results are that a batch run through its graph gets the rows of eager execution,
  and that the captured sizes can exceed the buffers.
\<close>

section \<open>Captured sizes\<close>

function expert_sizes_from :: "nat \<Rightarrow> nat \<Rightarrow> nat list" where
  "expert_sizes_from m bsz = (if bsz < m \<and> 0 < bsz then bsz # expert_sizes_from m (bsz * 2) else [bsz])"
  by auto
termination by (relation "measure (\<lambda>(m, bsz). m - bsz)") auto

declare expert_sizes_from.simps [simp del]

definition expert_graph_batch_sizes :: "nat \<Rightarrow> nat list res" where
  "expert_graph_batch_sizes m =
     rbind (py_assert (m > 0)) (\<lambda>_. Ok (if m \<le> 128 then [m] else expert_sizes_from m 128))"

section \<open>Buffers\<close>

record expert_graphs =
  eg_sizes :: "nat list"
  eg_batch_sizes :: "int list"
  eg_hiddens :: "vec list"
  eg_m_indices :: "int list"
  eg_graphs :: "nat \<rightharpoonup> (nat \<times> int) option list"
  eg_static_outputs :: "nat \<rightharpoonup> int list"
  eg_outputs :: "nat \<times> int \<Rightarrow> vec list"

definition create_expert_buffers ::
  "bool \<Rightarrow> (nat \<Rightarrow> int) \<times> (nat \<Rightarrow> vec) \<times> (nat \<Rightarrow> int) \<Rightarrow> (nat \<times> int \<Rightarrow> vec list) \<Rightarrow> experts_executor \<Rightarrow> expert_graphs res" where
  "create_expert_buffers is_bf16 junk junk_out ee =
     (let (jb, jh, jm) = junk; max_batch_size = ee_max_batch_size ee in
      rbind (py_assert is_bf16) (\<lambda>_.
      rbind (expert_graph_batch_sizes max_batch_size) (\<lambda>sizes.
      Ok \<lparr> eg_sizes = sizes, eg_batch_sizes = map jb [0..<length (ee_local_to_global ee)], eg_hiddens = map jh [0..<max_batch_size],
           eg_m_indices = map jm [0..<max_batch_size],
           eg_graphs = (\<lambda>b. if b \<in> set sizes then Some (replicate (length (ee_layer_ids ee)) None) else None),
           eg_static_outputs = (\<lambda>b. if b \<in> set sizes then Some [] else None), eg_outputs = junk_out \<rparr>)))"

text \<open>The kernel: rows of the batch, the sizes, and the indices padded with the first expert.\<close>

definition copy_and_pad :: "vec list \<Rightarrow> int list \<Rightarrow> int list \<Rightarrow> nat \<Rightarrow> expert_graphs \<Rightarrow> expert_graphs res" where
  "copy_and_pad hiddens batch_sizes m_indices bsz g =
     rbind (pad_copy batch_sizes (length batch_sizes) 0 (length batch_sizes) (eg_batch_sizes g)) (\<lambda>sizes.
     rbind (pad_copy m_indices (length hiddens) 0 bsz (eg_m_indices g)) (\<lambda>idx.
     rbind (pad_copy hiddens (length hiddens) (\<lambda>_. 0) (length hiddens) (eg_hiddens g)) (\<lambda>rows.
     Ok (g\<lparr>eg_batch_sizes := sizes, eg_m_indices := idx, eg_hiddens := rows\<rparr>))))"

definition expert_graph_preprocess :: "experts_executor \<Rightarrow> vec list \<Rightarrow> int list \<Rightarrow> int list \<Rightarrow> nat \<Rightarrow> expert_graphs \<Rightarrow> expert_graphs res" where
  "expert_graph_preprocess ee hiddens batch_sizes m_indices bucket g =
     (if ee_cls ee = MoEExpertsCUTLASS \<or> ee_cls ee = MoEExpertsCUTLASSFP8 then
        rbind (slice_set (eg_hiddens g) 0 (length hiddens) hiddens) (\<lambda>rows.
        rbind (slice_set (eg_batch_sizes g) 0 (length (eg_batch_sizes g)) batch_sizes) (\<lambda>sizes.
        rbind (py_get (ee_operators ee) 0) (\<lambda>op0.
        rbind (if ex_bias op0 \<noteq> None then slice_set (eg_m_indices g) 0 (length hiddens) m_indices else Ok (eg_m_indices g)) (\<lambda>idx.
        Ok (g\<lparr>eg_hiddens := rows, eg_batch_sizes := sizes, eg_m_indices := idx\<rparr>)))))
      else copy_and_pad hiddens batch_sizes m_indices bucket g)"

section \<open>Capture and replay\<close>

text \<open>The call a graph records.\<close>

definition expert_run_once :: "expert_kernels \<Rightarrow> experts_executor \<Rightarrow> nat \<times> int \<Rightarrow> expert_graphs \<Rightarrow> vec list res" where
  "expert_run_once ks ee c g =
     (let (b, lid) = c in
      experts_execute_eager ks ee
        \<lparr> eb_layer_id = lid, eb_num_tokens = b, eb_data = take b (eg_hiddens g), eb_batch_sizes = eg_batch_sizes g, eb_m_indices = take b (eg_m_indices g) \<rparr>)"

type_synonym expert_replayer = "(expert_graphs \<Rightarrow> vec list res) \<Rightarrow> expert_graphs \<Rightarrow> vec list res"

definition capture_expert_layer :: "expert_kernels \<Rightarrow> experts_executor \<Rightarrow> nat \<Rightarrow> expert_graphs \<Rightarrow> int \<Rightarrow> expert_graphs res" where
  "capture_expert_layer ks ee b g lid =
     rbind (dict_get (eg_graphs g) b) (\<lambda>graph_list.
     rbind (py_get graph_list lid) (\<lambda>graph.
     rbind (expert_run_once ks ee (b, lid) g) (\<lambda>_.
     rbind (expert_run_once ks ee (b, lid) g) (\<lambda>_.
     rbind (if lid = 0 then Ok () else rbind (py_get graph_list 0) (\<lambda>g0. if g0 = None then Raise RuntimeError else Ok ())) (\<lambda>_.
     rbind (if graph = None then Ok () else Raise RuntimeError) (\<lambda>_.
     rbind (expert_run_once ks ee (b, lid) g) (\<lambda>_.
     rbind (py_set graph_list lid (Some (b, lid))) (\<lambda>graph_list.
     rbind (dict_get (eg_static_outputs g) b) (\<lambda>outs.
     Ok (g\<lparr>eg_graphs := (eg_graphs g)(b \<mapsto> graph_list), eg_static_outputs := (eg_static_outputs g)(b \<mapsto> outs @ [lid])\<rparr>))))))))))"

text \<open>The dummy rows of a size are an argument.\<close>

definition expert_capture :: "expert_kernels \<Rightarrow> (nat \<Rightarrow> vec list) \<Rightarrow> experts_executor \<Rightarrow> expert_graphs \<Rightarrow> expert_graphs res" where
  "expert_capture ks dummy ee g =
     foldM (\<lambda>g b.
       rbind (make_expert_dummy_inputs b (length (ee_local_to_global ee))) (\<lambda>(_, batch_sizes, m_indices).
       rbind (expert_graph_preprocess ee (dummy b) (map int batch_sizes) (map int m_indices) b g) (\<lambda>g.
       foldM (capture_expert_layer ks ee b) g (ee_layer_ids ee)))) g (eg_sizes g)"

definition expert_graph_run ::
  "expert_kernels \<Rightarrow> expert_replayer \<Rightarrow> experts_executor \<Rightarrow> expert_graphs \<Rightarrow> int \<Rightarrow> vec list \<Rightarrow> int list \<Rightarrow> int list \<Rightarrow> (expert_graphs \<times> vec list) res" where
  "expert_graph_run ks replay ee g lid hiddens batch_sizes m_indices =
     rbind (get_bucket_by_num_tokens (eg_sizes g) (length hiddens)) (\<lambda>b.
     rbind (expert_graph_preprocess ee hiddens batch_sizes m_indices b g) (\<lambda>g.
     rbind (dict_get (eg_graphs g) b) (\<lambda>graph_list.
     rbind (py_get graph_list lid) (\<lambda>graph.
     case graph of None \<Rightarrow> Raise RuntimeError
     | Some c \<Rightarrow> rbind (replay (expert_run_once ks ee c) g) (\<lambda>out.
       (let g = g\<lparr>eg_outputs := (eg_outputs g)(c := out)\<rparr> in
        rbind (dict_get (eg_static_outputs g) b) (\<lambda>outs.
        rbind (py_get outs lid) (\<lambda>l.
        Ok (g, take (length hiddens) (eg_outputs g (b, l)))))))))))"

definition test_expert_graph ::
  "expert_kernels \<Rightarrow> expert_replayer \<Rightarrow> (nat \<Rightarrow> vec list) \<Rightarrow> experts_executor \<Rightarrow> expert_graphs \<Rightarrow> expert_graphs res" where
  "test_expert_graph ks replay dummy ee g =
     foldM (\<lambda>g (lid, b).
       rbind (make_expert_dummy_inputs b (length (ee_local_to_global ee))) (\<lambda>(_, batch_sizes, m_indices).
       rbind (expert_graph_run ks replay ee g lid (dummy b) (map int batch_sizes) (map int m_indices)) (\<lambda>(g, _). Ok g)))
     g (List.product (ee_layer_ids ee) (eg_sizes g))"

section \<open>Sizes and buffers\<close>

lemma expert_sizes_ascend:
  assumes "0 < bsz"
  shows "sorted_wrt (<) (expert_sizes_from m bsz) \<and> (\<forall>x \<in> set (expert_sizes_from m bsz). bsz \<le> x) \<and> (\<exists>x \<in> set (expert_sizes_from m bsz). m \<le> x)"
  using assms
proof (induction m bsz rule: expert_sizes_from.induct)
  case (1 m bsz)
  show ?case
  proof (cases "bsz < m")
    case True
    note ih = 1(1)[OF conjI[OF True 1(2)]]
    have "\<forall>x \<in> set (expert_sizes_from m (bsz * 2)). bsz < x" using ih 1(2) by fastforce
    then show ?thesis using ih 1(2) True by (subst (1 2 3) expert_sizes_from.simps) (auto intro: less_imp_le)
  next
    case False
    then show ?thesis by (subst (1 2 3) expert_sizes_from.simps) simp
  qed
qed

lemma expert_sizes_ok:
  assumes "0 < m"
  shows "\<exists>sizes. expert_graph_batch_sizes m = Ok sizes \<and> sorted_wrt (<) sizes \<and> (\<exists>x \<in> set sizes. m \<le> x)"
  using expert_sizes_ascend[of 128 m] assms by (auto simp: expert_graph_batch_sizes_def)

text \<open>
  The sizes of a limit of 200 are 128 and 256, and a batch of 150 rows, which the limit allows, makes the kernel write indices outside the
  buffer of 200 entries.
\<close>

lemma expert_graph_overflow:
  assumes "length (eg_batch_sizes g) = 1" and "length (eg_m_indices g) = 200" and "length (eg_hiddens g) = 200" and "eg_sizes g = [128, 256]"
    and "ee_cls ee = MoEExpertsDeepGemmBF16" and "length hiddens = 150" and "length m_indices = 150"
  shows "expert_graph_batch_sizes 200 = Ok [128, 256] \<and> expert_graph_run ks replay ee g lid hiddens [150] m_indices = Raise IndexError"
proof -
  have s: "expert_graph_batch_sizes 200 = Ok [128, 256]" by (simp add: expert_graph_batch_sizes_def expert_sizes_from.simps)
  let ?step = "\<lambda>dst i. rbind (if i < 150 then vec_get m_indices (int i) else Ok 0) (vec_set dst (int i))"
  have l: "\<exists>d. foldM ?step (eg_m_indices g) [0..<200] = Ok d \<and> length d = 200"
    using foldM_writes[of 200 "eg_m_indices g" "\<lambda>i. if i < 150 then vec_get m_indices (int i) else Ok 0" "\<lambda>i. if i < 150 then m_indices ! i else 0"] assms(2,7)
    by (simp del: upt_rec_numeral)
  then obtain d where d: "foldM ?step (eg_m_indices g) [0..<200] = Ok d" "length d = 200" by blast
  have "[0..<256] = [0..<200] @ [200..<256]" using upt_add_eq_append[of 0 200 56] by (simp del: upt_rec_numeral)
  moreover have "[200..<256] = 200 # [201..<256]" by (simp add: upt_conv_Cons del: upt_rec_numeral)
  ultimately have "foldM ?step (eg_m_indices g) [0..<256] = Raise IndexError"
    using d by (simp add: vec_set_def del: upt_rec_numeral)
  then have "pad_copy m_indices 150 0 256 (eg_m_indices g) = Raise IndexError" unfolding pad_copy_def .
  moreover have "pad_copy [150] 1 0 1 (eg_batch_sizes g) = Ok [150]" using pad_copy_Ok[of 1 "[150]" 1 "eg_batch_sizes g" 0] assms(1) by simp
  ultimately show ?thesis using s assms by (simp add: expert_graph_run_def expert_graph_preprocess_def copy_and_pad_def del: upt_rec_numeral)
qed

section \<open>Rows of a padded expert batch\<close>

lemma gemm_prefix:
  assumes "gemm_contract gemm" and "\<forall>n \<in> set ns. 0 \<le> n" and "sum_list ns = int n" and "n \<le> length a" and "length c = length a"
  shows "take n (gemm K W (gemm_args 0 ns) a c) = map2 (\<lambda>x e. matvec K x (W (nat e))) (take n a) (expand 0 ns)"
    and "length (gemm K W (gemm_args 0 ns) a c) = length a"
proof -
  have ok: "groups_ok (gemm_args 0 ns) (length a)"
    unfolding groups_ok_def using gemm_args_range[OF assms(2), of _ _ 0] gemm_args_sorted[OF assms(2)] assms(3,4) by fastforce
  have l: "length (expand 0 ns) = n" using expand_length[OF assms(2), of 0] assms(3) by simp
  note c = assms(1)[unfolded gemm_contract_def, rule_format, OF ok assms(5), of K W]
  show len: "length (gemm K W (gemm_args 0 ns) a c) = length a" using c by simp
  show "take n (gemm K W (gemm_args 0 ns) a c) = map2 (\<lambda>x e. matvec K x (W (nat e))) (take n a) (expand 0 ns)"
  proof (rule nth_equalityI)
    fix r assume "r < length (take n (gemm K W (gemm_args 0 ns) a c))"
    then have r: "r < n" "r < length a" using len assms(4) by simp_all
    obtain j where j: "j < length ns" "expand 0 ns ! r = int j" "snd (gemm_args 0 ns ! j) \<le> int r"
      "int r < snd (gemm_args 0 ns ! j) + fst (gemm_args 0 ns ! j)"
      using expand_group[OF assms(2), of r 0 0] r l by auto
    then show "take n (gemm K W (gemm_args 0 ns) a c) ! r = map2 (\<lambda>x e. matvec K x (W (nat e))) (take n a) (expand 0 ns) ! r"
      using c r l by simp
  qed (use len l assms(4) in simp)
qed

lemma take_map2: "take n (map2 f xs ys) = map2 f (take n xs) (take n ys)"
  by (simp add: take_map take_zip)

lemma cutlass_padded:
  assumes "gemm_contract gemm" and "bias_ok ex" and "\<forall>n \<in> set ns. 0 \<le> n" and "sum_list ns = int n" and "n \<le> length hiddens" and "length ns = ex_num ex"
    and "ex_bias ex \<noteq> None \<longrightarrow> length m = length hiddens \<and> take n m = expand 0 ns \<and> (\<forall>e \<in> set m. 0 \<le> e \<and> e < int (ex_num ex))"
  shows "\<exists>out. cutlass_forward gemm junk ex (length hiddens) hiddens ns (Some m) = Ok out \<and> length out = length hiddens
    \<and> take n out = ffn_rows ex (take n hiddens) (expand 0 ns)"
proof -
  note g = gemm_prefix[OF assms(1,3,4)]
  let ?c = "replicate (length hiddens) junk" and ?act = "apply_glu_activation (ex_isz ex) (ex_limit ex) (ex_alpha ex)"
  let ?up = "gemm (ex_hidden ex) (ex_w13 ex) (gemm_args 0 ns) hiddens ?c"
  have u: "take n ?up = map2 (\<lambda>x e. matvec (ex_hidden ex) x (ex_w13 ex (nat e))) (take n hiddens) (expand 0 ns)" "length ?up = length hiddens"
    using g[of hiddens ?c] assms(5) by simp_all
  show ?thesis
  proof (cases "ex_bias ex")
    case None
    let ?dn = "gemm (ex_isz ex) (ex_w2 ex) (gemm_args 0 ns) (map ?act ?up) ?c"
    have "take n ?dn = ffn_rows ex (take n hiddens) (expand 0 ns)" "length ?dn = length hiddens"
      using g[of "map ?act ?up" ?c] assms(5) u
      by (simp_all add: take_map ffn_rows_def expert_ffn_def None map2_compose_map Let_def del: map_map)
    then show ?thesis by (simp add: cutlass_forward_def None Let_def)
  next
    case (Some bias)
    obtain b13 b2 where b: "ex_bias ex = Some (b13, b2)" using Some by (cases bias) auto
    have r: "\<forall>e \<in> set m. 0 \<le> e \<and> e < int (length b13)" "\<forall>e \<in> set m. 0 \<le> e \<and> e < int (length b2)" "length m = length hiddens" "take n m = expand 0 ns"
      using assms(2,7) b by (auto simp: bias_ok_def)
    let ?ub = "map2 (\<lambda>x e. vadd x (b13 ! nat e)) ?up m"
    let ?dn = "gemm (ex_isz ex) (ex_w2 ex) (gemm_args 0 ns) (map ?act ?ub) ?c"
    have d: "take n ?dn = map2 (\<lambda>x e. matvec (ex_isz ex) x (ex_w2 ex (nat e))) (take n (map ?act ?ub)) (expand 0 ns)" "length ?dn = length hiddens"
      using g[of "map ?act ?ub" ?c] assms(5) u(2) r(3) by simp_all
    have "cutlass_forward gemm junk ex (length hiddens) hiddens ns (Some m) = Ok (map2 (\<lambda>x e. vadd x (b2 ! nat e)) ?dn m)"
      using add_bias_rows[OF _ r(1), of ?up] add_bias_rows[OF _ r(2), of ?dn] u(2) d(2) r(3) by (simp add: cutlass_forward_def b Let_def)
    moreover have "take n (map2 (\<lambda>x e. vadd x (b2 ! nat e)) ?dn m) = ffn_rows ex (take n hiddens) (expand 0 ns)"
      unfolding take_map2
      unfolding d(1) r(4) take_map[of n ?act]
      unfolding take_map2
      unfolding u(1) r(4)
      by (simp add: ffn_rows_def expert_ffn_def b map2_compose map2_compose_map Let_def del: map_map)
    ultimately show ?thesis using d(2) r(3) by simp
  qed
qed

text \<open>Graphs of all sizes and layers, over buffers that hold every size.\<close>

definition expert_graphs_ready :: "nat \<Rightarrow> nat \<Rightarrow> experts_executor \<Rightarrow> expert_graphs \<Rightarrow> bool" where
  "expert_graphs_ready L M ee g \<longleftrightarrow> ee_layer_mappings ee = map int [0..<L] \<and> length (ee_operators ee) = L \<and> 0 < L
     \<and> sorted_wrt (<) (eg_sizes g) \<and> (\<forall>b \<in> set (eg_sizes g). b \<le> M) \<and> length (eg_hiddens g) = M \<and> length (eg_m_indices g) = M
     \<and> length (eg_batch_sizes g) = length (ee_local_to_global ee)
     \<and> (\<forall>e \<in> set (eg_m_indices g). 0 \<le> e \<and> e < int (length (ee_local_to_global ee)))
     \<and> (\<forall>ex \<in> set (ee_operators ee). ex_num ex = length (ee_local_to_global ee) \<and> bias_ok ex \<and> (ex_bias ex \<noteq> None \<longleftrightarrow> ee_expert_bias ee))
     \<and> (\<forall>b \<in> set (eg_sizes g). eg_graphs g b = Some (map (\<lambda>l. Some (b, int l)) [0..<L]) \<and> eg_static_outputs g b = Some (map int [0..<L]))"

lemma expert_preprocess_cutlass:
  assumes "expert_graphs_ready L M ee g" and "ee_cls ee = MoEExpertsCUTLASS" and "length hiddens = n" and "n \<le> M"
    and "length ns = length (ee_local_to_global ee)" and "length m = n"
  shows "expert_graph_preprocess ee hiddens ns m b g = Ok (g\<lparr>eg_hiddens := hiddens @ drop n (eg_hiddens g), eg_batch_sizes := ns,
    eg_m_indices := (if ee_expert_bias ee then m @ drop n (eg_m_indices g) else eg_m_indices g)\<rparr>)"
proof -
  note r = assms(1)[unfolded expert_graphs_ready_def]
  have op: "py_get (ee_operators ee) 0 = Ok (ee_operators ee ! 0)" "(ex_bias (ee_operators ee ! 0) \<noteq> None) = ee_expert_bias ee"
    using r by (auto simp: py_get_nonneg)
  have h: "slice_set (eg_hiddens g) 0 n hiddens = Ok (hiddens @ drop n (eg_hiddens g))" "slice_set (eg_m_indices g) 0 n m = Ok (m @ drop n (eg_m_indices g))"
    "slice_set (eg_batch_sizes g) 0 (length (eg_batch_sizes g)) ns = Ok ns"
    using r assms(3-6) by (simp_all add: slice_set_prefix slice_set_all)
  show ?thesis
    unfolding expert_graph_preprocess_def assms(3) using assms(2) h op by simp
qed

lemma expert_preprocess_deep:
  assumes "expert_graphs_ready L M ee g" and "ee_cls ee = MoEExpertsDeepGemmBF16" and "length hiddens = n" and "n \<le> b" and "b \<le> M"
    and "length ns = length (ee_local_to_global ee)" and "length m = n"
  shows "expert_graph_preprocess ee hiddens ns m b g = Ok (g\<lparr>eg_batch_sizes := ns,
    eg_m_indices := m @ replicate (b - n) 0 @ drop b (eg_m_indices g), eg_hiddens := hiddens @ drop n (eg_hiddens g)\<rparr>)"
proof -
  note r = assms(1)[unfolded expert_graphs_ready_def]
  have "pad_copy ns (length ns) 0 (length ns) (eg_batch_sizes g) = Ok ns"
    "pad_copy m n 0 b (eg_m_indices g) = Ok (m @ replicate (b - n) 0 @ drop b (eg_m_indices g))"
    "pad_copy hiddens n (\<lambda>_. 0) n (eg_hiddens g) = Ok (hiddens @ drop n (eg_hiddens g))"
    using r assms(3-7) by (simp_all add: pad_copy_Ok)
  then show ?thesis unfolding expert_graph_preprocess_def copy_and_pad_def assms(3) using assms(2) by simp
qed

text \<open>The classes whose products have contracts here.\<close>

definition graph_cls :: "experts_executor \<Rightarrow> bool" where
  "graph_cls ee \<longleftrightarrow> ee_cls ee = MoEExpertsCUTLASS
     \<or> (ee_cls ee = MoEExpertsDeepGemmBF16 \<and> \<not> ee_expert_bias ee \<and> (\<forall>ex \<in> set (ee_operators ee). ex_limit ex = None))"

lemma expert_eager_rows:
  assumes "gemm_contract (k_gemm ks)" and "dgemm_contract (k_dgemm ks)" and "expert_graphs_ready L M ee g" and "graph_cls ee" and "v < L"
    and "\<forall>k \<in> set ns. 0 \<le> k" and "sum_list ns = int n" and "length ns = length (ee_local_to_global ee)" and "length H = b" and "n \<le> b"
    and "ee_expert_bias ee \<or> ee_cls ee = MoEExpertsDeepGemmBF16 \<longrightarrow> length m = b \<and> take n m = expand 0 ns
      \<and> (\<forall>e \<in> set m. 0 \<le> e \<and> e < int (length (ee_local_to_global ee)))"
  shows "\<exists>out. experts_execute_eager ks ee \<lparr> eb_layer_id = int v, eb_num_tokens = b, eb_data = H, eb_batch_sizes = ns, eb_m_indices = m \<rparr> = Ok out
    \<and> length out = b \<and> take n out = ffn_rows (ee_operators ee ! v) (take n H) (expand 0 ns)"
proof -
  note r = assms(3)[unfolded expert_graphs_ready_def]
  let ?op = "ee_operators ee ! v"
  have py: "py_get (ee_layer_mappings ee) (int v) = Ok (int v)" "py_get (ee_operators ee) (int v) = Ok ?op" using r assms(5) by (simp_all add: py_get_nat)
  have op: "?op \<in> set (ee_operators ee)" using r assms(5) by simp
  then have ex: "ex_num ?op = length (ee_local_to_global ee)" "bias_ok ?op" "(ex_bias ?op \<noteq> None) = ee_expert_bias ee" using r by blast+
  show ?thesis
  proof (cases "ee_cls ee = MoEExpertsCUTLASS")
    case True
    have m: "ex_bias ?op \<noteq> None \<longrightarrow> length m = length H \<and> take n m = expand 0 ns \<and> (\<forall>e \<in> set m. 0 \<le> e \<and> e < int (ex_num ?op))"
      unfolding ex(1,3) assms(9) using assms(11) by blast
    from cutlass_padded[OF assms(1) ex(2) assms(6,7) _ _ m] show ?thesis
      using assms(8-10) ex(1) True by (simp add: experts_execute_eager_def py)
  next
    case False
    then have d: "ee_cls ee = MoEExpertsDeepGemmBF16" "ex_bias ?op = None" "ex_limit ?op = None" using assms(4) op ex(3) unfolding graph_cls_def by blast+
    then have m: "length m = length H" "\<forall>e \<in> set m. 0 \<le> e" "take n m = expand 0 ns" using assms(9,11) by auto
    have "experts_execute_eager ks ee \<lparr> eb_layer_id = int v, eb_num_tokens = b, eb_data = H, eb_batch_sizes = ns, eb_m_indices = m \<rparr> = Ok (ffn_rows ?op H m)"
      using deep_gemm_rows[OF assms(2) d(2,3) m(1,2)] assms(9) d(1) by (simp add: experts_execute_eager_def py)
    moreover have "take n (ffn_rows ?op H m) = ffn_rows ?op (take n H) (expand 0 ns)" "length (ffn_rows ?op H m) = b"
      using m(1,3) assms(9) by (simp_all add: ffn_rows_def take_map2)
    ultimately show ?thesis by simp
  qed
qed

text \<open>The buffers after a batch was copied in.\<close>

lemma expert_preprocess_Ok:
  assumes "expert_graphs_ready L M ee g" and "graph_cls ee" and "length hiddens = n" and "n \<le> b" and "b \<le> M"
    and "\<forall>k \<in> set ns. 0 \<le> k" and "sum_list ns = int n" and "length ns = length (ee_local_to_global ee)"
  shows "\<exists>g'. expert_graph_preprocess ee hiddens ns (expand 0 ns) b g = Ok g' \<and> expert_graphs_ready L M ee g' \<and> eg_sizes g' = eg_sizes g
    \<and> take n (eg_hiddens g') = hiddens \<and> eg_batch_sizes g' = ns
    \<and> (ee_expert_bias ee \<or> ee_cls ee = MoEExpertsDeepGemmBF16 \<longrightarrow> take n (eg_m_indices g') = expand 0 ns)"
proof -
  note r = assms(1)[unfolded expert_graphs_ready_def]
  let ?es = "expand 0 ns"
  have le: "length ?es = n" using expand_length[OF assms(6), of 0] assms(7) by simp
  have re: "\<forall>e \<in> set ?es. 0 \<le> e \<and> e < int (length (ee_local_to_global ee))" using expand_range[of _ 0 ns] assms(8) by auto
  have rd: "\<forall>e \<in> set (drop k (eg_m_indices g)). 0 \<le> e \<and> e < int (length (ee_local_to_global ee))" for k
    using r in_set_dropD[of _ k "eg_m_indices g"] by blast
  have rz: "\<forall>e \<in> set (replicate (b - n) (0::int)). 0 \<le> e \<and> e < int (length (ee_local_to_global ee))"
  proof (cases "M = 0")
    case False
    then have "eg_m_indices g ! 0 \<in> set (eg_m_indices g)" using r by (intro nth_mem) simp
    then have "0 < length (ee_local_to_global ee)" using r by force
    then show ?thesis by simp
  qed (use assms(5) in simp)
  show ?thesis
  proof (cases "ee_cls ee = MoEExpertsCUTLASS")
    case True
    show ?thesis
      using expert_preprocess_cutlass[OF assms(1) True assms(3) _ assms(8) le, of b] assms(3-5,8) r re rd[of n] le True
      by (simp add: expert_graphs_ready_def ball_Un)
  next
    case False
    then have d: "ee_cls ee = MoEExpertsDeepGemmBF16" using assms(2) by (auto simp: graph_cls_def)
    show ?thesis
      using expert_preprocess_deep[OF assms(1) d assms(3-5,8) le] assms(3-5,8) r re rd[of b] rz le
      by (simp add: expert_graphs_ready_def ball_Un)
  qed
qed


text \<open>An instance: the CUTLASS class with biases on two layers, sizes 2 and 4, and three rows.\<close>

definition demo_expert_executor :: experts_executor where
  "demo_expert_executor = demo_executor\<lparr>ee_layer_ids := [0, 1], ee_layer_mappings := [0, 1]\<rparr>"

definition demo_expert_graphs :: expert_graphs where
  "demo_expert_graphs = \<lparr> eg_sizes = [2, 4], eg_batch_sizes = [0, 0], eg_hiddens = replicate 4 (\<lambda>_. 0), eg_m_indices = [0, 1, 0, 1],
     eg_graphs = (\<lambda>b. if b = 2 \<or> b = 4 then Some (map (\<lambda>l. Some (b, int l)) [0..<2]) else None),
     eg_static_outputs = (\<lambda>b. if b = 2 \<or> b = 4 then Some (map int [0..<2]) else None), eg_outputs = (\<lambda>_. []) \<rparr>"

lemma demo_expert_graphs_ready: "expert_graphs_ready 2 4 demo_expert_executor demo_expert_graphs"
  by (simp add: expert_graphs_ready_def demo_expert_executor_def demo_expert_graphs_def demo_executor_def demo_experts_def bias_ok_def numeral_2_eq_2)


end
