(* ===== verification/Token_Ops.thy ===== *)
theory Token_Ops
  imports Experts
begin

text \<open>
  The kernels that move token rows (\<^verbatim>\<open>csrc/cuda_ops/permute.cu\<close>, \<^verbatim>\<open>csrc/cuda_ops/gather_and_sum.cu\<close>) and the routines of
  \<^verbatim>\<open>disagmoe/ops/memory.py\<close> around them. A launch is a grid of blocks, one per row and chunk of the row; a block is four warps of 32 lanes that each
  move vectors of four elements. Rows are functions of the element index; rounding is not modelled. The blocks of a launch are run in order. Sources that the kernels reach through
  pointers are the list of the rows they point to. The main results are that the offsets of a block are exactly its chunk, once each, and that
  the kernels put every row where its mapping says, whole when the hidden size is a multiple of the chunk.
\<close>

section \<open>Moving one row\<close>

definition chunk_size :: "nat \<Rightarrow> nat" where
  "chunk_size hidden_size =
     (if hidden_size mod 2048 = 0 then 2048
      else if hidden_size mod 960 = 0 then 960
      else if hidden_size mod 512 = 0 then 512
      else if hidden_size mod 256 = 0 then 256
      else 128)"

text \<open>The loop of a lane: from its number, in steps of the warp size.\<close>

function lane_loop :: "nat \<Rightarrow> nat \<Rightarrow> nat list" where
  "lane_loop i task_per_warp = (if i < task_per_warp then i # lane_loop (i + 32) task_per_warp else [])"
  by auto
termination by (relation "measure (\<lambda>(i, t). t - i)") auto

declare lane_loop.simps [simp del]

text \<open>The elements a block with 128 threads touches: its vectors warp by warp and lane by lane, four elements each.\<close>

definition chunk_vectors :: "nat \<Rightarrow> nat list" where
  "chunk_vectors chunk =
     (let task_per_warp = chunk div 4 div 4 in
      concat (map (\<lambda>wid. concat (map (\<lambda>lane. map (\<lambda>i. wid * task_per_warp + i) (lane_loop lane task_per_warp)) [0..<32])) [0..<4]))"

definition chunk_offsets :: "nat \<Rightarrow> nat \<Rightarrow> nat list" where
  "chunk_offsets chunk chunk_id = concat (map (\<lambda>v. map (\<lambda>e. chunk_id * chunk + v * 4 + e) [0..<4]) (chunk_vectors chunk))"

text \<open>One block; \<open>f\<close> is what happens to an element: nothing, or the product with the weight of the row.\<close>

definition move_one_token :: "nat \<Rightarrow> (real \<Rightarrow> real) \<Rightarrow> vec \<Rightarrow> vec \<Rightarrow> nat \<Rightarrow> vec" where
  "move_one_token chunk f src dest chunk_id = foldl (\<lambda>d j. d(j := f (src j))) dest (chunk_offsets chunk chunk_id)"

text \<open>All the blocks of one row.\<close>

definition move_row :: "nat \<Rightarrow> (real \<Rightarrow> real) \<Rightarrow> vec \<Rightarrow> vec \<Rightarrow> vec" where
  "move_row hidden_size f src dest =
     foldl (move_one_token (chunk_size hidden_size) f src) dest [0..<hidden_size div chunk_size hidden_size]"

section \<open>The launches\<close>

text \<open>
  \<open>permute_tokens\<close>: the output is a fresh tensor. A mapping outside the output is an access out of range. The division of the sizes faults for
  no input rows.
\<close>

definition permute_tokens :: "nat \<Rightarrow> (nat \<Rightarrow> vec) \<Rightarrow> vec list \<Rightarrow> int list \<Rightarrow> vec list res" where
  "permute_tokens hidden_size junk tokens mappings =
     (let num_input = length tokens; num_output = length mappings in
      if num_input = 0 then Raise ZeroDivisionError
      else rbind (c_assert (num_output mod num_input = 0)) (\<lambda>_.
        rbind (c_assert (hidden_size > 0)) (\<lambda>_.
        (let topk = num_output div num_input in
         foldM (\<lambda>out token_id.
             rbind (vec_get mappings (int token_id)) (\<lambda>p.
             rbind (vec_get tokens (int (token_id div topk))) (\<lambda>src.
             rbind (vec_get out p) (\<lambda>dest. vec_set out p (move_row hidden_size id src dest)))))
           (map junk [0..<num_output]) [0..<num_output]))))"

definition apply_weights_and_permute_tokens :: "nat \<Rightarrow> (nat \<Rightarrow> vec) \<Rightarrow> vec list \<Rightarrow> real list \<Rightarrow> int list \<Rightarrow> vec list res" where
  "apply_weights_and_permute_tokens hidden_size junk tokens weights mappings =
     (let num_tokens = length tokens in
      rbind (c_assert (hidden_size > 0)) (\<lambda>_.
      foldM (\<lambda>out token_id.
          rbind (vec_get mappings (int token_id)) (\<lambda>p.
          rbind (vec_get weights (int token_id)) (\<lambda>w.
          rbind (vec_get tokens (int token_id)) (\<lambda>src.
          rbind (vec_get out p) (\<lambda>dest. vec_set out p (move_row hidden_size (\<lambda>x. x * w) src dest))))))
        (map junk [0..<num_tokens]) [0..<num_tokens]))"

definition gather_tokens :: "nat \<Rightarrow> vec list \<Rightarrow> vec list \<Rightarrow> nat \<Rightarrow> vec list res" where
  "gather_tokens hidden_size dest srcs num_tokens =
     rbind (c_assert (hidden_size > 0)) (\<lambda>_.
     foldM (\<lambda>out token_id.
         rbind (vec_get srcs (int token_id)) (\<lambda>src.
         rbind (vec_get out (int token_id)) (\<lambda>d. vec_set out (int token_id) (move_row hidden_size id src d))))
       dest [0..<num_tokens])"

text \<open>A block of the fused kernel copies the chunk of the first row and adds the chunks of the others.\<close>

definition add_chunk :: "nat \<Rightarrow> nat \<Rightarrow> vec \<Rightarrow> vec \<Rightarrow> vec" where
  "add_chunk chunk chunk_id d src = foldl (\<lambda>d j. d(j := src j + d j)) d (chunk_offsets chunk chunk_id)"

definition sum_row :: "nat \<Rightarrow> vec \<Rightarrow> vec list \<Rightarrow> vec \<Rightarrow> vec" where
  "sum_row hidden_size first rest dest =
     (let chunk = chunk_size hidden_size in
      foldl (\<lambda>d chunk_id. foldl (add_chunk chunk chunk_id) (move_one_token chunk id first d chunk_id) rest) dest
        [0..<hidden_size div chunk])"

definition gather_and_sum_tokens :: "nat \<Rightarrow> vec list \<Rightarrow> vec list \<Rightarrow> nat \<Rightarrow> nat \<Rightarrow> vec list res" where
  "gather_and_sum_tokens hidden_size dest srcs n topk =
     rbind (c_assert (hidden_size > 0)) (\<lambda>_.
     foldM (\<lambda>out i.
         rbind (vec_get srcs (int (i * topk))) (\<lambda>first.
         rbind (mapM (\<lambda>k. vec_get srcs (int (i * topk + k))) [1..<topk]) (\<lambda>rest.
         rbind (vec_get out (int i)) (\<lambda>d. vec_set out (int i) (sum_row hidden_size first rest d)))))
       dest [0..<n])"

section \<open>Mappings computed from expert ids\<close>

text \<open>\<open>memory.py\<close>: counts, running sums, and one position per row, taken from the end of the range of its expert.\<close>

definition get_mappings_from_exp_ids :: "int list \<Rightarrow> nat \<Rightarrow> (int list \<times> int list) res" where
  "get_mappings_from_exp_ids exp_ids num_experts =
     rbind (foldM (\<lambda>c e. rbind (py_get c e) (\<lambda>k. py_set c e (k + 1))) (replicate num_experts 0) exp_ids) (\<lambda>exp_cnt.
     rbind (py_get exp_cnt 0) (\<lambda>c0.
     rbind (py_set (replicate num_experts 0) 0 c0) (\<lambda>exp_cumsum.
     rbind (foldM (\<lambda>s i. rbind (py_get s (int i - 1)) (\<lambda>a. rbind (py_get exp_cnt (int i)) (\<lambda>c. py_set s (int i) (a + c))))
              exp_cumsum [1..<num_experts]) (\<lambda>exp_cumsum.
     rbind (foldM (\<lambda>(s, m) (i, e).
              rbind (py_get s e) (\<lambda>a. rbind (py_set s e (a - 1)) (\<lambda>s.
              rbind (py_set m (int i) (a - 1)) (\<lambda>m. Ok (s, m)))))
            (exp_cumsum, replicate (length exp_ids) 0) (enumerate 0 exp_ids)) (\<lambda>(_, mappings).
     Ok (mappings, exp_cnt))))))"

text \<open>The variant for tensors takes the source positions \<open>rankings\<close> that sorting returns, and inverts them.\<close>

definition get_mappings_from_exp_ids_cuda :: "(int list \<Rightarrow> int list) \<Rightarrow> int list \<Rightarrow> int list res" where
  "get_mappings_from_exp_ids_cuda sort_indices exp_ids =
     (let rankings = sort_indices exp_ids; idx = map int [0..<length rankings] in
      foldM (\<lambda>m (r, i). if r < 0 then Raise IndexError else py_set m r i) idx (zip rankings idx))"

section \<open>The offsets of a block\<close>

lemma lane_loop_set: "set (lane_loop i t) = {j. i \<le> j \<and> j < t \<and> 32 dvd (j - i)}"
proof (induction i t rule: lane_loop.induct)
  case (1 i t)
  show ?case
  proof (cases "i < t")
    case True
    have "{j. i \<le> j \<and> j < t \<and> 32 dvd (j - i)} = insert i {j. i + 32 \<le> j \<and> j < t \<and> 32 dvd (j - (i + 32))}"
    proof (intro set_eqI iffI)
      fix j assume "j \<in> {j. i \<le> j \<and> j < t \<and> 32 dvd (j - i)}"
      then have j: "i \<le> j" "j < t" "32 dvd (j - i)" by auto
      from j(3) obtain k where k: "j - i = 32 * k" by (auto elim: dvdE)
      show "j \<in> insert i {j. i + 32 \<le> j \<and> j < t \<and> 32 dvd (j - (i + 32))}"
      proof (cases k)
        case 0
        then show ?thesis using k j by simp
      next
        case (Suc m)
        then have "i + 32 \<le> j" "j - (i + 32) = 32 * m" using k by simp_all
        then show ?thesis using j by simp
      qed
    next
      fix j assume "j \<in> insert i {j. i + 32 \<le> j \<and> j < t \<and> 32 dvd (j - (i + 32))}"
      then consider "j = i" | "i + 32 \<le> j" "j < t" "32 dvd (j - (i + 32))" by auto
      then show "j \<in> {j. i \<le> j \<and> j < t \<and> 32 dvd (j - i)}"
      proof cases
        case 2
        then have "32 dvd (j - (i + 32) + 32)" by (intro dvd_add) auto
        moreover have "j - (i + 32) + 32 = j - i" using 2 by simp
        ultimately show ?thesis using 2 by simp
      qed (use True in simp)
    qed
    then show ?thesis using True 1 by (subst lane_loop.simps) auto
  qed (subst lane_loop.simps, auto)
qed

lemma lane_loop_distinct: "distinct (lane_loop i t)"
proof (induction i t rule: lane_loop.induct)
  case (1 i t)
  then show ?case by (subst lane_loop.simps) (auto simp: lane_loop_set)
qed

lemma lane_loop_mod: "lane < 32 \<Longrightarrow> set (lane_loop lane t) = {j. j < t \<and> j mod 32 = lane}"
proof -
  assume l: "lane < 32"
  have "lane \<le> j \<and> 32 dvd (j - lane) \<longleftrightarrow> j mod 32 = lane" for j :: nat
  proof
    assume a: "lane \<le> j \<and> 32 dvd (j - lane)"
    then have "j mod 32 = lane mod 32" by (simp add: mod_eq_dvd_iff_nat)
    then show "j mod 32 = lane" using l by simp
  next
    assume a: "j mod 32 = lane"
    then have "lane \<le> j" by auto
    moreover have "j mod 32 = lane mod 32" using a l by simp
    ultimately show "lane \<le> j \<and> 32 dvd (j - lane)" by (simp add: mod_eq_dvd_iff_nat)
  qed
  then show ?thesis by (auto simp: lane_loop_set)
qed

text \<open>A concatenation over disjoint parts has no repetition.\<close>

lemma distinct_concat_parts:
  assumes "distinct xs" and "\<And>x. x \<in> set xs \<Longrightarrow> distinct (f x)"
    and "\<And>x y z. x \<in> set xs \<Longrightarrow> y \<in> set xs \<Longrightarrow> z \<in> set (f x) \<Longrightarrow> z \<in> set (f y) \<Longrightarrow> x = y"
  shows "distinct (concat (map f xs))"
  using assms by (induction xs) auto

lemma warp_split: "0 < t \<Longrightarrow> v = w * t + i \<Longrightarrow> i < t \<Longrightarrow> w = v div t \<and> i = v mod t" for v :: nat
  by simp

lemma mod_lane: "k mod 32 \<in> {0..<32}" for k :: nat
  by simp

lemma warp_set: "set (concat (map (\<lambda>lane. map (\<lambda>i. w * t + i) (lane_loop lane t)) [0..<32])) = {w * t..<w * t + t}"
proof (intro set_eqI iffI)
  fix v assume "v \<in> {w * t..<w * t + t}"
  then have v: "w * t \<le> v" "v - w * t < t" by auto
  let ?i = "v - w * t"
  have "?i \<in> set (lane_loop (?i mod 32) t)" using v(2) by (simp add: lane_loop_mod)
  then have m: "v \<in> set (map (\<lambda>i. w * t + i) (lane_loop (?i mod 32) t))" using v(1) by (auto simp: image_iff intro!: bexI[of _ ?i])
  have l: "?i mod 32 \<in> set [0..<32]" unfolding set_upt by (rule mod_lane)
  show "v \<in> set (concat (map (\<lambda>lane. map (\<lambda>i. w * t + i) (lane_loop lane t)) [0..<32]))"
    unfolding set_concat set_map[of _ "[0..<32]"] using imageI[OF l, of "\<lambda>lane. map (\<lambda>i. w * t + i) (lane_loop lane t)"] m by (rule UN_I)
qed (auto simp: lane_loop_set simp del: upt_rec_numeral)

lemma UN_intervals: "(\<Union>w < n. {w * t..<w * t + t}) = {..<n * t}" for n t :: nat
  by (induction n) (auto simp: lessThan_Suc)

lemma chunk_vectors_set: "16 dvd chunk \<Longrightarrow> set (chunk_vectors chunk) = {..<chunk div 4}"
proof -
  assume d: "16 dvd chunk"
  then obtain t where t: "chunk = 16 * t" by (auto elim: dvdE)
  have c: "chunk div 4 div 4 = t" "chunk div 4 = 4 * t" using t by simp_all
  have "set (chunk_vectors chunk) = (\<Union>w < 4. {w * t..<w * t + t})"
    unfolding chunk_vectors_def c Let_def set_concat[of "map _ [0..<4]"] set_map[of _ "[0..<4]"] image_image warp_set by (simp add: atLeast0LessThan)
  also have "\<dots> = {..<4 * t}" by (rule UN_intervals)
  finally show ?thesis using c by simp
qed

lemma chunk_vectors_distinct: "distinct (chunk_vectors chunk)"
proof -
  define t where "t = chunk div 4 div 4"
  have inner: "distinct (concat (map (\<lambda>lane. map (\<lambda>i. w * t + i) (lane_loop lane t)) [0..<32]))" for w
  proof (rule distinct_concat_parts)
    show "distinct (map (\<lambda>i. w * t + i) (lane_loop lane t))" for lane by (simp add: distinct_map lane_loop_distinct)
    fix x y z assume "x \<in> set [0..<32]" "y \<in> set [0..<32]" "z \<in> set (map (\<lambda>i. w * t + i) (lane_loop x t))" "z \<in> set (map (\<lambda>i. w * t + i) (lane_loop y t))"
    then show "x = y" by (auto simp: lane_loop_mod simp del: upt_rec_numeral)
  qed (simp del: upt_rec_numeral)
  have "distinct (concat (map (\<lambda>wid. concat (map (\<lambda>lane. map (\<lambda>i. wid * t + i) (lane_loop lane t)) [0..<32])) [0..<4]))"
  proof (rule distinct_concat_parts)
    fix x y z
    assume "z \<in> set (concat (map (\<lambda>lane. map (\<lambda>i. x * t + i) (lane_loop lane t)) [0..<32]))"
      and "z \<in> set (concat (map (\<lambda>lane. map (\<lambda>i. y * t + i) (lane_loop lane t)) [0..<32]))"
    then have "x * t \<le> z" "z - x * t < t" "y * t \<le> z" "z - y * t < t" unfolding warp_set by auto
    then show "x = y" using warp_split[of t z x "z - x * t"] warp_split[of t z y "z - y * t"] by auto
  qed (use inner in auto)
  then show ?thesis by (simp add: chunk_vectors_def t_def Let_def)
qed

text \<open>A block touches every element of its chunk exactly once, and nothing else.\<close>

lemma chunk_offsets_range:
  "x \<in> set (chunk_offsets chunk c) \<longleftrightarrow> (\<exists>v \<in> set (chunk_vectors chunk). c * chunk + v * 4 \<le> x \<and> x < c * chunk + v * 4 + 4)"
  by (auto simp: chunk_offsets_def)

lemma chunk_offsets_set: "16 dvd chunk \<Longrightarrow> set (chunk_offsets chunk c) = {c * chunk..<c * chunk + chunk}"
proof (intro set_eqI iffI)
  fix x assume d: "16 dvd chunk" and "x \<in> {c * chunk..<c * chunk + chunk}"
  then obtain y where y: "x = c * chunk + y" "y < chunk" by (metis add_diff_inverse_nat atLeastLessThan_iff nat_add_left_cancel_less not_le)
  have "y div 4 < chunk div 4" using y(2) d by (auto simp: less_mult_imp_div_less elim!: dvdE)
  then have "y div 4 \<in> set (chunk_vectors chunk)" using chunk_vectors_set[OF d] by simp
  moreover have "c * chunk + y div 4 * 4 \<le> x" "x < c * chunk + y div 4 * 4 + 4" unfolding y(1) by simp_all
  ultimately show "x \<in> set (chunk_offsets chunk c)" unfolding chunk_offsets_range by blast
next
  fix x assume d: "16 dvd chunk" and "x \<in> set (chunk_offsets chunk c)"
  then obtain v where v: "v < chunk div 4" "c * chunk + v * 4 \<le> x" "x < c * chunk + v * 4 + 4"
    unfolding chunk_offsets_range chunk_vectors_set[OF d] by blast
  have "v * 4 + 4 \<le> chunk" using v(1) by simp
  then show "x \<in> {c * chunk..<c * chunk + chunk}" using v by simp
qed

lemma chunk_offsets_distinct: "distinct (chunk_offsets chunk c)"
  unfolding chunk_offsets_def
proof (rule distinct_concat_parts)
  fix x y z assume "z \<in> set (map (\<lambda>e. c * chunk + x * 4 + e) [0..<4])" "z \<in> set (map (\<lambda>e. c * chunk + y * 4 + e) [0..<4])"
  then have "c * chunk + x * 4 \<le> z" "z < c * chunk + x * 4 + 4" "c * chunk + y * 4 \<le> z" "z < c * chunk + y * 4 + 4" by auto
  then have "c * chunk + x * 4 < c * chunk + y * 4 + 4" "c * chunk + y * 4 < c * chunk + x * 4 + 4" by simp_all
  then show "x = y" by simp
qed (simp_all add: distinct_map chunk_vectors_distinct)

lemma dvd_if: "k dvd a \<Longrightarrow> k dvd b \<Longrightarrow> k dvd (if c then a else b)" for k a b :: nat
  by simp

lemma chunk_size_16: "16 dvd chunk_size h"
  unfolding chunk_size_def by (intro dvd_if) simp_all

lemma chunk_size_pos: "0 < chunk_size h"
  by (simp add: chunk_size_def)

section \<open>Rows moved\<close>

lemma foldl_fun_writes: "foldl (\<lambda>d j. d(j := g j)) d js = (\<lambda>j. if j \<in> set js then g j else d j)"
  by (induction js arbitrary: d) auto

lemma move_one_token_chunk:
  "16 dvd chunk \<Longrightarrow> move_one_token chunk f src d c = (\<lambda>j. if c * chunk \<le> j \<and> j < c * chunk + chunk then f (src j) else d j)"
  by (simp add: move_one_token_def foldl_fun_writes chunk_offsets_set)

text \<open>The part of a row the blocks cover: all of it exactly when the chunk divides the hidden size.\<close>

definition moved_width :: "nat \<Rightarrow> nat" where
  "moved_width h = h div chunk_size h * chunk_size h"

definition width_ok :: "nat \<Rightarrow> bool" where
  "width_ok h \<longleftrightarrow> 0 < h \<and> chunk_size h dvd h"

lemma moved_width_ok: "width_ok h \<Longrightarrow> moved_width h = h"
  by (simp add: moved_width_def width_ok_def)

lemma dvd_128: "2048 dvd h \<or> 512 dvd h \<or> 256 dvd h \<Longrightarrow> 128 dvd h" for h :: nat
proof (elim disjE)
  show "2048 dvd h \<Longrightarrow> 128 dvd h" by (rule dvd_trans[of 128 2048 h]) simp
  show "512 dvd h \<Longrightarrow> 128 dvd h" by (rule dvd_trans[of 128 512 h]) simp
  show "256 dvd h \<Longrightarrow> 128 dvd h" by (rule dvd_trans[of 128 256 h]) simp
qed

lemma width_ok_iff: "width_ok h \<longleftrightarrow> 0 < h \<and> (128 dvd h \<or> 960 dvd h)"
proof -
  have "chunk_size h dvd h \<longleftrightarrow> 2048 dvd h \<or> 960 dvd h \<or> 512 dvd h \<or> 256 dvd h \<or> 128 dvd h"
    unfolding chunk_size_def mod_eq_0_iff_dvd by (cases "2048 dvd h"; cases "960 dvd h"; cases "512 dvd h"; cases "256 dvd h"; simp only: if_True if_False simp_thms)
  then show ?thesis unfolding width_ok_def using dvd_128 by blast
qed

text \<open>Blocks that each set their own chunk set the whole width.\<close>

lemma foldl_chunks:
  assumes "\<And>d c. step d c = (\<lambda>j. if c * k \<le> j \<and> j < c * k + k then g j else d j)"
  shows "foldl step d [0..<m] = (\<lambda>j. if j < m * k then g j else d j)"
proof (induction m)
  case (Suc m)
  then show ?case by (auto simp: assms)
qed simp

lemma move_row_eq: "move_row h f src d = (\<lambda>j. if j < moved_width h then f (src j) else d j)"
  unfolding move_row_def moved_width_def by (rule foldl_chunks) (rule move_one_token_chunk[OF chunk_size_16])

lemma add_chunk_eq: "16 dvd chunk \<Longrightarrow> add_chunk chunk c d src = (\<lambda>j. if c * chunk \<le> j \<and> j < c * chunk + chunk then src j + d j else d j)"
proof -
  have "distinct js \<Longrightarrow> foldl (\<lambda>d j. d(j := src j + d j)) d js = (\<lambda>j. if j \<in> set js then src j + d j else d j)" for js d
    by (induction js arbitrary: d) auto
  then show "16 dvd chunk \<Longrightarrow> ?thesis" unfolding add_chunk_def by (simp add: chunk_offsets_distinct chunk_offsets_set)
qed

lemma foldl_add_chunk:
  assumes "16 dvd chunk"
  shows "foldl (add_chunk chunk c) d rest = (\<lambda>j. if c * chunk \<le> j \<and> j < c * chunk + chunk then d j + (\<Sum>r \<leftarrow> rest. r j) else d j)"
  by (induction rest arbitrary: d) (auto simp: add_chunk_eq[OF assms])

lemma sum_row_eq: "sum_row h first rest d = (\<lambda>j. if j < moved_width h then (\<Sum>r \<leftarrow> first # rest. r j) else d j)"
  unfolding sum_row_def moved_width_def Let_def
proof (rule foldl_chunks)
  fix d c
  show "foldl (add_chunk (chunk_size h) c) (move_one_token (chunk_size h) id first d c) rest
      = (\<lambda>j. if c * chunk_size h \<le> j \<and> j < c * chunk_size h + chunk_size h then (\<Sum>r \<leftarrow> first # rest. r j) else d j)"
    by (auto simp: foldl_add_chunk[OF chunk_size_16] move_one_token_chunk[OF chunk_size_16])
qed

section \<open>What the launches compute\<close>

text \<open>Equality of two rows on the hidden size.\<close>

definition same_row :: "nat \<Rightarrow> vec \<Rightarrow> vec \<Rightarrow> bool" where
  "same_row h x y \<longleftrightarrow> (\<forall>j < h. x j = y j)"

lemma same_row_refl [simp]: "same_row h x x"
  by (simp add: same_row_def)

lemma same_row_trans: "same_row h x y \<Longrightarrow> same_row h y z \<Longrightarrow> same_row h x z"
  by (simp add: same_row_def)

text \<open>Rows written at distinct positions stay.\<close>

lemma scatter_rows:
  assumes "bij_positions ps" and "length out = length ps" and "\<And>t. t < length ps \<Longrightarrow> get t = Ok (v t)"
    and "\<And>x d. same_row h (upd x d) (val x)" and "n \<le> length ps"
  shows "\<exists>r. foldM (\<lambda>out t. rbind (vec_get ps (int t)) (\<lambda>p. rbind (get t) (\<lambda>x. rbind (vec_get out p) (\<lambda>d. vec_set out p (upd x d))))) out [0..<n] = Ok r
    \<and> length r = length ps \<and> (\<forall>t < n. same_row h (r ! nat (ps ! t)) (val (v t)))"
  using assms(5)
proof (induction n)
  case 0
  then show ?case using assms(2) by simp
next
  case (Suc n)
  then obtain r where r: "foldM (\<lambda>out t. rbind (vec_get ps (int t)) (\<lambda>p. rbind (get t) (\<lambda>x. rbind (vec_get out p) (\<lambda>d. vec_set out p (upd x d))))) out [0..<n] = Ok r"
    "length r = length ps" "\<forall>t < n. same_row h (r ! nat (ps ! t)) (val (v t))" by auto
  let ?p = "ps ! n"
  have p: "0 \<le> ?p" "nat ?p < length r" using bij_positions_range[OF assms(1), of n] Suc.prems r(2) by auto
  have g: "vec_get ps (int n) = Ok ?p" "get n = Ok (v n)" using Suc.prems assms(3) by simp_all
  have w: "vec_get r ?p = Ok (r ! nat ?p)" "vec_set r ?p y = Ok (r[nat ?p := y])" for y
    using p vec_set_in[of "nat ?p" r] by (simp_all add: vec_get_def vec_set_def)
  have "same_row h (r[nat ?p := upd (v n) (r ! nat ?p)] ! nat (ps ! t)) (val (v t))" if t: "t < Suc n" for t
  proof (cases "t = n")
    case False
    then have "nat (ps ! t) \<noteq> nat ?p" using bij_positions_inj[OF assms(1), of t n] t Suc.prems by auto
    then show ?thesis using False t r(3) by simp
  qed (use p assms(4) in simp)
  then show ?case using r g w by simp
qed

lemma update_rows:
  assumes "\<And>t. t < n \<Longrightarrow> get t = Ok (v t)" and "n \<le> length out"
  shows "foldM (\<lambda>out t. rbind (get t) (\<lambda>x. rbind (vec_get out (int t)) (\<lambda>d. vec_set out (int t) (upd x d)))) out [0..<n]
    = Ok (map (\<lambda>t. upd (v t) (out ! t)) [0..<n] @ drop n out)"
  using assms
proof (induction n)
  case (Suc n)
  have d: "drop n out = out ! n # drop (Suc n) out" using Suc.prems(2) by (simp add: Cons_nth_drop_Suc)
  show ?case using Suc by (simp add: d list_update_append nth_append)
qed simp

lemma permute_tokens_rows:
  assumes "width_ok h" and "tokens \<noteq> []" and "length ps = length tokens * topk" and "0 < topk" and "bij_positions ps"
  shows "\<exists>out. permute_tokens h junk tokens ps = Ok out \<and> length out = length ps
    \<and> (\<forall>t < length ps. same_row h (out ! nat (ps ! t)) (tokens ! (t div topk)))"
proof -
  have k: "length ps mod length tokens = 0" "length ps div length tokens = topk" using assms(2,3) by simp_all
  have g: "vec_get tokens (int (t div topk)) = Ok (tokens ! (t div topk))" if "t < length ps" for t
    using that assms(3) by (simp add: less_mult_imp_div_less)
  have m: "same_row h (move_row h id x d) (id x)" for x d using moved_width_ok[OF assms(1)] by (simp add: same_row_def move_row_eq)
  have "0 < h" using assms(1) by (simp add: width_ok_def)
  then show ?thesis
    unfolding permute_tokens_def Let_def k(1,2)
    using scatter_rows[OF assms(5), of "map junk [0..<length ps]" "\<lambda>t. vec_get tokens (int (t div topk))" "\<lambda>t. tokens ! (t div topk)" h "move_row h id" id "length ps"] g m assms(2)
    by (simp add: c_assert_def)
qed

text \<open>The staging tensors may be longer than the batch.\<close>

lemma apply_weights_rows:
  assumes "width_ok h" and "length ps = length tokens" and "bij_positions ps" and "length ws = length tokens"
  shows "\<exists>out. apply_weights_and_permute_tokens h junk tokens (ws @ wpad) (ps @ pad) = Ok out \<and> length out = length ps
    \<and> (\<forall>t < length ps. same_row h (out ! nat (ps ! t)) (\<lambda>j. (tokens ! t) j * ws ! t))"
proof -
  let ?get = "\<lambda>t. rbind (vec_get (ws @ wpad) (int t)) (\<lambda>w. rbind (vec_get tokens (int t)) (\<lambda>x. Ok (w, x)))"
  let ?upd = "\<lambda>(w, x) d. move_row h (\<lambda>y. y * w) x d"
  have g: "?get t = Ok (ws ! t, tokens ! t)" if "t < length ps" for t
    using that assms(2,4) vec_get_in[of t "ws @ wpad"] by (simp add: nth_append)
  have m: "same_row h (?upd y d) ((\<lambda>(w, x) j. x j * w) y)" for y d
    using moved_width_ok[OF assms(1)] by (auto simp: same_row_def move_row_eq split: prod.splits)
  have h: "0 < h" using assms(1) by (simp add: width_ok_def)
  have f: "foldM (\<lambda>out token_id. rbind (vec_get (ps @ pad) (int token_id)) (\<lambda>p. rbind (vec_get (ws @ wpad) (int token_id)) (\<lambda>w.
        rbind (vec_get tokens (int token_id)) (\<lambda>src. rbind (vec_get out p) (\<lambda>dest. vec_set out p (move_row h (\<lambda>x. x * w) src dest)))))) out [0..<n]
      = foldM (\<lambda>out t. rbind (vec_get ps (int t)) (\<lambda>p. rbind (?get t) (\<lambda>x. rbind (vec_get out p) (\<lambda>d. vec_set out p (?upd x d))))) out [0..<n]"
    if "n \<le> length ps" for n out
    using that vec_get_in[of _ "ps @ pad"] by (induction n) (simp_all add: nth_append rbind_assoc)
  show ?thesis
    unfolding apply_weights_and_permute_tokens_def Let_def
    using scatter_rows[OF assms(3), of "map junk [0..<length tokens]" ?get _ h ?upd "\<lambda>(w, x) j. x j * w" "length ps"] g m f[of "length ps"] h assms(2)
    by (fastforce simp: c_assert_def)
qed

lemma gather_tokens_rows:
  assumes "width_ok h" and "length dest = length srcs"
  shows "\<exists>out. gather_tokens h dest srcs (length srcs) = Ok out \<and> length out = length srcs \<and> (\<forall>t < length srcs. same_row h (out ! t) (srcs ! t))"
proof -
  have "0 < h" using assms(1) by (simp add: width_ok_def)
  then show ?thesis
    unfolding gather_tokens_def using moved_width_ok[OF assms(1)] assms(2)
    by (simp add: c_assert_def update_rows[where v = "\<lambda>t. srcs ! t"] same_row_def move_row_eq)
qed

lemma gather_and_sum_rows:
  assumes "width_ok h" and "length dest = n" and "length srcs = n * topk" and "0 < topk"
  shows "\<exists>out. gather_and_sum_tokens h dest srcs n topk = Ok out \<and> length out = n
    \<and> (\<forall>i < n. same_row h (out ! i) (\<lambda>j. \<Sum>k \<leftarrow> [0..<topk]. (srcs ! (i * topk + k)) j))"
proof -
  let ?get = "\<lambda>i. rbind (vec_get srcs (int (i * topk))) (\<lambda>first. rbind (mapM (\<lambda>k. vec_get srcs (int (i * topk + k))) [1..<topk]) (\<lambda>rest. Ok (first, rest)))"
  have le: "i * topk + k < n * topk" if "i < n" "k < topk" for i k
  proof -
    have "Suc i * topk \<le> n * topk" using that(1) by (intro mult_right_mono) auto
    then show ?thesis using that(2) by simp
  qed
  have g: "?get i = Ok (srcs ! (i * topk), map (\<lambda>k. srcs ! (i * topk + k)) [1..<topk])" if i: "i < n" for i
  proof -
    have "mapM (\<lambda>k. vec_get srcs (int (i * topk + k))) [1..<topk] = Ok (map (\<lambda>k. srcs ! (i * topk + k)) [1..<topk])"
      using le[OF i] assms(3) vec_get_in[of _ srcs] by (intro mapM_Ok_map) (simp del: of_nat_add of_nat_mult)
    then show ?thesis using le[OF i, of 0] assms(3,4) vec_get_in[of "i * topk" srcs] by (simp del: of_nat_add of_nat_mult)
  qed
  have s: "[0..<topk] = 0 # [1..<topk]" using assms(4) by (simp add: upt_conv_Cons)
  have "0 < h" using assms(1) by (simp add: width_ok_def)
  then show ?thesis
    unfolding gather_and_sum_tokens_def using moved_width_ok[OF assms(1)] assms(2)
      update_rows[where get = ?get and upd = "\<lambda>(a, b). sum_row h a b", OF g, of n dest]
    by (simp add: c_assert_def rbind_assoc sum_row_eq same_row_def s comp_def del: upt_Suc)
qed

section \<open>Mappings\<close>

lemma count_ids:
  assumes "\<forall>e \<in> set es. 0 \<le> e \<and> e < int (length cs)"
  shows "foldM (\<lambda>c e. rbind (py_get c e) (\<lambda>k. py_set c e (k + 1))) cs es = Ok (map (\<lambda>k. cs ! k + int (count_list es (int k))) [0..<length cs])"
  using assms
proof (induction es arbitrary: cs)
  case Nil
  then show ?case by (simp add: map_nth)
next
  case (Cons e es)
  have e: "0 \<le> e" "e < int (length cs)" using Cons.prems by auto
  have "foldM (\<lambda>c e. rbind (py_get c e) (\<lambda>k. py_set c e (k + 1))) cs (e # es)
      = foldM (\<lambda>c e. rbind (py_get c e) (\<lambda>k. py_set c e (k + 1))) (cs[nat e := cs ! nat e + 1]) es"
    using e by (simp add: py_get_nonneg py_set_nonneg)
  also have "\<dots> = Ok (map (\<lambda>k. cs[nat e := cs ! nat e + 1] ! k + int (count_list es (int k))) [0..<length cs])"
    using Cons.IH[of "cs[nat e := cs ! nat e + 1]"] Cons.prems by simp
  also have "map (\<lambda>k. cs[nat e := cs ! nat e + 1] ! k + int (count_list es (int k))) [0..<length cs]
      = map (\<lambda>k. cs ! k + int (count_list (e # es) (int k))) [0..<length cs]"
    using e by (auto simp: nth_list_update)
  finally show ?case .
qed

text \<open>Running sums in place.\<close>

lemma running_sums:
  fixes cs :: "int list"
  assumes "length cs = n" and "1 \<le> m" and "m \<le> n"
  shows "foldM (\<lambda>s i. rbind (py_get s (int i - 1)) (\<lambda>a. rbind (py_get cs (int i)) (\<lambda>c. py_set s (int i) (a + c)))) (cs ! 0 # replicate (n - 1) 0) [1..<m]
    = Ok (map (\<lambda>k. \<Sum>i \<leftarrow> [0..<Suc k]. cs ! i) [0..<m] @ replicate (n - m) 0)"
  using assms(2,3)
proof (induction m rule: dec_induct)
  case base
  then show ?case by simp
next
  case (step m)
  let ?s = "map (\<lambda>k. \<Sum>i \<leftarrow> [0..<Suc k]. cs ! i) [0..<m] @ replicate (n - m) 0"
  have u: "[1..<Suc m] = [1..<m] @ [m]" using step.hyps by simp
  have a: "py_get ?s (int m - 1) = Ok (\<Sum>i \<leftarrow> [0..<m]. cs ! i)"
    using step.hyps step.prems py_get_nat[of "m - 1" ?s] by (cases m) (simp_all add: nth_append)
  have r: "replicate (n - m) (0 :: int) = 0 # replicate (n - Suc m) 0" using step.prems by (metis Suc_diff_le Suc_le_eq diff_Suc_Suc replicate_Suc)
  show ?case
    using step.IH step.prems a assms(1) py_set_nonneg[of "int m" ?s] py_get_nat[of m cs]
    unfolding u by (simp add: list_update_append nth_append) (simp add: r)
qed

lemma sums_below:
  assumes "\<forall>e \<in> set es. 0 \<le> e"
  shows "(\<Sum>i \<leftarrow> [0..<Suc k]. int (count_list es (int i))) = int (below es (int k + 1))"
proof -
  have "below es 0 = 0" using assms by (auto simp: below_def filter_empty_conv not_less)
  then show ?thesis
  proof (induction k)
    case 0
    then show ?case using below_Suc[of es 0] by simp
  next
    case (Suc k)
    then show ?case using below_Suc[of es "int k + 1"] by (simp add: add.commute)
  qed
qed

text \<open>The position a row gets: the last free one of its expert.\<close>

lemma last_position:
  assumes "i < length es"
  shows "rev (stable_positions (rev es)) ! i = int (below es (es ! i + 1)) - int (count_list (take i es) (es ! i)) - 1"
proof -
  let ?e = "es ! i"
  have b: "below (rev es) e = below es e" for e by (simp add: below_def rev_filter[symmetric])
  have "es = take i es @ ?e # drop (Suc i) es" using assms by (simp add: id_take_nth_drop)
  then have c: "count_list es ?e = count_list (take i es) ?e + 1 + count_list (drop (Suc i) es) ?e" by (metis count_list_append count_list.simps(2) add.assoc add.commute)
  have "rev (stable_positions (rev es)) ! i = stable_position (rev es) (length es - Suc i)" using assms by (simp add: rev_nth)
  also have "\<dots> = int (below es ?e + count_list (drop (Suc i) es) ?e)"
    using assms by (simp add: stable_position_def b rev_nth take_rev)
  finally show ?thesis using c below_Suc[of es ?e] by simp
qed

lemma positions_from_end:
  assumes "\<forall>e \<in> set es. 0 \<le> e \<and> e < int n" and "j \<le> length es"
  shows "foldM (\<lambda>(s, m) (i, e). rbind (py_get s e) (\<lambda>a. rbind (py_set s e (a - 1)) (\<lambda>s. rbind (py_set m (int i) (a - 1)) (\<lambda>m. Ok (s, m)))))
      (map (\<lambda>k. int (below es (int k + 1))) [0..<n], replicate (length es) 0) (enumerate 0 (take j es))
    = Ok (map (\<lambda>k. int (below es (int k + 1)) - int (count_list (take j es) (int k))) [0..<n],
          take j (rev (stable_positions (rev es))) @ replicate (length es - j) 0)"
  using assms(2)
proof (induction j)
  case (Suc j)
  let ?p = "rev (stable_positions (rev es))" and ?e = "es ! j"
  let ?s = "map (\<lambda>k. int (below es (int k + 1)) - int (count_list (take j es) (int k))) [0..<n]"
  have j: "j < length es" using Suc.prems by simp
  have e: "0 \<le> ?e" "?e < int n" using assms(1) j by auto
  have t: "enumerate 0 (take (Suc j) es) = enumerate 0 (take j es) @ [(j, ?e)]" using j by (simp add: take_Suc_conv_app_nth enumerate_append_eq)
  have g: "py_get ?s ?e = Ok (?p ! j + 1)" using e last_position[OF j] nth_upt[of 0 "nat ?e" n] by (simp add: py_get_nonneg)
  have s: "?s[nat ?e := ?p ! j] = map (\<lambda>k. int (below es (int k + 1)) - int (count_list (take (Suc j) es) (int k))) [0..<n]"
    using e j last_position[OF j] by (intro nth_equalityI) (auto simp: nth_list_update take_Suc_conv_app_nth)
  have r: "replicate (length es - j) (0 :: int) = 0 # replicate (length es - Suc j) 0" using j by (metis Suc_diff_Suc replicate_Suc)
  have m: "(take j ?p @ replicate (length es - j) 0)[j := ?p ! j] = take (Suc j) ?p @ replicate (length es - Suc j) 0"
    using j by (simp add: r list_update_append take_Suc_conv_app_nth)
  show ?case
    using Suc.IH j e s m unfolding t by (simp add: g py_set_nonneg)
qed simp

lemma get_mappings_eq:
  assumes "\<forall>e \<in> set es. 0 \<le> e \<and> e < int n" and "0 < n"
  shows "get_mappings_from_exp_ids es n = Ok (rev (stable_positions (rev es)), map (\<lambda>k. int (count_list es (int k))) [0..<n])"
proof -
  let ?c = "map (\<lambda>k. int (count_list es (int k))) [0..<n]"
  have c: "foldM (\<lambda>c e. rbind (py_get c e) (\<lambda>k. py_set c e (k + 1))) (replicate n 0) es = Ok ?c"
    using count_ids[of es "replicate n 0"] assms(1) by (simp cong: map_cong)
  have z: "py_get ?c 0 = Ok (?c ! 0)" "py_set (replicate n 0) 0 x = Ok (x # replicate (n - 1) 0)" for x :: int
    using assms(2) py_get_nat[of 0 ?c] by (simp, cases n) (simp_all add: py_set_nonneg)
  have "map (\<lambda>k. \<Sum>i \<leftarrow> [0..<Suc k]. ?c ! i) [0..<n] = map (\<lambda>k. int (below es (int k + 1))) [0..<n]"
  proof (rule map_cong)
    fix k assume "k \<in> set [0..<n]"
    then have "map (\<lambda>i. ?c ! i) [0..<Suc k] = map (\<lambda>i. int (count_list es (int i))) [0..<Suc k]" by (intro map_cong) auto
    then show "(\<Sum>i \<leftarrow> [0..<Suc k]. ?c ! i) = int (below es (int k + 1))" using sums_below[of es k] assms(1) by metis
  qed simp
  then have s: "foldM (\<lambda>s i. rbind (py_get s (int i - 1)) (\<lambda>a. rbind (py_get ?c (int i)) (\<lambda>c. py_set s (int i) (a + c)))) (?c ! 0 # replicate (n - 1) 0) [1..<n]
      = Ok (map (\<lambda>k. int (below es (int k + 1))) [0..<n])"
    using running_sums[of ?c n n] assms(2) by simp
  show ?thesis
    unfolding get_mappings_from_exp_ids_def c rbind_Ok z s using positions_from_end[OF assms(1) le_refl] by simp
qed

text \<open>The mapping is a permutation that orders the rows by expert; rows of one expert are reversed.\<close>

lemma get_mappings_sorts:
  assumes "\<forall>e \<in> set es. 0 \<le> e \<and> e < int n" and "0 < n"
  shows "\<exists>ps cnt. get_mappings_from_exp_ids es n = Ok (ps, cnt) \<and> length ps = length es \<and> bij_positions ps
    \<and> (\<forall>i j. i < length es \<and> j < length es \<and> (es ! i < es ! j \<or> es ! i = es ! j \<and> j < i) \<longrightarrow> ps ! i < ps ! j)"
proof -
  let ?r = "rev es" and ?ps = "rev (stable_positions (rev es))"
  have b: "bij_positions ?ps" using stable_positions_bij[of ?r] by (simp add: bij_positions_def)
  have "?ps ! i < ?ps ! j" if "i < length es" "j < length es" "es ! i < es ! j \<or> es ! i = es ! j \<and> j < i" for i j
    using that stable_position_less[of "length es - Suc i" ?r "length es - Suc j"] by (auto simp: rev_nth)
  then show ?thesis using get_mappings_eq[OF assms] b by simp
qed

text \<open>Inverting the source positions that a sort returns.\<close>

lemma get_mappings_cuda_inverse:
  assumes "bij_positions (sort_indices es)"
  shows "\<exists>m. get_mappings_from_exp_ids_cuda sort_indices es = Ok m \<and> length m = length (sort_indices es)
    \<and> (\<forall>i < length m. m ! nat (sort_indices es ! i) = int i)"
proof -
  let ?r = "sort_indices es"
  let ?d = "map int [0..<length ?r]"
  have "\<exists>m. foldM (\<lambda>m (r, i). if r < 0 then Raise IndexError else py_set m r i) ?d (take j (zip ?r ?d)) = Ok m \<and> placed j ?r ?d m" if "j \<le> length ?r" for j
    using that
  proof (induction j)
    case 0
    then show ?case by (simp add: placed_0)
  next
    case (Suc j)
    then obtain m where m: "foldM (\<lambda>m (r, i). if r < 0 then Raise IndexError else py_set m r i) ?d (take j (zip ?r ?d)) = Ok m" "placed j ?r ?d m" by auto
    have j: "j < length ?r" using Suc.prems by simp
    have t: "take (Suc j) (zip ?r ?d) = take j (zip ?r ?d) @ [(?r ! j, int j)]" using j by (simp add: take_Suc_conv_app_nth)
    have "\<not> ?r ! j < 0" "py_set m (?r ! j) (int j) = vec_set m (?r ! j) (?d ! j)"
      using bij_positions_range[OF assms j] m(2) j by (simp_all add: vec_set_def py_set_nonneg placed_def)
    then show ?case using m(1) placed_step[OF assms m(2) j] t by simp
  qed
  from this[of "length ?r"] obtain m where
    "foldM (\<lambda>m (r, i). if r < 0 then Raise IndexError else py_set m r i) ?d (zip ?r ?d) = Ok m" "placed (length ?r) ?r ?d m" by auto
  then show ?thesis by (auto simp: get_mappings_from_exp_ids_cuda_def placed_def Let_def)
qed

end
