(* ===== verification/Layer_Queue.thy ===== *)
theory Layer_Queue
  imports Token_Ops Datatypes
begin

text \<open>
  The queues of a worker: batches of token rows and their merging and splitting (\<^verbatim>\<open>csrc/include/batch.hpp\<close>), the queue of one layer
  (\<^verbatim>\<open>UnifiedLayer\<close> in \<^verbatim>\<open>csrc/muhelper/layer.cpp\<close>), the pool that collects the rows a token gets from its experts (\<^verbatim>\<open>TokenTopKPool\<close> in
  \<^verbatim>\<open>csrc/muhelper/muhelper.cpp\<close>), and the queues of all layers (\<^verbatim>\<open>UnifiedLayerSchedulerBase\<close>). A default-constructed batch, with no data
  and no metadata, is \<open>None\<close>. The width of a row is the dimension its metadata records. A pointer to a row is the row; a pointer that was never set is \<open>None\<close>. The sort of
  the standard library is a parameter, fresh device memory is an argument. The main results are that taking batches under a limit loses, repeats and reorders nothing, and that
  the pool turns the rows of every request into groups of \<open>top_k\<close>, in order of arrival.
\<close>

section \<open>Batches\<close>

type_synonym 'w batch = "(vec, 'w) token_batch"

text \<open>\<open>torch::split\<close>: the sizes must add up to the number of rows.\<close>

definition split_tensor_by_size :: "'a list \<Rightarrow> int list \<Rightarrow> 'a list list res" where
  "split_tensor_by_size rows sizes =
     (if (\<forall>s \<in> set sizes. 0 \<le> s) \<and> sum_list sizes = int (length rows) then split_from rows 0 sizes else Raise RuntimeError)"

definition tb_split_with_sizes :: "('h, 'w) token_batch \<Rightarrow> int list \<Rightarrow> ('h, 'w) token_batch list res" where
  "tb_split_with_sizes b sizes =
     rbind (split_with_sizes (tb_meta b) sizes) (\<lambda>metas.
     rbind (split_tensor_by_size (tb_data b) sizes) (\<lambda>token_chunks.
     Ok (map2 (\<lambda>d m. \<lparr> tb_data = d, tb_meta = m \<rparr>) token_chunks metas)))"

definition tb_split_by_expert :: "('h, 'w) token_batch \<Rightarrow> ('h, 'w) token_batch list res" where
  "tb_split_by_expert b = rbind (get_chunk_sizes (tb_meta b)) (tb_split_with_sizes b)"

text \<open>The source of every row of the merged batch, from the mapping of the rows of all the batches in turn.\<close>

definition merge_sources :: "nat \<Rightarrow> int list \<Rightarrow> ('h, 'w) token_batch list \<Rightarrow> 'h list res" where
  "merge_sources n mappings batches =
     rbind (foldM (\<lambda>st b. foldM (\<lambda>(srcs, idx) i.
                rbind (vec_get mappings (int idx)) (\<lambda>p.
                rbind (vec_get (tb_data b) i) (\<lambda>x.
                rbind (vec_set srcs p (Some x)) (\<lambda>srcs. Ok (srcs, idx + 1))))) st [0..md_rows (tb_meta b) - 1])
              (replicate n None, 0 :: nat) batches) (\<lambda>(srcs, _).
     mapM opt_value srcs)"

definition tb_merge_by_expert :: "(nat \<Rightarrow> vec) \<Rightarrow> 'w::zero batch list \<Rightarrow> 'w batch option res" where
  "tb_merge_by_expert junk batches =
     (case batches of
        [] \<Rightarrow> Ok None
      | [b] \<Rightarrow> Ok (Some b)
      | _ \<Rightarrow>
          rbind (merge_by_expert (map tb_meta batches)) (\<lambda>(m, mappings).
          (let n = nat (md_rows m) in
           rbind (merge_sources n mappings batches) (\<lambda>srcs.
           rbind (gather_tokens (nat (md_dim m)) (map junk [0..<n]) srcs n) (\<lambda>rows.
           Ok (Some \<lparr> tb_data = rows, tb_meta = m \<rparr>))))))"

text \<open>The rows \<open>l\<close> to \<open>r - 1\<close> of a batch become the sources from position \<open>p\<close> on.\<close>

definition put_sources :: "'h list \<Rightarrow> int \<Rightarrow> int \<Rightarrow> 'h option list \<times> int \<Rightarrow> ('h option list \<times> int) res" where
  "put_sources rows l r st =
     foldM (\<lambda>(srcs, p) i. rbind (vec_get rows i) (\<lambda>x. rbind (vec_set srcs p (Some x)) (\<lambda>srcs. Ok (srcs, p + 1)))) st [l..r - 1]"

definition tb_merge_by_attention :: "(nat \<Rightarrow> vec) \<Rightarrow> 'w batch list \<Rightarrow> 'w batch option res" where
  "tb_merge_by_attention junk batches =
     (case batches of
        [] \<Rightarrow> Ok None
      | [b] \<Rightarrow> Ok (Some b)
      | _ \<Rightarrow>
          rbind (merge_by_attention (map tb_meta batches)) (\<lambda>m.
          rbind (prefill_data_size m) (\<lambda>_.
          rbind (decode_data_size m) (\<lambda>_.
          rbind (opt_value (md_prefill_tokens m)) (\<lambda>decode_idx.
          (let n = nat (md_rows m) in
           rbind (foldM (\<lambda>(srcs, p, d) b.
                    rbind (opt_value (md_prefill_tokens (tb_meta b))) (\<lambda>np.
                    rbind (opt_value (md_decode_tokens (tb_meta b))) (\<lambda>nd.
                    rbind (put_sources (tb_data b) 0 np (srcs, p)) (\<lambda>(srcs, p).
                    rbind (put_sources (tb_data b) (max 0 np) (max 0 np + nd) (srcs, d)) (\<lambda>(srcs, d). Ok (srcs, p, d))))))
                  (replicate n None, 0, decode_idx) batches) (\<lambda>(srcs, _).
           rbind (mapM opt_value srcs) (\<lambda>srcs.
           rbind (gather_tokens (nat (md_dim m)) (map junk [0..<n]) srcs n) (\<lambda>rows.
           Ok (Some \<lparr> tb_data = rows, tb_meta = m \<rparr>))))))))))"

definition tb_merge :: "(nat \<Rightarrow> vec) \<Rightarrow> 'w::zero batch list \<Rightarrow> 'w batch option res" where
  "tb_merge junk batches =
     (case batches of
        [] \<Rightarrow> Ok None
      | [b] \<Rightarrow> Ok (Some b)
      | b # _ \<Rightarrow>
          (case md_tag (tb_meta b) of
             EXPERT \<Rightarrow> tb_merge_by_expert junk batches
           | ATTENTION \<Rightarrow> tb_merge_by_attention junk batches
           | TOKENIZER \<Rightarrow> Raise RuntimeError))"

section \<open>Tokens with their top-k rows\<close>

record topk_entry = topk_token +
  tk_rows :: "vec list"

definition topk_new :: "int \<Rightarrow> int \<Rightarrow> int \<Rightarrow> int \<Rightarrow> vec \<Rightarrow> topk_entry" where
  "topk_new seq prefill rank width x = \<lparr> tk_seq = seq, tk_prefill = prefill, tk_rank = rank, tk_dims = [width], tk_rows = [x] \<rparr>"

definition topk_append :: "topk_entry \<Rightarrow> int \<Rightarrow> vec \<Rightarrow> topk_entry" where
  "topk_append t width x = t\<lparr>tk_dims := tk_dims t @ [width], tk_rows := tk_rows t @ [x]\<rparr>"

definition topk_less :: "topk_entry \<Rightarrow> topk_entry \<Rightarrow> bool" where
  "topk_less a b =
     (if tk_prefill a = - 1 \<or> tk_prefill b = - 1 then tk_prefill a > tk_prefill b else tk_seq a < tk_seq b)"

type_synonym 'a sorter = "('a \<Rightarrow> 'a \<Rightarrow> bool) \<Rightarrow> 'a list \<Rightarrow> 'a list"

definition tb_pack_topk_tokens :: "topk_entry sorter \<Rightarrow> (nat \<Rightarrow> vec) \<Rightarrow> int \<Rightarrow> topk_entry list \<Rightarrow> 'w batch res" where
  "tb_pack_topk_tokens std_sort junk lid tokens =
     (let tokens = std_sort topk_less tokens; n = length tokens in
      rbind (vec_get tokens 0) (\<lambda>t.
      (let topk = length (tk_rows t) in
       rbind (pack_topk_tokens lid (map topk_token.truncate tokens)) (\<lambda>m.
       rbind (c_assert (md_rows m = int n)) (\<lambda>_.
       rbind (mapM (\<lambda>t. mapM (\<lambda>k. vec_get (tk_rows t) (int k)) [0..<topk]) tokens) (\<lambda>srcs.
       rbind (gather_and_sum_tokens (nat (md_dim m)) (map junk [0..<n]) (concat srcs) n topk) (\<lambda>rows.
       Ok \<lparr> tb_data = rows, tb_meta = m \<rparr>)))))))"

record topk_pool =
  tp_top_k :: int
  tp_pool :: "int \<rightharpoonup> topk_entry"
  tp_ready :: "topk_entry list"

definition topk_pool_init :: "int \<Rightarrow> topk_pool" where
  "topk_pool_init k = \<lparr> tp_top_k = k, tp_pool = Map.empty, tp_ready = [] \<rparr>"

definition topk_put_row :: "'w batch \<Rightarrow> topk_pool \<Rightarrow> int \<Rightarrow> topk_pool res" where
  "topk_put_row b st i =
     (let m = tb_meta b in
      rbind (vec_get (md_reqs m) i) (\<lambda>seq_id.
      case tp_pool st seq_id of
        None \<Rightarrow>
          rbind (vec_get (md_prefills m) i) (\<lambda>prefill.
          rbind (vec_get (md_ranks m) i) (\<lambda>rank.
          rbind (vec_get (tb_data b) i) (\<lambda>x.
          Ok (st\<lparr>tp_pool := (tp_pool st)(seq_id \<mapsto> topk_new seq_id prefill rank (md_dim m) x)\<rparr>))))
      | Some t \<Rightarrow>
          rbind (vec_get (tb_data b) i) (\<lambda>x.
          (let t = topk_append t (md_dim m) x in
           if int (length (tk_rows t)) = tp_top_k st
           then Ok (st\<lparr>tp_ready := tp_ready st @ [t], tp_pool := (tp_pool st)(seq_id := None)\<rparr>)
           else Ok (st\<lparr>tp_pool := (tp_pool st)(seq_id \<mapsto> t)\<rparr>)))))"

definition topk_put_batch :: "topk_pool \<Rightarrow> 'w batch \<Rightarrow> topk_pool res" where
  "topk_put_batch st b =
     (let m = tb_meta b; n = md_rows m in
      rbind (c_assert (int (length (tb_data b)) = n)) (\<lambda>_.
      rbind (c_assert (n = int (length (md_reqs m)))) (\<lambda>_.
      rbind (c_assert (n = int (length (md_ranks m)))) (\<lambda>_.
      rbind (c_assert (n = int (length (md_prefills m)))) (\<lambda>_.
      foldM (topk_put_row b) st [0..n - 1])))))"

definition fetch_ready_tokens :: "topk_pool \<Rightarrow> topk_entry list \<times> topk_pool" where
  "fetch_ready_tokens st = (tp_ready st, st\<lparr>tp_ready := []\<rparr>)"

section \<open>The queue of a layer\<close>

datatype layer_type = ATTENTION_LAYER | EXPERT_LAYER

record 'w unified_layer =
  ul_type :: layer_type
  ul_layer_id :: int
  ul_expert_id :: int
  ul_num_tokens :: int
  ul_batches :: "'w batch list"
  ul_tokens :: "topk_entry list"

definition create_layer :: "layer_type \<Rightarrow> int \<Rightarrow> 'w unified_layer" where
  "create_layer ty lid = \<lparr> ul_type = ty, ul_layer_id = lid, ul_expert_id = - 1, ul_num_tokens = 0, ul_batches = [], ul_tokens = [] \<rparr>"

definition ul_add_batch :: "'w unified_layer \<Rightarrow> 'w batch \<Rightarrow> 'w unified_layer" where
  "ul_add_batch l b = l\<lparr>ul_batches := ul_batches l @ [b], ul_num_tokens := ul_num_tokens l + md_rows (tb_meta b)\<rparr>"

definition get_all_batches :: "'w unified_layer \<Rightarrow> 'w batch list \<times> 'w unified_layer" where
  "get_all_batches l = (ul_batches l, l\<lparr>ul_batches := [], ul_num_tokens := 0\<rparr>)"

text \<open>
  The loop over the queue: the batches taken, the queue that is left, and the number of rows taken. A batch that does not fit is split, its
  first part has exactly the rows that were missing, and so the loop ends.
\<close>

fun take_batches :: "int \<Rightarrow> int \<Rightarrow> ('h, 'w) token_batch list \<Rightarrow> (('h, 'w) token_batch list \<times> ('h, 'w) token_batch list \<times> int) res" where
  "take_batches token_threshold total_tokens [] = Ok ([], [], total_tokens)"
| "take_batches token_threshold total_tokens (first # queue) =
     (if total_tokens < token_threshold then
        (let tokens_in_batch = md_rows (tb_meta first) in
         if total_tokens + tokens_in_batch > token_threshold then
           (let need = token_threshold - total_tokens in
            rbind (tb_split_with_sizes first [need, tokens_in_batch - need]) (\<lambda>batches.
            rbind (vec_get batches 0) (\<lambda>b0.
            rbind (vec_get batches 1) (\<lambda>b1.
            Ok ([b0], b1 # queue, total_tokens + md_rows (tb_meta b0))))))
         else
           rbind (take_batches token_threshold (total_tokens + tokens_in_batch) queue) (\<lambda>(result, rest, taken).
           Ok (first # result, rest, taken)))
      else Ok ([], first # queue, total_tokens))"

definition get_batches_restricted :: "int \<Rightarrow> 'w unified_layer \<Rightarrow> ('w batch list \<times> 'w unified_layer) res" where
  "get_batches_restricted token_threshold l =
     rbind (take_batches token_threshold 0 (ul_batches l)) (\<lambda>(result, queue, total_tokens).
     (let l = l\<lparr>ul_batches := queue, ul_num_tokens := ul_num_tokens l - total_tokens\<rparr> in
      rbind (c_assert (total_tokens > 0 \<and> length result > 0)) (\<lambda>_. Ok (result, l))))"

definition add_token :: "'w unified_layer \<Rightarrow> topk_entry \<Rightarrow> 'w unified_layer" where
  "add_token l t = l\<lparr>ul_tokens := ul_tokens l @ [t], ul_num_tokens := ul_num_tokens l + 1\<rparr>"

definition add_tokens :: "'w unified_layer \<Rightarrow> topk_entry list \<Rightarrow> 'w unified_layer" where
  "add_tokens l ts = foldl add_token l ts"

definition get_all_tokens :: "'w unified_layer \<Rightarrow> topk_entry list \<times> 'w unified_layer" where
  "get_all_tokens l = (ul_tokens l, l\<lparr>ul_tokens := [], ul_num_tokens := 0\<rparr>)"

fun take_tokens :: "int \<Rightarrow> int \<Rightarrow> 'a list \<Rightarrow> 'a list \<times> 'a list \<times> int" where
  "take_tokens token_threshold total_tokens [] = ([], [], total_tokens)"
| "take_tokens token_threshold total_tokens (t # queue) =
     (if total_tokens < token_threshold then
        (let (result, rest, taken) = take_tokens token_threshold (total_tokens + 1) queue in (t # result, rest, taken))
      else ([], t # queue, total_tokens))"

definition get_tokens_restricted :: "int \<Rightarrow> 'w unified_layer \<Rightarrow> topk_entry list \<times> 'w unified_layer" where
  "get_tokens_restricted token_threshold l =
     (let (result, queue, total_tokens) = take_tokens token_threshold 0 (ul_tokens l) in
      (result, l\<lparr>ul_tokens := queue, ul_num_tokens := ul_num_tokens l - total_tokens\<rparr>))"

section \<open>The queues of all layers\<close>

text \<open>
  \<open>UnifiedLayerSchedulerBase\<close>: the attention layers, then the expert layers, which the code also reaches through two vectors of their own.
\<close>

record 'w layer_queues =
  lq_num_attn :: nat
  lq_num_expert :: nat
  lq_top_k :: int
  lq_token_queue :: bool
  lq_layers :: "'w unified_layer list"

definition layer_queues_init :: "nat \<Rightarrow> nat \<Rightarrow> int \<Rightarrow> 'w layer_queues" where
  "layer_queues_init na ne topk =
     \<lparr> lq_num_attn = na, lq_num_expert = ne, lq_top_k = (if topk > 0 then topk else 1), lq_token_queue = (topk > 1),
       lq_layers = map (\<lambda>i. create_layer ATTENTION_LAYER (int i)) [0..<na] @ map (\<lambda>i. create_layer EXPERT_LAYER (int i)) [0..<ne] \<rparr>"

definition is_attn_layer :: "'w layer_queues \<Rightarrow> int \<Rightarrow> bool" where
  "is_attn_layer q lid \<longleftrightarrow> lid < int (lq_num_attn q)"

definition is_expert_layer :: "'w layer_queues \<Rightarrow> int \<Rightarrow> bool" where
  "is_expert_layer q lid \<longleftrightarrow> lid \<ge> int (lq_num_attn q)"

definition layer_uses_token_queue :: "'w layer_queues \<Rightarrow> int \<Rightarrow> bool" where
  "layer_uses_token_queue q lid \<longleftrightarrow> lq_token_queue q \<and> is_attn_layer q lid \<and> lid > 0"

definition get_pool_snapshot :: "'w layer_queues \<Rightarrow> int list" where
  "get_pool_snapshot q = map ul_num_tokens (lq_layers q)"

text \<open>Updating the queue of one layer.\<close>

definition update_layer :: "'w layer_queues \<Rightarrow> int \<Rightarrow> ('w unified_layer \<Rightarrow> 'w unified_layer) \<Rightarrow> 'w layer_queues res" where
  "update_layer q lid f =
     rbind (vec_get (lq_layers q) lid) (\<lambda>l. rbind (vec_set (lq_layers q) lid (f l)) (\<lambda>ls. Ok (q\<lparr>lq_layers := ls\<rparr>)))"

definition attn_add_tokens :: "'w layer_queues \<Rightarrow> int \<Rightarrow> topk_entry list \<Rightarrow> 'w layer_queues res" where
  "attn_add_tokens q lid ts =
     (if lid < int (lq_num_attn q) then update_layer q lid (\<lambda>l. add_tokens l ts) else Raise IndexError)"

definition lq_add_batch :: "'w layer_queues \<Rightarrow> 'w batch \<Rightarrow> 'w layer_queues res" where
  "lq_add_batch q b =
     (let lid = md_layer (tb_meta b) in
      case md_tag (tb_meta b) of
        ATTENTION \<Rightarrow> if lid < int (lq_num_attn q) then update_layer q lid (\<lambda>l. ul_add_batch l b) else Raise IndexError
      | EXPERT \<Rightarrow> if lid \<ge> 0 then update_layer q (int (lq_num_attn q) + lid) (\<lambda>l. ul_add_batch l b) else Raise IndexError
      | TOKENIZER \<Rightarrow> Raise RuntimeError)"

definition get_batch_from_layer ::
  "topk_entry sorter \<Rightarrow> (nat \<Rightarrow> vec) \<Rightarrow> 'w::zero layer_queues \<Rightarrow> int \<Rightarrow> ('w batch option \<times> 'w layer_queues) res" where
  "get_batch_from_layer std_sort junk q lid =
     (if lid < 0 \<or> lid \<ge> int (lq_num_attn q + lq_num_expert q) then Ok (None, q)
      else rbind (vec_get (lq_layers q) lid) (\<lambda>l.
        if layer_uses_token_queue q lid then
          (let (tokens, l) = get_all_tokens l in
           rbind (vec_set (lq_layers q) lid l) (\<lambda>ls.
           rbind (tb_pack_topk_tokens std_sort junk lid tokens) (\<lambda>b. Ok (Some b, q\<lparr>lq_layers := ls\<rparr>))))
        else
          (let (batches, l) = get_all_batches l in
           rbind (vec_set (lq_layers q) lid l) (\<lambda>ls.
           rbind (tb_merge junk batches) (\<lambda>b. Ok (b, q\<lparr>lq_layers := ls\<rparr>))))))"

definition get_batch_from_layer_restricted ::
  "topk_entry sorter \<Rightarrow> (nat \<Rightarrow> vec) \<Rightarrow> 'w::zero layer_queues \<Rightarrow> int \<Rightarrow> int \<Rightarrow> ('w batch option \<times> 'w layer_queues) res" where
  "get_batch_from_layer_restricted std_sort junk q lid token_threshold =
     (if lid < 0 \<or> lid \<ge> int (lq_num_attn q + lq_num_expert q) then Ok (None, q)
      else rbind (vec_get (lq_layers q) lid) (\<lambda>l.
        if layer_uses_token_queue q lid then
          (let (tokens, l) = get_tokens_restricted token_threshold l in
           rbind (vec_set (lq_layers q) lid l) (\<lambda>ls.
           rbind (tb_pack_topk_tokens std_sort junk lid tokens) (\<lambda>b. Ok (Some b, q\<lparr>lq_layers := ls\<rparr>))))
        else
          rbind (get_batches_restricted token_threshold l) (\<lambda>(batches, l).
          rbind (vec_set (lq_layers q) lid l) (\<lambda>ls.
          rbind (tb_merge junk batches) (\<lambda>b. Ok (b, q\<lparr>lq_layers := ls\<rparr>))))))"

section \<open>Rows of a batch\<close>

text \<open>Everything a batch holds about each of its rows; the lists it does not use give \<open>None\<close>.\<close>

definition nth_opt :: "'a list \<Rightarrow> nat \<Rightarrow> 'a option" where
  "nth_opt xs i = (if i < length xs then Some (xs ! i) else None)"

definition batch_row :: "('h, 'w) token_batch \<Rightarrow> nat \<Rightarrow> int \<times> int \<times> int option \<times> 'w option \<times> int option \<times> 'h" where
  "batch_row b i = (let m = tb_meta b in
     (md_reqs m ! i, md_prefills m ! i, nth_opt (md_exps m) i, nth_opt (md_weights m) i, nth_opt (md_ranks m) i, tb_data b ! i))"

definition batch_rows :: "('h, 'w) token_batch \<Rightarrow> (int \<times> int \<times> int option \<times> 'w option \<times> int option \<times> 'h) list" where
  "batch_rows b = map (batch_row b) [0..<length (tb_data b)]"

definition tb_wf :: "('h, 'w) token_batch \<Rightarrow> bool" where
  "tb_wf b \<longleftrightarrow> md_shape (tb_meta b) \<and> int (length (tb_data b)) = md_rows (tb_meta b)"

definition queue_rows :: "('h, 'w) token_batch list \<Rightarrow> (int \<times> int \<times> int option \<times> 'w option \<times> int option \<times> 'h) list" where
  "queue_rows bs = concat (map batch_rows bs)"

definition queue_size :: "('h, 'w) token_batch list \<Rightarrow> int" where
  "queue_size bs = sum_list (map (md_rows \<circ> tb_meta) bs)"

lemma batch_rows_length [simp]: "length (batch_rows b) = length (tb_data b)"
  by (simp add: batch_rows_def)

lemma queue_rows_simps [simp]: "queue_rows [] = []" "queue_rows (b # bs) = batch_rows b @ queue_rows bs"
  by (simp_all add: queue_rows_def)

lemma queue_size_simps [simp]: "queue_size [] = 0" "queue_size (b # bs) = md_rows (tb_meta b) + queue_size bs"
  by (simp_all add: queue_size_def)

lemma queue_rows_size: "\<forall>b \<in> set bs. tb_wf b \<Longrightarrow> int (length (queue_rows bs)) = queue_size bs"
  by (induction bs) (auto simp: tb_wf_def)

lemma tb_wf_rows: "tb_wf b \<Longrightarrow> 0 \<le> md_rows (tb_meta b)"
  unfolding tb_wf_def by (metis of_nat_0_le_iff)

section \<open>Splitting in two\<close>

lemma split_from_two:
  assumes "0 \<le> a" and "a \<le> int (length xs)"
  shows "split_from xs 0 [a, int (length xs) - a] = Ok [take (nat a) xs, drop (nat a) xs]"
  using assms by (simp add: nat_diff_distrib)

lemma split_vector_two:
  assumes "0 \<le> a" and "a \<le> n" and "xs = [] \<or> int (length xs) = n"
  shows "split_vector_by_size xs [a, n - a] = Ok [take (nat a) xs, drop (nat a) xs]"
  using assms split_from_two[of a xs] by (auto simp: split_vector_by_size_def)

lemma nth_opt_take: "i < k \<Longrightarrow> nth_opt (take k xs) i = nth_opt xs i"
  by (simp add: nth_opt_def)

lemma nth_opt_Nil [simp]: "nth_opt [] i = None"
  by (simp add: nth_opt_def)

lemma nth_opt_drop: "nth_opt (drop k xs) i = nth_opt xs (k + i)"
  by (auto simp: nth_opt_def)

lemma split_part_fields [simp]:
  "md_reqs (split_part m (n, r, e, w, k, q)) = r" "md_exps (split_part m (n, r, e, w, k, q)) = e" "md_weights (split_part m (n, r, e, w, k, q)) = w"
  "md_ranks (split_part m (n, r, e, w, k, q)) = k" "md_prefills (split_part m (n, r, e, w, k, q)) = q" "md_rows (split_part m (n, r, e, w, k, q)) = n"
  "md_tag (split_part m (n, r, e, w, k, q)) = md_tag m" "md_layer (split_part m (n, r, e, w, k, q)) = md_layer m"
  "md_dim (split_part m (n, r, e, w, k, q)) = md_dim m"
  by (simp_all add: split_part_def Let_def)

text \<open>What a split keeps: the layer, the side and the width.\<close>

definition same_kind :: "('h, 'w) token_batch \<Rightarrow> ('h, 'w) token_batch \<Rightarrow> bool" where
  "same_kind b c \<longleftrightarrow> md_tag (tb_meta c) = md_tag (tb_meta b) \<and> md_layer (tb_meta c) = md_layer (tb_meta b) \<and> md_dim (tb_meta c) = md_dim (tb_meta b)"

lemma tb_split_two:
  assumes "tb_wf b" and "0 \<le> a" and "a \<le> md_rows (tb_meta b)"
  shows "\<exists>b0 b1. tb_split_with_sizes b [a, md_rows (tb_meta b) - a] = Ok [b0, b1] \<and> tb_wf b0 \<and> tb_wf b1
    \<and> md_rows (tb_meta b0) = a \<and> md_rows (tb_meta b1) = md_rows (tb_meta b) - a \<and> batch_rows b0 @ batch_rows b1 = batch_rows b
    \<and> same_kind b b0 \<and> same_kind b b1"
proof -
  let ?m = "tb_meta b" and ?n = "md_rows (tb_meta b)" and ?k = "nat a"
  have sh: "int (length (md_reqs ?m)) = ?n" "int (length (md_prefills ?m)) = ?n" "md_exps ?m = [] \<or> int (length (md_exps ?m)) = ?n"
    "md_weights ?m = [] \<or> int (length (md_weights ?m)) = ?n" "md_ranks ?m = [] \<or> int (length (md_ranks ?m)) = ?n" "int (length (tb_data b)) = ?n"
    using assms(1) by (auto simp: tb_wf_def md_shape_def covers_rows_def)
  note v = split_vector_two[OF assms(2,3)]
  let ?p = "split_part ?m (a, take ?k (md_reqs ?m), take ?k (md_exps ?m), take ?k (md_weights ?m), take ?k (md_ranks ?m), take ?k (md_prefills ?m))"
  let ?q = "split_part ?m (?n - a, drop ?k (md_reqs ?m), drop ?k (md_exps ?m), drop ?k (md_weights ?m), drop ?k (md_ranks ?m), drop ?k (md_prefills ?m))"
  let ?c = "\<lparr> tb_data = take ?k (tb_data b), tb_meta = ?p \<rparr>" and ?d = "\<lparr> tb_data = drop ?k (tb_data b), tb_meta = ?q \<rparr>"
  have "split_with_sizes ?m [a, ?n - a] = Ok [?p, ?q]"
    using sh v[of "md_reqs ?m"] v[of "md_exps ?m"] v[of "md_weights ?m"] v[of "md_ranks ?m"] v[of "md_prefills ?m"] by (simp add: split_with_sizes_def)
  moreover have "split_tensor_by_size (tb_data b) [a, ?n - a] = Ok [take ?k (tb_data b), drop ?k (tb_data b)]"
    using split_from_two[of a "tb_data b"] assms(2,3) sh(6) by (simp add: split_tensor_by_size_def)
  ultimately have "tb_split_with_sizes b [a, ?n - a] = Ok [?c, ?d]" by (simp add: tb_split_with_sizes_def)
  moreover have "tb_wf ?c" "tb_wf ?d" using sh assms(2,3) by (auto simp: tb_wf_def md_shape_def covers_rows_def)
  moreover have "batch_rows ?c @ batch_rows ?d = batch_rows b"
  proof (rule nth_equalityI)
    show "length (batch_rows ?c @ batch_rows ?d) = length (batch_rows b)" by simp
    fix i assume "i < length (batch_rows ?c @ batch_rows ?d)"
    then have i: "i < length (tb_data b)" by simp
    show "(batch_rows ?c @ batch_rows ?d) ! i = batch_rows b ! i"
      using i sh assms(2,3)
      by (cases "i < ?k") (simp_all add: nth_append batch_rows_def batch_row_def Let_def nth_opt_take nth_opt_drop min_def not_less split: if_splits) 
  qed
  ultimately show ?thesis by (intro exI[of _ ?c] exI[of _ ?d]) (simp add: same_kind_def)
qed

section \<open>Taking batches under a limit\<close>

lemma take_batches_conserve:
  assumes "\<forall>b \<in> set q. tb_wf b" and "acc \<le> thr"
  shows "\<exists>res rest. take_batches thr acc q = Ok (res, rest, acc + queue_size res) \<and> queue_rows res @ queue_rows rest = queue_rows q
    \<and> acc + queue_size res = min thr (acc + queue_size q) \<and> (\<forall>b \<in> set res \<union> set rest. tb_wf b)
    \<and> (\<forall>b \<in> set res \<union> set rest. \<exists>c \<in> set q. same_kind c b)"
  using assms
proof (induction q arbitrary: acc)
  case Nil
  then show ?case by simp
next
  case (Cons b q)
  let ?n = "md_rows (tb_meta b)"
  have wf: "tb_wf b" "0 \<le> ?n" "\<forall>b \<in> set q. tb_wf b" using Cons.prems(1) tb_wf_rows by auto
  have pos: "0 \<le> queue_size q" using queue_rows_size[OF wf(3)] by (metis of_nat_0_le_iff)
  have refl: "same_kind c c" for c :: "('a, 'b) token_batch" by (simp add: same_kind_def)
  consider "\<not> acc < thr" | "acc < thr" "acc + ?n > thr" | "acc < thr" "acc + ?n \<le> thr" by linarith
  then show ?case
  proof cases
    case 1
    then show ?thesis using Cons.prems wf pos refl by (intro exI[of _ "[]"] exI[of _ "b # q"]) auto
  next
    case 2
    then obtain c d where s: "tb_split_with_sizes b [thr - acc, ?n - (thr - acc)] = Ok [c, d]" "tb_wf c" "tb_wf d"
      "md_rows (tb_meta c) = thr - acc" "batch_rows c @ batch_rows d = batch_rows b" "same_kind b c" "same_kind b d"
      using tb_split_two[OF wf(1), of "thr - acc"] by auto
    then have "take_batches thr acc (b # q) = Ok ([c], d # q, acc + queue_size [c])" using 2 by (simp add: Let_def vec_get_def)
    then show ?thesis using 2 s wf pos refl by (intro exI[of _ "[c]"] exI[of _ "d # q"]) (auto simp flip: append_assoc)
  next
    case 3
    obtain res rest where ih: "take_batches thr (acc + ?n) q = Ok (res, rest, acc + ?n + queue_size res)" "queue_rows res @ queue_rows rest = queue_rows q"
      "acc + ?n + queue_size res = min thr (acc + ?n + queue_size q)" "\<forall>b \<in> set res \<union> set rest. tb_wf b"
      "\<forall>b \<in> set res \<union> set rest. \<exists>c \<in> set q. same_kind c b"
      using Cons.IH[OF wf(3) 3(2)] by blast
    then have "take_batches thr acc (b # q) = Ok (b # res, rest, acc + queue_size (b # res))" using 3 by (simp add: Let_def add.assoc)
    then show ?thesis using ih wf refl by (intro exI[of _ "b # res"] exI[of _ rest]) (auto simp: add.assoc)
  qed
qed

text \<open>A layer that queues batches counts their rows.\<close>

definition layer_wf :: "'w unified_layer \<Rightarrow> bool" where
  "layer_wf l \<longleftrightarrow> (\<forall>b \<in> set (ul_batches l). tb_wf b) \<and> ul_num_tokens l = queue_size (ul_batches l) + int (length (ul_tokens l))"

lemma layer_wf_new: "layer_wf (create_layer ty lid)"
  by (simp add: layer_wf_def create_layer_def)

lemma layer_wf_add_batch: "layer_wf l \<Longrightarrow> tb_wf b \<Longrightarrow> layer_wf (ul_add_batch l b)"
  by (auto simp: layer_wf_def ul_add_batch_def queue_size_def)

lemma add_tokens_eq: "add_tokens l ts = l\<lparr>ul_tokens := ul_tokens l @ ts, ul_num_tokens := ul_num_tokens l + int (length ts)\<rparr>"
  unfolding add_tokens_def by (induction ts arbitrary: l) (simp_all add: add_token_def)

lemma layer_wf_add_tokens: "layer_wf l \<Longrightarrow> layer_wf (add_tokens l ts)"
  by (simp add: layer_wf_def add_tokens_eq)

lemma take_tokens_eq: "take_tokens thr acc q = (take (nat (thr - acc)) q, drop (nat (thr - acc)) q, acc + int (length (take (nat (thr - acc)) q)))"
proof (induction thr acc q rule: take_tokens.induct)
  case (2 thr acc t q)
  show ?case
  proof (cases "acc < thr")
    case True
    then have "nat (thr - acc) = Suc (nat (thr - (acc + 1)))" by simp
    then show ?thesis using 2[OF True] True by simp
  qed simp
qed simp

lemma restricted_batches:
  assumes "layer_wf l" and "ul_tokens l = []" and "0 < thr" and "0 < ul_num_tokens l"
  shows "\<exists>bs l'. get_batches_restricted thr l = Ok (bs, l') \<and> queue_rows bs @ queue_rows (ul_batches l') = queue_rows (ul_batches l)
    \<and> queue_size bs = min thr (ul_num_tokens l) \<and> ul_num_tokens l' = ul_num_tokens l - queue_size bs \<and> layer_wf l' \<and> ul_tokens l' = []
    \<and> (\<forall>b \<in> set bs. tb_wf b \<and> (\<exists>c \<in> set (ul_batches l). same_kind c b)) \<and> (\<forall>b \<in> set (ul_batches l'). \<exists>c \<in> set (ul_batches l). same_kind c b)"
proof -
  have wf: "\<forall>b \<in> set (ul_batches l). tb_wf b" and n: "ul_num_tokens l = queue_size (ul_batches l)" using assms(1,2) by (simp_all add: layer_wf_def)
  obtain res rest where t: "take_batches thr 0 (ul_batches l) = Ok (res, rest, queue_size res)" "queue_rows res @ queue_rows rest = queue_rows (ul_batches l)"
    "queue_size res = min thr (queue_size (ul_batches l))" "\<forall>b \<in> set res \<union> set rest. tb_wf b"
    "\<forall>b \<in> set res \<union> set rest. \<exists>c \<in> set (ul_batches l). same_kind c b"
    using take_batches_conserve[OF wf, of 0 thr] assms(3) by auto
  have pos: "0 < queue_size res" using t(3) n assms(3,4) by simp
  then have "res \<noteq> []" by auto
  moreover have "queue_size rest = queue_size (ul_batches l) - queue_size res"
    using queue_rows_size[of res] queue_rows_size[of rest] queue_rows_size[OF wf] t(2,4) by (metis UnCI add_diff_cancel_left' length_append of_nat_add)
  ultimately show ?thesis using t pos n assms(2) by (auto simp: get_batches_restricted_def c_assert_def layer_wf_def)
qed

text \<open>
  C8: Taking batches from a layer under a limit loses, repeats and reorders nothing. From a layer that has rows and a positive limit it takes exactly the limit, or everything when there is
  less, splitting the last batch where needed; the rows taken followed by the rows left are the rows that were queued, with all their fields; and the count of the layer
  is the number of rows left.
\<close>

theorem restricted_batches_conserve_rows:
  assumes "layer_wf l" and "ul_tokens l = []" and "0 < thr" and "0 < ul_num_tokens l"
  shows "\<exists>bs l'. get_batches_restricted thr l = Ok (bs, l') \<and> queue_rows bs @ queue_rows (ul_batches l') = queue_rows (ul_batches l)
    \<and> queue_size bs = min thr (ul_num_tokens l) \<and> ul_num_tokens l' = ul_num_tokens l - queue_size bs \<and> layer_wf l'"
  using restricted_batches[OF assms] by blast

definition demo_attn_meta :: "int list \<Rightarrow> real metadata" where
  "demo_attn_meta rids = \<lparr> md_tag = ATTENTION, md_rows = int (length rids), md_dim = 128, md_dtype = ''bf16'', md_layer = 0, md_reqs = rids, md_exps = [],
     md_weights = [], md_ranks = [], md_prefills = map (\<lambda>_. - 1) rids, md_prefill_seqs = Some 0, md_prefill_tokens = Some 0,
     md_decode_tokens = Some (int (length rids)) \<rparr>"

definition demo_attn_batch :: "int list \<Rightarrow> real batch" where
  "demo_attn_batch rids = \<lparr> tb_data = map (\<lambda>r _. real_of_int r) rids, tb_meta = demo_attn_meta rids \<rparr>"

definition demo_queue :: "real unified_layer" where
  "demo_queue = ul_add_batch (ul_add_batch (create_layer ATTENTION_LAYER 0) (demo_attn_batch [5, 6, 7])) (demo_attn_batch [8, 9])"

theorem restricted_batches_conserve_rows_witness:
  "\<exists>bs l'. get_batches_restricted 4 demo_queue = Ok (bs, l') \<and> queue_rows bs @ queue_rows (ul_batches l') = queue_rows (ul_batches demo_queue)
    \<and> queue_size bs = min 4 (ul_num_tokens demo_queue) \<and> ul_num_tokens l' = ul_num_tokens demo_queue - queue_size bs \<and> layer_wf l'"
proof (rule restricted_batches_conserve_rows)
  show "layer_wf demo_queue" unfolding demo_queue_def
    by (intro layer_wf_add_batch layer_wf_new) (simp_all add: tb_wf_def md_shape_def covers_rows_def demo_attn_batch_def demo_attn_meta_def)
qed (simp_all add: demo_queue_def ul_add_batch_def create_layer_def demo_attn_batch_def demo_attn_meta_def)

text \<open>A limit that is not positive takes nothing and is refused.\<close>

lemma no_limit_refused: "thr \<le> 0 \<Longrightarrow> get_batches_restricted thr l = Raise RuntimeError"
  by (cases "ul_batches l") (simp_all add: get_batches_restricted_def c_assert_def)

section \<open>Groups of rows\<close>

text \<open>The complete groups of \<open>k\<close> elements of a list, and the elements after them.\<close>

definition full_groups :: "nat \<Rightarrow> 'a list \<Rightarrow> 'a list list" where
  "full_groups k xs = map (\<lambda>i. take k (drop (i * k) xs)) [0..<length xs div k]"

definition group_rest :: "nat \<Rightarrow> 'a list \<Rightarrow> 'a list" where
  "group_rest k xs = drop (length xs div k * k) xs"

lemma group_rest_length: "length (group_rest k xs) = length xs mod k"
  by (simp add: group_rest_def minus_div_mult_eq_mod)

lemma groups_concat: "0 < k \<Longrightarrow> concat (full_groups k xs) @ group_rest k xs = xs"
proof -
  have "concat (map (\<lambda>i. take k (drop (i * k) xs)) [0..<n]) = take (n * k) xs" if "n * k \<le> length xs" for n
    using that
  proof (induction n)
    case (Suc n)
    then show ?case using take_add[of "n * k" k xs] by (simp add: add.commute)
  qed simp
  then show ?thesis unfolding full_groups_def group_rest_def by (metis append_take_drop_id div_times_less_eq_dividend)
qed

lemma groups_snoc:
  assumes "0 < k"
  shows "full_groups k (xs @ [x]) = (if Suc (length (group_rest k xs)) = k then full_groups k xs @ [group_rest k xs @ [x]] else full_groups k xs)"
    and "group_rest k (xs @ [x]) = (if Suc (length (group_rest k xs)) = k then [] else group_rest k xs @ [x])"
proof -
  let ?n = "length xs div k"
  have le: "?n * k \<le> length xs" by simp
  have old: "map (\<lambda>i. take k (drop (i * k) (xs @ [x]))) [0..<?n] = map (\<lambda>i. take k (drop (i * k) xs)) [0..<?n]"
  proof (rule map_cong)
    fix i assume "i \<in> set [0..<?n]"
    then have "Suc i * k \<le> ?n * k" by (intro mult_right_mono) auto
    then have "i * k + k \<le> ?n * k" by simp
    then have "i * k + k \<le> length xs" using le by (rule order_trans)
    then show "take k (drop (i * k) (xs @ [x])) = take k (drop (i * k) xs)" by simp
  qed simp
  show "full_groups k (xs @ [x]) = (if Suc (length (group_rest k xs)) = k then full_groups k xs @ [group_rest k xs @ [x]] else full_groups k xs)"
  proof (cases "Suc (length xs mod k) = k")
    case True
    then have "Suc (length xs) div k = Suc ?n" using assms by (simp add: div_Suc mod_Suc)
    moreover have "take k (drop (?n * k) (xs @ [x])) = drop (?n * k) xs @ [x]"
      using le True group_rest_length[of k xs] by (simp add: group_rest_def)
    ultimately show ?thesis using old True by (simp add: full_groups_def group_rest_length) (simp add: group_rest_def)
  next
    case False
    then have "Suc (length xs) div k = ?n" using assms by (simp add: div_Suc mod_Suc)
    then show ?thesis using old False by (simp add: full_groups_def group_rest_length)
  qed
  show "group_rest k (xs @ [x]) = (if Suc (length (group_rest k xs)) = k then [] else group_rest k xs @ [x])"
  proof (cases "Suc (length xs mod k) = k")
    case True
    then have "Suc (length xs) mod k = 0" using assms by (simp add: mod_Suc)
    then have "length (group_rest k (xs @ [x])) = 0" by (simp add: group_rest_length)
    then have "group_rest k (xs @ [x]) = []" by (simp only: length_0_conv)
    then show ?thesis using True by (simp add: group_rest_length[of k xs])
  next
    case False
    then have "Suc (length xs) div k = ?n" using assms by (simp add: div_Suc mod_Suc)
    then show ?thesis using False le group_rest_length[of k xs] by (simp add: group_rest_def)
  qed
qed

section \<open>The pool collects groups\<close>

definition seq_rows :: "int \<Rightarrow> (int \<times> 'a) list \<Rightarrow> 'a list" where
  "seq_rows s h = map snd (filter (\<lambda>p. fst p = s) h)"

lemma seq_rows_simps [simp]: "seq_rows s [] = []" "seq_rows s (h @ g) = seq_rows s h @ seq_rows s g" "seq_rows s [(r, x)] = (if r = s then [x] else [])"
  by (simp_all add: seq_rows_def)

text \<open>The rows of a batch with the requests they belong to.\<close>

definition arrivals :: "('h, 'w) token_batch \<Rightarrow> (int \<times> 'h) list" where
  "arrivals b = zip (md_reqs (tb_meta b)) (tb_data b)"

definition arrival_ok :: "int \<Rightarrow> 'w batch \<Rightarrow> bool" where
  "arrival_ok width b \<longleftrightarrow> tb_wf b \<and> md_ranks (tb_meta b) \<noteq> [] \<and> md_dim (tb_meta b) = width"

text \<open>One request: the tokens that left the pool are its complete groups, and the entry of the pool is the rest.\<close>

definition seq_inv :: "nat \<Rightarrow> int \<Rightarrow> vec list \<Rightarrow> topk_entry list \<Rightarrow> topk_entry option \<Rightarrow> bool" where
  "seq_inv k s rs es p \<longleftrightarrow> map tk_rows es = full_groups k rs
     \<and> (case p of None \<Rightarrow> group_rest k rs = [] | Some t \<Rightarrow> tk_seq t = s \<and> tk_rows t = group_rest k rs \<and> tk_rows t \<noteq> [])"

lemma seq_inv_rows:
  "seq_inv k s rs es p \<Longrightarrow> map tk_rows es = full_groups k rs \<and> (case p of None \<Rightarrow> [] | Some t \<Rightarrow> tk_rows t) = group_rest k rs"
  by (cases p) (simp_all add: seq_inv_def)

definition entry_dims :: "int \<Rightarrow> topk_entry \<Rightarrow> bool" where
  "entry_dims width t \<longleftrightarrow> tk_dims t = replicate (length (tk_rows t)) width"

text \<open>The pool after the rows \<open>h\<close>, of which the tokens \<open>out\<close> were fetched already.\<close>

definition topk_inv :: "nat \<Rightarrow> int \<Rightarrow> (int \<times> vec) list \<Rightarrow> topk_entry list \<Rightarrow> topk_pool \<Rightarrow> bool" where
  "topk_inv k width h out st \<longleftrightarrow> tp_top_k st = int k
     \<and> (\<forall>s. seq_inv k s (seq_rows s h) (filter (\<lambda>t. tk_seq t = s) (out @ tp_ready st)) (tp_pool st s))
     \<and> (\<forall>t \<in> set (out @ tp_ready st). entry_dims width t) \<and> (\<forall>s t. tp_pool st s = Some t \<longrightarrow> entry_dims width t)"

lemma topk_inv_init: "topk_inv k width [] [] (topk_pool_init (int k))"
  by (simp add: topk_inv_def seq_inv_def topk_pool_init_def full_groups_def group_rest_def)

lemma topk_inv_step:
  assumes "topk_inv k width h out st" and "tp_top_k st' = tp_top_k st"
    and "seq_inv k s (seq_rows s h @ [x]) (filter (\<lambda>t. tk_seq t = s) (out @ tp_ready st')) (tp_pool st' s)"
    and "\<And>r. r \<noteq> s \<Longrightarrow> tp_pool st' r = tp_pool st r \<and> filter (\<lambda>t. tk_seq t = r) (tp_ready st') = filter (\<lambda>t. tk_seq t = r) (tp_ready st)"
    and "\<forall>t \<in> set (tp_ready st'). t \<in> set (tp_ready st) \<or> entry_dims width t" and "\<And>t. tp_pool st' s = Some t \<Longrightarrow> entry_dims width t"
  shows "topk_inv k width (h @ [(s, x)]) out st'"
  unfolding topk_inv_def
proof (intro conjI allI ballI impI)
  fix r show "seq_inv k r (seq_rows r (h @ [(s, x)])) (filter (\<lambda>t. tk_seq t = r) (out @ tp_ready st')) (tp_pool st' r)"
    by (cases "r = s") (use assms(1,3) assms(4)[of r] in \<open>simp_all add: topk_inv_def\<close>)
next
  fix r t assume "tp_pool st' r = Some t"
  then show "entry_dims width t" by (cases "r = s") (use assms(1,6) assms(4)[of r] in \<open>auto simp: topk_inv_def\<close>)
qed (use assms(1,2,5) in \<open>auto simp: topk_inv_def\<close>)

lemma topk_put_row_inv:
  assumes "topk_inv k width h out st" and "2 \<le> k" and "arrival_ok width b" and "i < length (tb_data b)"
  shows "\<exists>st'. topk_put_row b st (int i) = Ok st' \<and> topk_inv k width (h @ [(md_reqs (tb_meta b) ! i, tb_data b ! i)]) out st'"
proof -
  let ?m = "tb_meta b" and ?x = "tb_data b ! i"
  let ?s = "md_reqs ?m ! i"
  let ?r = "group_rest k (seq_rows ?s h)"
  have l: "i < length (md_reqs ?m)" "i < length (md_prefills ?m)" "i < length (md_ranks ?m)" "md_dim ?m = width"
    using assms(3,4) by (auto simp: arrival_ok_def tb_wf_def md_shape_def covers_rows_def)
  have k: "0 < k" using assms(2) by simp
  have inv: "seq_inv k ?s (seq_rows ?s h) (filter (\<lambda>t. tk_seq t = ?s) (out @ tp_ready st)) (tp_pool st ?s)" "tp_top_k st = int k"
    using assms(1) unfolding topk_inv_def by blast+
  note g = groups_snoc[OF k, of "seq_rows ?s h" ?x]
  show ?thesis
  proof (cases "tp_pool st ?s")
    case None
    let ?t = "topk_new ?s (md_prefills ?m ! i) (md_ranks ?m ! i) width ?x"
    let ?st = "st\<lparr>tp_pool := (tp_pool st)(?s \<mapsto> ?t)\<rparr>"
    have "?r = []" using inv(1) None by (simp add: seq_inv_def)
    then have "topk_inv k width (h @ [(?s, ?x)]) out ?st"
      using g inv(1) assms(2) by (intro topk_inv_step[OF assms(1)]) (auto simp: seq_inv_def topk_new_def entry_dims_def)
    moreover have "topk_put_row b st (int i) = Ok ?st" using None l assms(4) by (simp add: topk_put_row_def Let_def)
    ultimately show ?thesis by blast
  next
    case (Some t)
    let ?t = "topk_append t width ?x"
    have t: "tk_seq t = ?s" "tk_rows t = ?r" using inv(1) Some by (simp_all add: seq_inv_def)
    have "entry_dims width t" using assms(1) Some unfolding topk_inv_def by blast
    then have a: "tk_seq ?t = ?s" "tk_rows ?t = ?r @ [?x]" "entry_dims width ?t"
      using t by (simp_all add: topk_append_def entry_dims_def replicate_append_same)
    define fin where "fin \<longleftrightarrow> Suc (length ?r) = k"
    have f: "int (length (tk_rows ?t)) = tp_top_k st \<longleftrightarrow> fin" using a(2) inv(2) by (auto simp: fin_def)
    show ?thesis
    proof (cases fin)
      case True
      let ?st = "st\<lparr>tp_ready := tp_ready st @ [?t], tp_pool := (tp_pool st)(?s := None)\<rparr>"
      have "topk_inv k width (h @ [(?s, ?x)]) out ?st"
        using g inv(1) a True by (intro topk_inv_step[OF assms(1)]) (auto simp: seq_inv_def fin_def)
      moreover have "topk_put_row b st (int i) = Ok ?st" using Some l assms(4) f True by (simp add: topk_put_row_def Let_def)
      ultimately show ?thesis by blast
    next
      case False
      let ?st = "st\<lparr>tp_pool := (tp_pool st)(?s \<mapsto> ?t)\<rparr>"
      have "topk_inv k width (h @ [(?s, ?x)]) out ?st"
        using g inv(1) a False by (intro topk_inv_step[OF assms(1)]) (auto simp: seq_inv_def fin_def)
      moreover have "topk_put_row b st (int i) = Ok ?st" using Some l assms(4) f False by (simp add: topk_put_row_def Let_def)
      ultimately show ?thesis by blast
    qed
  qed
qed

lemma topk_put_batch_inv:
  assumes "topk_inv k width h out st" and "2 \<le> k" and "arrival_ok width b"
  shows "\<exists>st'. topk_put_batch st b = Ok st' \<and> topk_inv k width (h @ arrivals b) out st'"
proof -
  let ?m = "tb_meta b" and ?n = "length (tb_data b)"
  have l: "length (md_reqs ?m) = ?n" "length (md_prefills ?m) = ?n" "length (md_ranks ?m) = ?n" "md_rows ?m = int ?n"
    using assms(3) by (auto simp: arrival_ok_def tb_wf_def md_shape_def covers_rows_def)
  have "\<exists>st'. foldM (topk_put_row b) st [0..int j - 1] = Ok st' \<and> topk_inv k width (h @ take j (arrivals b)) out st'" if "j \<le> ?n" for j
    using that
  proof (induction j)
    case 0
    then show ?case using assms(1) by simp
  next
    case (Suc j)
    then obtain st' where st: "foldM (topk_put_row b) st [0..int j - 1] = Ok st'" "topk_inv k width (h @ take j (arrivals b)) out st'" by auto
    have "take (Suc j) (arrivals b) = take j (arrivals b) @ [(md_reqs ?m ! j, tb_data b ! j)]"
      using Suc.prems l(1) by (simp add: arrivals_def take_Suc_conv_app_nth)
    moreover have "[0..int (Suc j) - 1] = [0..int j - 1] @ [int j]" using upto_rec2[of 0 "int j"] by simp
    ultimately show ?case using topk_put_row_inv[OF st(2) assms(2,3), of j] st(1) Suc.prems by auto
  qed
  from this[of ?n] show ?thesis using l by (simp add: topk_put_batch_def Let_def c_assert_def arrivals_def)
qed

text \<open>A pool that takes batches one after another, and is emptied of its complete tokens after each.\<close>

fun topk_run :: "topk_pool \<Rightarrow> 'w batch list \<Rightarrow> (topk_entry list \<times> topk_pool) res" where
  "topk_run st [] = Ok ([], st)"
| "topk_run st (b # bs) =
     rbind (topk_put_batch st b) (\<lambda>st.
     (let (ts, st) = fetch_ready_tokens st in
      rbind (topk_run st bs) (\<lambda>(us, st). Ok (ts @ us, st))))"

lemma topk_run_inv:
  assumes "topk_inv k width h out st" and "tp_ready st = []" and "2 \<le> k" and "\<forall>b \<in> set bs. arrival_ok width b"
  shows "\<exists>ts st'. topk_run st bs = Ok (ts, st') \<and> topk_inv k width (h @ concat (map arrivals bs)) (out @ ts) st' \<and> tp_ready st' = []"
  using assms(1,2,4)
proof (induction bs arbitrary: h out st)
  case (Cons b bs)
  obtain s1 where s1: "topk_put_batch st b = Ok s1" "topk_inv k width (h @ arrivals b) out s1"
    using topk_put_batch_inv[OF Cons.prems(1) assms(3), of b] Cons.prems(3) by auto
  let ?s2 = "s1\<lparr>tp_ready := []\<rparr>"
  have "topk_inv k width (h @ arrivals b) (out @ tp_ready s1) ?s2" using s1(2) by (simp add: topk_inv_def)
  from Cons.IH[OF this] Cons.prems(3) obtain ts st' where
    "topk_run ?s2 bs = Ok (ts, st')" "topk_inv k width ((h @ arrivals b) @ concat (map arrivals bs)) ((out @ tp_ready s1) @ ts) st'" "tp_ready st' = []"
    by auto
  then show ?case using s1(1) by (intro exI[of _ "tp_ready s1 @ ts"] exI[of _ st']) (simp add: fetch_ready_tokens_def)
qed simp

text \<open>
  C9: The pool hands out every token exactly when its last expert row has arrived. For \<open>top_k\<close> at least two and any sequence of batches, the tokens handed out
  for a request hold its rows in groups of \<open>top_k\<close>, in the order of arrival, and what the pool still holds for it are the rows after the
  last complete group: no row is lost, repeated or given to another request.
\<close>

theorem topk_pool_groups_rows:
  assumes "2 \<le> k" and "\<forall>b \<in> set bs. arrival_ok width b"
  shows "\<exists>ts st. topk_run (topk_pool_init (int k)) bs = Ok (ts, st)
    \<and> (\<forall>s. map tk_rows (filter (\<lambda>t. tk_seq t = s) ts) = full_groups k (seq_rows s (concat (map arrivals bs)))
        \<and> (case tp_pool st s of None \<Rightarrow> [] | Some t \<Rightarrow> tk_rows t) = group_rest k (seq_rows s (concat (map arrivals bs))))"
proof -
  obtain ts st where t: "topk_run (topk_pool_init (int k)) bs = Ok (ts, st)" "topk_inv k width (concat (map arrivals bs)) ts st" "tp_ready st = []"
    using topk_run_inv[OF topk_inv_init _ assms] by (auto simp: topk_pool_init_def)
  have "seq_inv k s (seq_rows s (concat (map arrivals bs))) (filter (\<lambda>t. tk_seq t = s) ts) (tp_pool st s)" for s
    using t(2,3) by (simp add: topk_inv_def)
  from seq_inv_rows[OF this] t(1) show ?thesis by (intro exI[of _ ts] exI[of _ st]) blast
qed

definition demo_expert_rows :: "int list \<Rightarrow> real batch" where
  "demo_expert_rows rids = \<lparr> tb_data = map (\<lambda>r _. real_of_int r) rids, tb_meta = (demo_attn_meta rids)\<lparr>md_layer := 1, md_ranks := map (\<lambda>_. 0) rids\<rparr> \<rparr>"

theorem topk_pool_groups_rows_witness:
  "\<exists>ts st. topk_run (topk_pool_init 2) [demo_expert_rows [5, 6], demo_expert_rows [6, 7, 5, 7]] = Ok (ts, st)
    \<and> length (filter (\<lambda>t. tk_seq t = 7) ts) = 1"
proof -
  have "\<forall>b \<in> set [demo_expert_rows [5, 6], demo_expert_rows [6, 7, 5, 7]]. arrival_ok 128 b"
    by (simp add: arrival_ok_def tb_wf_def md_shape_def covers_rows_def demo_expert_rows_def demo_attn_meta_def)
  from topk_pool_groups_rows[OF order_refl this] obtain ts st where
    t: "topk_run (topk_pool_init 2) [demo_expert_rows [5, 6], demo_expert_rows [6, 7, 5, 7]] = Ok (ts, st)"
    "map tk_rows (filter (\<lambda>t. tk_seq t = 7) ts)
      = full_groups 2 (seq_rows 7 (concat (map arrivals [demo_expert_rows [5, 6], demo_expert_rows [6, 7, 5, 7]])))" by auto
  have "length (seq_rows 7 (concat (map arrivals [demo_expert_rows [5, 6], demo_expert_rows [6, 7, 5, 7]]))) = 2"
    by (simp add: seq_rows_def arrivals_def demo_expert_rows_def demo_attn_meta_def)
  then have "length (filter (\<lambda>t. tk_seq t = 7) ts) = 1" using arg_cong[OF t(2), of length] by (simp add: full_groups_def)
  then show ?thesis using t(1) by blast
qed

end
