(* ===== verification/Spec2Isabelle.thy ===== *)
theory Spec2Isabelle
  imports Mem_Pool Dp_Scheduler Block_Manager Gpu_Block_Manager Config Placement Sampler Sliding_Window Gate Kv_Loader Model_Utils Experts Attention Padding Cuda_Graph Expert_Graph Token_Ops Layer_Queue
begin

text \<open>
  StreamInfer serves mixture-of-experts models with attention and experts disaggregated: attention workers keep the KV caches of the requests, expert workers run
  the feed-forward networks, and token rows travel between them asynchronously, layer by layer. This library models the code under
  \<^verbatim>\<open>src/StreamInfer\<close> (Python under \<^verbatim>\<open>disagmoe\<close>, C++ and CUDA under \<^verbatim>\<open>csrc\<close>) and proves what its components promise each other.

  \<^bold>\<open>How a request moves.\<close> The controller's scheduler assigns a request to an attention rank with room in its KV cache
  (\<open>Dp_Scheduler\<close>); with a KV store, the loader fetches and installs the pages of its prompt (\<open>Kv_Loader\<close>). The worker's block manager
  gives every token a cache slot (\<open>Mem_Pool\<close>, \<open>Cpp_Block_Manager\<close>, \<open>Block_Manager\<close>, \<open>Gpu_Block_Manager\<close>) and packs the attention metadata
  (\<open>Model_Utils\<close>, \<open>Datatypes\<close>). The attention layer attends, keeps the residual in a stash row and routes (\<open>Attention\<close>,
  \<open>Sliding_Window\<close>, \<open>Gate\<close>), eagerly or through a CUDA graph padded to a captured size (\<open>Padding\<close>, \<open>Cuda_Graph\<close>). The rows are duplicated for their experts,
  sorted, split by destination and merged again at the other side (\<open>Metadata\<close>, \<open>Token_Ops\<close>, \<open>Layer_Queue\<close>). The expert worker runs each row
  through its expert (\<open>Experts\<close>, \<open>Expert_Graph\<close>); the rows return to the attention worker, whose pool sums the \<open>top_k\<close> rows of a token
  (\<open>Layer_Queue\<close>, \<open>Token_Ops\<close>). After the last layer the sampler takes the next token (\<open>Sampler\<close>). Which device hosts which layers and experts is decided at start-up
  (\<open>Config\<close>, \<open>Placement\<close>).

  \<^bold>\<open>Conventions.\<close> A modelled Python function or C++ method is one definition named after it where the name is free; a class is a record of its fields, and a method returns the new
  record. Exceptions are values: \<open>'a res\<close> is an error or a result, and every raise, assertion and early return is a branch (\<open>Prelude\<close>). A read or write outside a C++
  vector or a tensor, undefined in the source, is \<open>IndexError\<close>, so a theorem with an \<open>Ok\<close> result also says that no access is out of range. Tensors are lists of
  entries or rows; a row is a function from the element index to the reals, and rounding is not modelled. Contents of fresh memory are arguments. Integers are
  unbounded: wrap-around of the machine types is not modelled.

  \<^bold>\<open>Code outside the sources\<close> is a parameter with a contract: the flash-attention kernel, \<open>torch.topk\<close> and \<open>fused_topk\<close>, the grouped matrix products
  (\<open>gemm_contract\<close>, \<open>dgemm_contract\<close>), replay of a captured graph (\<open>replay_contract\<close>), the hash and the store of the KV loader, and \<open>std::sort\<close>. Every
  property that uses a contract has a witness at an instance that meets it.

  \<^bold>\<open>What is shown.\<close>
  \<^item> \<open>Mem_Pool\<close> (\<^verbatim>\<open>block_manager/mem_pool.py\<close>): the locale \<open>slot_pool\<close> is the contract of an allocator, and the row pool, the token pool and the page pool are
    its interpretations; no slot is handed out twice over any run; the decode kernel computes what the reference allocation computes.
  \<^item> \<open>Cpp_Block_Manager\<close> (\<^verbatim>\<open>csrc/engine/block_manager.cpp\<close>), \<open>Block_Manager\<close> and \<open>Gpu_Block_Manager\<close> (\<^verbatim>\<open>block_manager/block_manager.py\<close>): over any run the
    KV slots of different requests are disjoint; the optimised packing equals the naive one; the locale \<open>req_store\<close> covers both representations of the request table. The GPU manager misaligns mixed batches.
  \<^item> \<open>Dp_Scheduler\<close> (\<^verbatim>\<open>scheduler/dpscheduler.py\<close>): the loop is an inductive step relation; under the locale \<open>dp_policy\<close>, which all four policies meet, admission is in order of
    arrival; under \<open>capacity_policy\<close>, met by max, cap_rr and weighted, no rank is over-committed and a request is refused exactly when no rank fits it; a request that fits no rank blocks the loop.
  \<^item> This theory: a block manager never runs out of blocks for the requests the scheduler admitted while one block is spare, and it aborts without the spare one.
  \<^item> \<open>Kv_Loader\<close> (\<^verbatim>\<open>kv_loader.py\<close>): unless the hash collides a page key names its whole prefix, and an installed request has its own pages in its own blocks, over any interleaving of workers and engine.
  \<^item> \<open>Metadata\<close> (\<^verbatim>\<open>csrc/include/metadata.hpp\<close>), \<open>Token_Ops\<close> (\<^verbatim>\<open>csrc/cuda_ops/permute.cu\<close>, \<^verbatim>\<open>gather_and_sum.cu\<close>, \<^verbatim>\<open>ops/memory.py\<close>) and \<open>Layer_Queue\<close>
    (\<^verbatim>\<open>csrc/include/batch.hpp\<close>, \<^verbatim>\<open>csrc/muhelper/layer.cpp\<close>, the top-k pool of \<^verbatim>\<open>csrc/muhelper/muhelper.cpp\<close>): sorting is stable, merging is sorting the concatenation, splitting loses nothing; a kernel block
    touches each element of its chunk once, so rows arrive whole when the chunk divides the hidden size; taking batches under a limit conserves the rows; the top-k pool
    hands out the rows of a request in groups of \<open>top_k\<close>.
  \<^item> \<open>Attention\<close>, \<open>Sliding_Window\<close> and \<open>Gate\<close> (\<^verbatim>\<open>models/attention.py\<close>, \<^verbatim>\<open>models/sliding_window.py\<close>, \<^verbatim>\<open>models/gate.py\<close>): decode attention is softmax over the window with a sink logit; a run
    through the layers with stash rows computes the residual network; routing is well formed; the replaying router finds the recorded row.
  \<^item> \<open>Padding\<close> and \<open>Cuda_Graph\<close> (\<^verbatim>\<open>executor/executor.py\<close>, \<^verbatim>\<open>executor/cuda_graph.py\<close>, \<^verbatim>\<open>csrc/cuda_ops/cuda_graph.cu\<close>): executing through a graph gives the outputs and state of eager execution,
    apart from the scratch rows. \<open>Experts\<close> and \<open>Expert_Graph\<close> (\<^verbatim>\<open>models/experts.py\<close>, \<^verbatim>\<open>csrc/cuda_ops/indices_copy_pad.cu\<close>): every row gets the network of its expert, eagerly and through a graph.
  \<^item> \<open>Sampler\<close> (\<^verbatim>\<open>sampler.py\<close>): the stream of a request is its forced tokens, then sampled ones up to the limit, whatever other requests do, and it ends.
  \<^item> \<open>Placement\<close> (\<^verbatim>\<open>utils/placement.py\<close>), \<open>Config\<close> (\<^verbatim>\<open>config.py\<close>), \<open>Model_Utils\<close> (\<^verbatim>\<open>models/utils.py\<close>), \<open>Datatypes\<close> (\<^verbatim>\<open>frontend/datatypes.py\<close>): the edges between devices are exactly those the
    layers need, every expert of a pipeline has one device and its rank, packed metadata unpacks to itself.

  \<^bold>\<open>Loops and bounds.\<close> Every loop is structural recursion, a fold, or a \<open>function\<close> with a measure; no definition has fuel. Counting sorts assume expert ids below
  the 128 of \<^verbatim>\<open>csrc/include/metadata.hpp\<close>; captured attention sizes are at most 1024, as the code asserts.

  \<^bold>\<open>Not modelled.\<close> The transport (NCCL, UCX, NIXL and ZeroMQ channels, dispatcher and pool threads under \<^verbatim>\<open>csrc/muhelper\<close>) is asynchronous input and output of external libraries. The engine loop,
  controller, tokenizer and detokenizer connect processes and actors; the operations they call are modelled, their own bookkeeping (stash slots, pending results) is not.
  The policies that choose the next layer (\<^verbatim>\<open>csrc/muhelper/layer.cpp\<close> after the queues, \<^verbatim>\<open>csrc/muhelper/pool.cpp\<close>, \<^verbatim>\<open>csrc/engine/scheduler.cpp\<close>) could be modelled in the same style and are
  not yet; no theorem depends on which layer is chosen. Loading of weights, the parallel linear layers of \<^verbatim>\<open>models/linear.py\<close> (subclasses
  of vLLM's), FP8 quantisation and the CUTLASS and DeepGEMM products depend on floating-point formats and external kernels. Logging, tracing, profiling, metrics, memory profiling and warm-up have no effect on results. Benchmarks,
  experiments, plots, simulations, the traffic generator and the bundled sglang fork, a separate serving system used as a prefill stub and baseline, are not part of the serving path.
\<close>

section \<open>Reservations and blocks\<close>

lemma ceil_mult: "0 < bs \<Longrightarrow> x \<le> (x + bs - 1) div bs * bs" for x :: int
proof -
  assume bs: "0 < bs"
  have "(x + bs - 1) div bs * bs + (x + bs - 1) mod bs = x + bs - 1" by simp
  moreover have "(x + bs - 1) mod bs < bs" using bs by simp
  ultimately show ?thesis by linarith
qed

lemma nblk_le_blocks:
  assumes "0 < bs" and "1 \<le> len" and "len \<le> p + l"
  shows "nblk bs len \<le> nat (blocks bs (p, l))"
proof (rule nblk_le[OF assms(1,2)])
  have "len \<le> (p + bs - 1) div bs * bs + (l + bs - 1) div bs * bs"
    using ceil_mult[OF assms(1), of p] ceil_mult[OF assms(1), of l] assms(3) by linarith
  then show "len \<le> blocks bs (p, l) * bs" by (simp add: blocks_def distrib_right)
qed

text \<open>The requests the scheduler has on a rank, and the blocks it reserves for each.\<close>

definition on_rank :: "dp_state \<Rightarrow> int \<Rightarrow> int set" where
  "on_rank s r = {i. seq_ranks s i = Some r}"

definition reserved :: "dp_state \<Rightarrow> int \<Rightarrow> nat" where
  "reserved s i = nat (blocks (block_size s) (the (seq_max_len s i)))"

lemma reserved_sum:
  assumes "dp_inv cap s" and "\<forall>(p, l) \<in> ran (seq_max_len s). 0 \<le> p \<and> 0 \<le> l"
  shows "finite (on_rank s r) \<and> int (\<Sum>i \<in> on_rank s r. reserved s i) = committed s r"
proof -
  have fin: "finite (dom (seq_ranks s))" and dom: "dom (seq_ranks s) = dom (seq_max_len s)" and bs: "0 < block_size s"
    using assms(1) unfolding dp_inv_def dp_wf_def by blast+
  have sub: "on_rank s r \<subseteq> dom (seq_ranks s)" by (auto simp: on_rank_def)
  have "int (reserved s i) = blocks (block_size s) (the (seq_max_len s i))" if "i \<in> on_rank s r" for i
  proof -
    have "i \<in> dom (seq_max_len s)" using that sub dom by blast
    then obtain p l where "seq_max_len s i = Some (p, l)" by auto
    moreover from this have "0 \<le> p" "0 \<le> l" using assms(2) by (fastforce simp: ran_def)+
    ultimately show ?thesis using blocks_nonneg[OF bs, of p l] by (simp add: reserved_def)
  qed
  then have "int (\<Sum>i \<in> on_rank s r. reserved s i) = committed s r"
    by (simp add: committed_def on_rank_def)
  then show ?thesis using finite_subset[OF sub fin] by blast
qed

text \<open>The rank 0 of the scheduler's concrete run: four blocks of 16 tokens.\<close>

definition rank_c0 :: cpu_manager where
  "rank_c0 = projr (cpu_init (\<lambda>_. 0) [0] 16 4 64 2 4 True True)"

definition rank_meta :: "int \<Rightarrow> int \<Rightarrow> batch_meta" where
  "rank_meta rid prefill = \<lparr> meta_num_tokens = 1, layer_id = 0, req_ids = [rid], init_prefill_lens = [prefill],
     num_prefill_seqs = 1, num_prefill_tokens = 1, num_decode_tokens = 0 \<rparr>"

lemma rank_init: "cpu_init (\<lambda>_. 0) [0] 16 4 64 2 4 True True = Ok rank_c0"
  unfolding rank_c0_def by (rule Ok_projr) code_simp

lemma rank_c0_empty [simp]: "req_len rank_c0 r = None" "block_tables (block_mgr rank_c0) r = None" "layer_ids rank_c0 = [0]"
  by (simp_all add: rank_c0_def cpu_init_def rm_init_def bm_init_def Let_def)

text \<open>
  C5: A rank's block manager never runs out of blocks for the requests the scheduler admitted, as
  long as the reservations leave one block of the rank unreserved: when the requests that own
  blocks, and those of the batch, are admitted to the rank and stay within the lengths they were
  admitted with, the first-layer update of the block table returns.
\<close>

theorem admitted_batch_finds_blocks:
  assumes "started name n bs ws stats sched s0" and "0 < n" and "0 < bs"
    and "\<forall>w \<in> set (case ws of None \<Rightarrow> [] | Some xs \<Rightarrow> xs). 0 \<le> w"
    and "dp_reach sched s0 y" and "name \<noteq> ''RR''"
    and "cpu_init junk lids bs nb msl mb mr gdr rebind = Ok c0" and "cpu_reach c0 c"
    and "batch_wf c meta" and "layer_ids c \<noteq> []" and "layer_id meta = layer_ids c ! 0"
    and spare: "committed (dp y) (int r) < nb"
    and owner: "\<forall>i l. block_tables (block_mgr c) i = Some l \<longrightarrow>
      i \<in> on_rank (dp y) (int r) \<and> length l \<le> reserved (dp y) i"
    and ids: "set (req_ids meta) \<subseteq> on_rank (dp y) (int r)"
    and lens: "\<forall>i < length (req_ids meta).
      (if i < num_prefill_tokens meta then init_prefill_lens meta ! i else the (req_len c (req_ids meta ! i)))
        < fst (the (seq_max_len (dp y) (req_ids meta ! i))) + snd (the (seq_max_len (dp y) (req_ids meta ! i)))"
  shows "\<exists>c' b'. cpu_update_block_table c meta (ab_build meta) = Ok (c', b')"
proof -
  have inv: "cpu_inv c" and fr: "bm_frame (bm_init bs nb 0) (block_mgr c)"
    using cpu_reach_inv[OF assms(8)] cpu_init_inv[OF assms(7,3)] by auto
  have sum: "finite (on_rank (dp y) (int r))"
    "int (\<Sum>i \<in> on_rank (dp y) (int r). reserved (dp y) i) = committed (dp y) (int r)"
    using reserved_sum[of "kv_cache_stats s0" "dp y" "int r"] started_lens[OF assms(1-5)] by auto
  have bs: "block_size (dp y) = bs" "bm_block_size (block_mgr c) = bs"
    using started_block_size[OF assms(1-6)] fr by (auto simp: bm_frame_def bm_init_def)
  have nb: "0 < nb" using sum(2) spare by linarith
  have "bm_total (block_mgr c) = bm_total (bm_init bs nb 0)" using fr by (simp only: bm_frame_def)
  then have "size (bm_total (block_mgr c)) = nat nb" using nb by (simp add: bm_total_def bm_init_def owned_of_def)
  moreover have "(\<Sum>i \<in> on_rank (dp y) (int r). reserved (dp y) i) < nat nb" using sum(2) spare nb by linarith
  moreover have "bm_wf (block_mgr c)" "reserved_blocks (block_mgr c) = 0" using fr by (auto simp: bm_frame_def bm_init_def)
  ultimately have "in_budget (reserved (dp y)) (on_rank (dp y) (int r)) (block_mgr c)"
    using owner by (auto simp: in_budget_def)
  moreover have "nblk bs (1 + (if i < num_prefill_tokens meta then init_prefill_lens meta ! i
      else the (req_len c (req_ids meta ! i)))) \<le> reserved (dp y) (req_ids meta ! i)"
    if i: "i < length (req_ids meta)" for i
  proof -
    let ?x = "if i < num_prefill_tokens meta then init_prefill_lens meta ! i else the (req_len c (req_ids meta ! i))"
    have "0 \<le> ?x"
    proof (cases "i < num_prefill_tokens meta")
      case True
      then show ?thesis using assms(9) by (auto simp: batch_wf_def)
    next
      case False
      then have "req_len c (req_ids meta ! i) \<noteq> None" using assms(9) i by (auto simp: batch_wf_def)
      then obtain l where l: "req_len c (req_ids meta ! i) = Some l" by blast
      then have "1 \<le> l" using inv unfolding cpu_inv_def by blast
      then show ?thesis using False l by simp
    qed
    then have one: "1 \<le> 1 + ?x" by linarith
    have "1 + ?x \<le> fst (the (seq_max_len (dp y) (req_ids meta ! i))) + snd (the (seq_max_len (dp y) (req_ids meta ! i)))"
      using lens[rule_format, OF i] by linarith
    from nblk_le_blocks[OF assms(3) one this] show ?thesis by (simp only: reserved_def bs(1) prod.collapse)
  qed
  ultimately show ?thesis
    using cpu_update_total[OF inv assms(9-11) _ sum(1) ids] bs(2) by blast
qed

theorem admitted_batch_finds_blocks_witness:
  "\<exists>c' b'. cpu_update_block_table rank_c0 (rank_meta 7 20) (ab_build (rank_meta 7 20)) = Ok (c', b')"
proof (rule admitted_batch_finds_blocks[OF demo_started _ _ _ demo_y2_reach _ rank_init cpu_reach.start, where r = 0])
  have "{i. seq_ranks (dp demo_y2) i = Some 0} = {7}" by (auto simp: demo_defs split: if_splits)
  then show "committed (dp demo_y2) (int 0) < 4" by (simp add: committed_def) (simp add: demo_defs blocks_def)
qed (simp_all add: batch_wf_def rank_meta_def on_rank_def, simp_all add: demo_defs)


end
